(* ===== verification/Prelude.thy ===== *)
theory Prelude
  imports Main "HOL-Library.Word" "HOL-Library.Monad_Syntax"
begin

text \<open>
  What the components share. The C integers are words of their width. A C function that
  changes state is a HOL function from the old state to an option of the result and the new
  state: \<open>None\<close> is the C program leaving its defined behaviour (an access outside an array,
  a dereference of NULL or of a dead object) or, for the functions made by
  \<^theory_text>\<open>partial_function\<close>, not returning. A theorem that gives \<open>Some\<close> therefore also says
  that the code is memory safe and terminates on that input. The error codes of the source
  are ordinary values (negative words), not \<open>None\<close>.
\<close>

unbundle bit_operations_syntax

section \<open>Machine types and constants\<close>

type_synonym u8 = "8 word"
type_synonym u16 = "16 word"
type_synonym u32 = "32 word"

text \<open>The error codes of \<^verbatim>\<open>include/kernel/types.h\<close>, each used in the code as its negation.\<close>

definition EPERM :: u32 where "EPERM = 1"
definition ENOENT :: u32 where "ENOENT = 2"
definition EIO :: u32 where "EIO = 5"
definition EBADF :: u32 where "EBADF = 9"
definition ENOMEM :: u32 where "ENOMEM = 12"
definition ENOTDIR :: u32 where "ENOTDIR = 20"
definition EISDIR :: u32 where "EISDIR = 21"
definition EINVAL :: u32 where "EINVAL = 22"
definition EMFILE :: u32 where "EMFILE = 24"
definition ENOSPC :: u32 where "ENOSPC = 28"
definition ENOSYS :: u32 where "ENOSYS = 38"

section \<open>Collections of facts\<close>

named_theorems err_defs "the values of the error codes"
named_theorems word_nat "facts that move a word computation to the natural numbers"
named_theorems field_defs "the small accessors of a component, unfolded in its own proofs"

lemmas errno_defs [err_defs] = EPERM_def ENOENT_def EIO_def EBADF_def ENOMEM_def ENOTDIR_def
  EISDIR_def EINVAL_def EMFILE_def ENOSPC_def ENOSYS_def

section \<open>Loops\<close>

text \<open>
  The C loop \<^verbatim>\<open>for (i = lo; i < hi; i++) body\<close> over a state. The body sees the index and
  the state; \<open>continue\<close> is \<open>Some\<close> of the unchanged state.
\<close>

function for_range :: "nat \<Rightarrow> nat \<Rightarrow> (nat \<Rightarrow> 's \<Rightarrow> 's option) \<Rightarrow> 's \<Rightarrow> 's option" where
  "for_range lo hi body s =
     (if lo < hi then do { s' \<leftarrow> body lo s; for_range (Suc lo) hi body s' } else Some s)"
  by pat_completeness auto
termination
  by (relation "measure (\<lambda>(lo, hi, _, _). hi - lo)") auto

declare for_range.simps [simp del]

lemma for_range_done [simp]: "hi \<le> lo \<Longrightarrow> for_range lo hi body s = Some s"
  by (simp add: for_range.simps)

lemma for_range_step: "lo < hi \<Longrightarrow>
    for_range lo hi body s = Option.bind (body lo s) (for_range (Suc lo) hi body)"
  by (subst for_range.simps) simp

text \<open>Total correctness of a loop from an invariant: the loop returns and the invariant holds.\<close>

lemma for_range_inv:
  assumes "lo \<le> hi" and "P lo s"
    and "\<And>k t. lo \<le> k \<Longrightarrow> k < hi \<Longrightarrow> P k t \<Longrightarrow> \<exists>t'. body k t = Some t' \<and> P (Suc k) t'"
  shows "\<exists>t. for_range lo hi body s = Some t \<and> P hi t"
  using assms
proof (induction "hi - lo" arbitrary: lo s)
  case 0
  then show ?case by auto
next
  case (Suc n)
  then have lt: "lo < hi" by simp
  with Suc.prems(2) Suc.prems(3) [of lo s] obtain s' where
    s': "body lo s = Some s'" "P (Suc lo) s'" by auto
  have "\<exists>t. for_range (Suc lo) hi body s' = Some t \<and> P hi t"
    using Suc.hyps(2) lt s'(2) Suc.prems(3) by (intro Suc.hyps(1)) auto
  with s'(1) lt show ?case by (simp add: for_range_step)
qed

text \<open>Partial correctness: what a returning loop keeps.\<close>

lemma for_range_keeps:
  assumes "for_range lo hi body s = Some t" and "P s"
    and "\<And>k u u'. lo \<le> k \<Longrightarrow> k < hi \<Longrightarrow> body k u = Some u' \<Longrightarrow> P u \<Longrightarrow> P u'"
  shows "P t"
  using assms
proof (induction "hi - lo" arbitrary: lo s)
  case 0
  then show ?case by simp
next
  case (Suc n)
  then have lt: "lo < hi" by simp
  with Suc.prems(1) obtain s' where
    s': "body lo s = Some s'" and rest: "for_range (Suc lo) hi body s' = Some t"
    by (auto simp: for_range_step bind_eq_Some_conv)
  have "P s'" using Suc.prems(3) [OF _ lt s' Suc.prems(2)] by simp
  show ?case
  proof (rule Suc.hyps(1) [OF _ rest \<open>P s'\<close>])
    show "n = hi - Suc lo" using Suc.hyps(2) lt by simp
    show "P u'" if "Suc lo \<le> k" "k < hi" "body k u = Some u'" "P u" for k u u'
      using that Suc.prems(3) [of k u u'] by simp
  qed
qed

text \<open>A loop that reaches a failing iteration fails.\<close>

lemma for_range_fails:
  assumes "lo \<le> k" and "k < hi" and "P lo s"
    and "\<And>j t. lo \<le> j \<Longrightarrow> j < k \<Longrightarrow> P j t \<Longrightarrow> \<exists>t'. body j t = Some t' \<and> P (Suc j) t'"
    and "\<And>t. P k t \<Longrightarrow> body k t = None"
  shows "for_range lo hi body s = None"
  using assms
proof (induction "k - lo" arbitrary: lo s)
  case 0
  then have "lo = k" by simp
  with 0 show ?case by (simp add: for_range_step)
next
  case (Suc n)
  then have lt: "lo < k" by simp
  with Suc.prems(3) Suc.prems(4) [of lo s] obtain s' where
    s': "body lo s = Some s'" "P (Suc lo) s'" by auto
  have "for_range (Suc lo) hi body s' = None"
    using Suc.hyps(2) lt s'(2) Suc.prems(2,4,5) by (intro Suc.hyps(1)) auto
  with s'(1) lt Suc.prems(2) show ?case by (simp add: for_range_step)
qed

section \<open>Searching a table\<close>

text \<open>
  The C search \<^verbatim>\<open>for (i = 0; i < n; i++) if (P(i)) return i\<close> is \<open>List.find\<close> over the
  indices.
\<close>

lemma find_upt_Some_iff:
  "List.find P [0..<n] = Some i \<longleftrightarrow> i < n \<and> P i \<and> (\<forall>j<i. \<not> P j)"
proof -
  have "List.find P [0..<n] = Some i \<longleftrightarrow>
      (\<exists>k<n. P k \<and> i = k \<and> (\<forall>j<k. \<not> P j))"
    by (auto simp: find_Some_iff)
  then show ?thesis by auto
qed

lemma find_upt_None_iff: "List.find P [0..<n] = None \<longleftrightarrow> (\<forall>i<n. \<not> P i)"
  by (auto simp: find_None_iff)

section \<open>Words as naturals\<close>

lemma unat_u32_lt [simp]: "unat (x :: u32) < 4294967296"
  using unsigned_less [of x] by simp

lemma unat_of_nat_small [word_nat]:
  "n < 4294967296 \<Longrightarrow> unat (of_nat n :: u32) = n"
  by (simp add: unsigned_of_nat take_bit_nat_eq_self)

lemma unat_add_small [word_nat]:
  "unat x + unat y < 4294967296 \<Longrightarrow> unat (x + y :: u32) = unat x + unat y"
  by (simp add: unat_word_ariths)

lemma unat_mult_small [word_nat]:
  "unat x * unat y < 4294967296 \<Longrightarrow> unat (x * y :: u32) = unat x * unat y"
  by (simp add: unat_word_ariths)

lemma unat_sub_small [word_nat]:
  "y \<le> x \<Longrightarrow> unat (x - y :: u32) = unat x - unat y"
  by (simp add: unat_sub word_le_nat_alt)

lemma unat_Suc_word [word_nat]:
  assumes "(i :: u32) < e" shows "unat (i + 1) = Suc (unat i)"
proof -
  have "unat i < unat e" using assms by (simp add: word_less_nat_alt)
  moreover have "unat e < 4294967296" by simp
  ultimately have "Suc (unat i) < 4294967296" by linarith
  then show ?thesis by (simp add: unat_word_ariths)
qed

lemma unat_div_num [word_nat]: "unat (x div y :: u32) = unat x div unat y"
  by (simp add: unat_div)

lemma unat_mod_num [word_nat]: "unat (x mod y :: u32) = unat x mod unat y"
  by (simp add: unat_mod)

lemma unat_drop_bit_u32 [word_nat]: "unat (drop_bit n x :: u32) = unat x div 2 ^ n"
  by (metis drop_bit_eq_div unat_drop_bit_eq)

text \<open>The simplifier turns a bit of a word numeral into a bit of an integer numeral.\<close>

lemma bit_all_ones [simp]: "bit (0xFFFFFFFF :: int) m \<longleftrightarrow> m < 32"
proof -
  have "(0xFFFFFFFF :: int) = mask 32" by (simp add: mask_eq_exp_minus_1)
  then show ?thesis by (simp only: bit_mask_iff) simp
qed

lemma u32_eq_of_nat: "unat (x :: u32) = n \<Longrightarrow> x = of_nat n"
  by auto

lemma u32_eq_iff_unat: "x = (y :: u32) \<longleftrightarrow> unat x = unat y"
  by (simp add: word_unat_eq_iff)

section \<open>Page arithmetic\<close>

text \<open>
  Page numbers and page addresses. The code masks with \<^verbatim>\<open>~0xFFF\<close> and
  \<^verbatim>\<open>~(PAGE_SIZE - 1)\<close>; on the naturals that is rounding down to a multiple of 4096.
\<close>

definition PAGE_SIZE :: u32 where "PAGE_SIZE = 4096"

definition page_base :: "u32 \<Rightarrow> u32" where
  "page_base a = a AND NOT 0xFFF"

definition page_aligned :: "u32 \<Rightarrow> bool" where
  "page_aligned a \<longleftrightarrow> unat a mod 4096 = 0"

lemma low12: "(a :: u32) AND 0xFFF = take_bit 12 a"
  by (simp add: take_bit_eq_mask mask_eq_exp_minus_1)

lemma unat_low12 [word_nat]: "unat ((a :: u32) AND 0xFFF) = unat a mod 4096"
  by (simp add: low12 take_bit_eq_mod unat_mod_num)

lemma page_base_alt: "page_base a = a - (a AND 0xFFF)"
proof -
  have "page_base a + (a AND 0xFFF) = (page_base a OR (a AND 0xFFF))"
    by (intro disjunctive_add) (auto simp: page_base_def bit_simps)
  also have "\<dots> = a"
    by (intro bit_eqI) (auto simp: page_base_def bit_simps)
  finally show ?thesis by (simp add: eq_diff_eq)
qed

lemma unat_page_base [word_nat]: "unat (page_base a) = unat a div 4096 * 4096"
proof -
  have "(a AND 0xFFF) \<le> a" by (rule word_and_le2)
  then have "unat (page_base a) = unat a - unat a mod 4096"
    by (simp add: page_base_alt unat_sub_small unat_low12)
  then show ?thesis by (simp add: minus_mod_eq_div_mult)
qed

lemma page_aligned_base [simp]: "page_aligned (page_base a)"
  by (simp add: page_aligned_def unat_page_base)

lemma page_aligned_iff: "page_aligned a \<longleftrightarrow> page_base a = a"
  by (auto simp: page_aligned_def u32_eq_iff_unat unat_page_base) (metis mod_mult_self2_is_0)

lemma page_aligned_0 [simp]: "page_aligned 0"
  by (simp add: page_aligned_def)

lemma bit_low12 [simp]: "bit (0xFFF :: u32) n \<longleftrightarrow> n < 12"
proof -
  have "(0xFFF :: u32) = mask 12" by (simp add: mask_eq_exp_minus_1)
  then show ?thesis by (simp only: bit_mask_iff) auto
qed

lemma bit_page_base: "bit (page_base a) n \<longleftrightarrow> bit a n \<and> 12 \<le> n"
  unfolding page_base_def bit_and_iff bit_not_iff bit_low12
  using bit_imp_le_length [of a n] by auto

lemma page_alignedE:
  assumes "page_aligned a"
  obtains k where "unat a = 4096 * k" and "k < 1048576"
proof -
  have eq: "unat a = 4096 * (unat a div 4096)"
    using assms mult_div_mod_eq [of 4096 "unat a"] by (simp add: page_aligned_def)
  moreover have "unat a div 4096 < 1048576"
    using unat_u32_lt [of a] by (simp add: div_less_iff_less_mult del: unat_u32_lt)
  ultimately show thesis by (rule that)
qed

lemma page_offset_unique:
  assumes "4096 * k + x = 4096 * k' + y" and "x < 4096" and "y < (4096 :: nat)"
  shows "k = k'" and "x = y"
proof -
  have "(4096 * k + x) div 4096 = k" "(4096 * k' + y) div 4096 = k'"
    using assms(2,3) by simp_all
  with assms(1) show "k = k'" by simp
  with assms(1) show "x = y" by simp
qed

lemma page_base_offset: "page_base a + (a AND 0xFFF) = a"
  by (simp add: page_base_alt)

end
