(* ===== verification/Pmm.thy ===== *)
theory Pmm
  imports Prelude
begin

text \<open>
  The physical frame allocator of \<^verbatim>\<open>mm/pmm.c\<close>: a bitmap with one bit per 4 KB frame, a set
  bit meaning "in use", with the number of frames that exist and the number in use. First
  the operations as the code has them, then their meaning as a set of free frames
  (\<open>free_frames\<close>), the invariant that ties the counter to the bitmap, and the interface
  \<open>frame_alloc\<close> that the paging code relies on, interpreted on these operations.
\<close>

section \<open>State and operations\<close>

record pmm =
  bitmap :: "u32 list"
  total_pages :: u32
  used_pages :: u32

definition BITMAP_LEN :: nat where
  "BITMAP_LEN = 256 * 1024 * 1024 div 4096 div 32"

text \<open>
  The bit operations. The array access is checked: a page number beyond the bitmap is an
  access outside the static array, so the result is \<open>None\<close>.
\<close>

definition pmm_set_bit :: "u32 \<Rightarrow> pmm \<Rightarrow> pmm option" where
  "pmm_set_bit page p =
     (let i = unat (page div 32) in
      if i < length (bitmap p)
      then Some (p\<lparr>bitmap := (bitmap p)[i := bitmap p ! i OR push_bit (unat (page mod 32)) 1]\<rparr>)
      else None)"

definition pmm_clear_bit :: "u32 \<Rightarrow> pmm \<Rightarrow> pmm option" where
  "pmm_clear_bit page p =
     (let i = unat (page div 32) in
      if i < length (bitmap p)
      then Some (p\<lparr>bitmap := (bitmap p)[i := bitmap p ! i AND NOT (push_bit (unat (page mod 32)) 1)]\<rparr>)
      else None)"

definition pmm_test_bit :: "u32 \<Rightarrow> pmm \<Rightarrow> u32 option" where
  "pmm_test_bit page p =
     (let i = unat (page div 32) in
      if i < length (bitmap p)
      then Some (drop_bit (unat (page mod 32)) (bitmap p ! i) AND 1)
      else None)"

definition pmm_init :: "u32 \<Rightarrow> u32 \<Rightarrow> pmm option" where
  "pmm_init mem_size kernel_end =
     (let total = mem_size div PAGE_SIZE;
          p0 = \<lparr>bitmap = replicate BITMAP_LEN 0xFFFFFFFF, total_pages = total, used_pages = 0\<rparr>;
          start_page = ((kernel_end + PAGE_SIZE - 1) AND NOT (PAGE_SIZE - 1)) div PAGE_SIZE;
          end_page = total
      in do {
        p1 \<leftarrow> for_range (unat start_page) (unat end_page) (\<lambda>i. pmm_clear_bit (of_nat i)) p0;
        Some (p1\<lparr>used_pages := start_page\<rparr>)
      })"

function pmm_scan :: "u32 \<Rightarrow> pmm \<Rightarrow> (u32 \<times> pmm) option" where
  "pmm_scan i p =
     (if i < total_pages p then do {
        b \<leftarrow> pmm_test_bit i p;
        if b = 0 then do {
          p' \<leftarrow> pmm_set_bit i p;
          Some (i * PAGE_SIZE, p'\<lparr>used_pages := used_pages p' + 1\<rparr>)
        } else pmm_scan (i + 1) p
      } else Some (0, p))"
  by pat_completeness auto
termination
proof (relation "measure (\<lambda>(i, p). unat (total_pages p) - unat i)", goal_cases)
  case (2 i p b)
  then have "unat i < unat (total_pages p)" by (simp add: word_less_nat_alt)
  with 2 show ?case by (simp add: unat_Suc_word [of i "total_pages p"])
qed simp

declare pmm_scan.simps [simp del]

definition pmm_alloc :: "pmm \<Rightarrow> (u32 \<times> pmm) option" where
  "pmm_alloc p = pmm_scan 0 p"

definition pmm_free :: "u32 \<Rightarrow> pmm \<Rightarrow> pmm option" where
  "pmm_free addr p =
     (let page = addr div PAGE_SIZE in do {
        b \<leftarrow> pmm_test_bit page p;
        if b \<noteq> 0 then do {
          p' \<leftarrow> pmm_clear_bit page p;
          Some (p'\<lparr>used_pages := used_pages p' - 1\<rparr>)
        } else Some p
      })"

section \<open>The bitmap as a set of pages\<close>

definition page_used :: "pmm \<Rightarrow> nat \<Rightarrow> bool" where
  "page_used p n \<longleftrightarrow> bit (bitmap p ! (n div 32)) (n mod 32)"

definition pmm_inv :: "pmm \<Rightarrow> bool" where
  "pmm_inv p \<longleftrightarrow> length (bitmap p) = BITMAP_LEN \<and> 0 < total_pages p \<and> total_pages p \<le> 65536
     \<and> page_used p 0
     \<and> unat (used_pages p) = card {n. n < unat (total_pages p) \<and> page_used p n}"

definition frame_free :: "pmm \<Rightarrow> u32 \<Rightarrow> bool" where
  "frame_free p a \<longleftrightarrow> page_aligned a \<and> unat a div 4096 < unat (total_pages p)
     \<and> \<not> page_used p (unat a div 4096)"

definition free_frames :: "pmm \<Rightarrow> u32 set" where
  "free_frames p = {a. frame_free p a}"

definition frame_managed :: "pmm \<Rightarrow> u32 \<Rightarrow> bool" where
  "frame_managed p a \<longleftrightarrow> page_aligned a \<and> a \<noteq> 0 \<and> unat a div 4096 < unat (total_pages p)"

lemma BITMAP_LEN_eq [simp]: "BITMAP_LEN = 2048"
  by (simp add: BITMAP_LEN_def)

lemma pmm_test_bit_eq:
  assumes "length (bitmap p) = BITMAP_LEN" and "n < 65536"
  shows "pmm_test_bit (of_nat n) p = Some (if page_used p n then 1 else 0)"
  using assms
  by (auto simp: pmm_test_bit_def page_used_def Let_def word_nat and_one_eq
      bit_iff_odd_drop_bit odd_iff_mod_2_eq_one even_iff_mod_2_eq_zero)

lemma pmm_set_bit_eq:
  assumes "length (bitmap p) = BITMAP_LEN" and "n < 65536"
  obtains q where "pmm_set_bit (of_nat n) p = Some q" "length (bitmap q) = BITMAP_LEN"
    "total_pages q = total_pages p" "used_pages q = used_pages p"
    "\<And>m. m < 65536 \<Longrightarrow> page_used q m \<longleftrightarrow> m = n \<or> page_used p m"
proof -
  let ?q = "p\<lparr>bitmap := (bitmap p)[n div 32 := bitmap p ! (n div 32) OR push_bit (n mod 32) 1]\<rparr>"
  have used: "page_used ?q m \<longleftrightarrow> m = n \<or> page_used p m" if "m < 65536" for m
  proof (cases "m div 32 = n div 32")
    case True
    then have "m mod 32 = n mod 32 \<longleftrightarrow> m = n" by (metis mod_mult_div_eq)
    with True that assms show ?thesis
      by (auto simp: page_used_def bit_simps)
  next
    case False
    with that assms show ?thesis by (auto simp: page_used_def)
  qed
  show thesis
    by (rule that [of ?q]) (use assms used in \<open>auto simp: pmm_set_bit_def Let_def word_nat\<close>)
qed

lemma pmm_clear_bit_eq:
  assumes "length (bitmap p) = BITMAP_LEN" and "n < 65536"
  obtains q where "pmm_clear_bit (of_nat n) p = Some q" "length (bitmap q) = BITMAP_LEN"
    "total_pages q = total_pages p" "used_pages q = used_pages p"
    "\<And>m. m < 65536 \<Longrightarrow> page_used q m \<longleftrightarrow> m \<noteq> n \<and> page_used p m"
proof -
  let ?q = "p\<lparr>bitmap := (bitmap p)[n div 32 := bitmap p ! (n div 32) AND NOT (push_bit (n mod 32) 1)]\<rparr>"
  have used: "page_used ?q m \<longleftrightarrow> m \<noteq> n \<and> page_used p m" if "m < 65536" for m
  proof (cases "m div 32 = n div 32")
    case True
    then have "m mod 32 = n mod 32 \<longleftrightarrow> m = n" by (metis mod_mult_div_eq)
    with True that assms show ?thesis
      by (auto simp: page_used_def bit_simps)
  next
    case False
    with that assms show ?thesis by (auto simp: page_used_def)
  qed
  show thesis
    by (rule that [of ?q]) (use assms used in \<open>auto simp: pmm_clear_bit_def Let_def word_nat\<close>)
qed


section \<open>Initialisation\<close>

definition kernel_pages :: "u32 \<Rightarrow> nat" where
  "kernel_pages kernel_end = (unat kernel_end + 4095) div 4096"

lemma start_page_eq:
  assumes "unat kernel_end + 4095 < 2 ^ 32"
  shows "unat (((kernel_end + PAGE_SIZE - 1) AND NOT (PAGE_SIZE - 1)) div PAGE_SIZE)
    = kernel_pages kernel_end"
proof -
  have "kernel_end + PAGE_SIZE - 1 = kernel_end + 4095" and "NOT (PAGE_SIZE - 1) = NOT (0xFFF :: u32)"
    by (simp_all add: PAGE_SIZE_def)
  then show ?thesis
    using assms
    by (simp only: page_base_def [symmetric])
       (simp add: PAGE_SIZE_def kernel_pages_def word_nat)
qed

text \<open>The clearing loop, up to page \<open>k\<close>: the pages from \<open>start\<close> to \<open>k\<close> are free, no other is.\<close>

definition cleared :: "u32 \<Rightarrow> nat \<Rightarrow> nat \<Rightarrow> pmm \<Rightarrow> bool" where
  "cleared tot start k p \<longleftrightarrow> length (bitmap p) = BITMAP_LEN \<and> total_pages p = tot
     \<and> (\<forall>n<65536. page_used p n \<longleftrightarrow> n < start \<or> k \<le> n)"

lemma cleared_len: "cleared tot start k p \<Longrightarrow> length (bitmap p) = BITMAP_LEN"
  by (simp add: cleared_def)

lemma cleared_step:
  assumes "cleared tot start k p" and "start \<le> k" and "k < 65536"
  shows "\<exists>q. pmm_clear_bit (of_nat k) p = Some q \<and> cleared tot start (Suc k) q"
proof -
  from assms(1) have len: "length (bitmap p) = BITMAP_LEN" by (simp add: cleared_def)
  obtain q where q: "pmm_clear_bit (of_nat k) p = Some q" "length (bitmap q) = BITMAP_LEN"
    "total_pages q = total_pages p"
    and used: "\<And>m. m < 65536 \<Longrightarrow> page_used q m \<longleftrightarrow> m \<noteq> k \<and> page_used p m"
    by (rule pmm_clear_bit_eq [OF len assms(3)]) blast
  have "page_used q n \<longleftrightarrow> n < start \<or> Suc k \<le> n" if "n < 65536" for n
    using assms(1,2) that used [OF that] by (auto simp: cleared_def)
  with assms(1) q show ?thesis by (simp add: cleared_def)
qed

lemma cleared_start:
  "cleared tot start start
     \<lparr>bitmap = replicate BITMAP_LEN 0xFFFFFFFF, total_pages = tot, used_pages = 0\<rparr>"
proof -
  have "page_used \<lparr>bitmap = replicate BITMAP_LEN 0xFFFFFFFF, total_pages = tot, used_pages = 0\<rparr> n"
    if "n < 65536" for n
    using that by (simp add: page_used_def del: BITMAP_LEN_eq) (simp add: less_mult_imp_div_less)
  then show ?thesis by (auto simp: cleared_def)
qed

lemma pmm_inv_cleared:
  assumes "cleared tot start (unat tot) p" and "0 < start" and "start \<le> unat tot"
    and "tot \<le> 65536" and "0 < tot" and "unat u = start"
  shows "pmm_inv (p\<lparr>used_pages := u\<rparr>)"
proof -
  have "unat tot \<le> 65536" using assms(4) by (simp add: word_le_nat_alt)
  then have "{n. n < unat tot \<and> page_used p n} = {..<start}"
    using assms(1,3) by (auto simp: cleared_def)
  moreover have "page_used p 0" using assms(1,2) by (simp add: cleared_def)
  ultimately show ?thesis
    using assms by (simp add: pmm_inv_def cleared_def page_used_def)
qed

section \<open>Allocation and freeing\<close>

lemma pmm_scan_full:
  assumes "length (bitmap p) = BITMAP_LEN" and "total_pages p \<le> 65536"
    and "\<forall>n<unat (total_pages p). page_used p n"
  shows "pmm_scan i p = Some (0, p)"
  using assms
proof (induction i p rule: pmm_scan.induct)
  case (1 i p)
  have tb: "pmm_test_bit i p = Some 1" if "i < total_pages p"
  proof -
    from that "1.prems" have "unat i < 65536" "page_used p (unat i)"
      by (auto simp: word_less_nat_alt word_le_nat_alt)
    with "1.prems"(1) pmm_test_bit_eq [of p "unat i"] show ?thesis by simp
  qed
  show ?case
    using "1.IH" "1.prems" tb by (subst pmm_scan.simps) auto
qed

lemma pmm_scan_first:
  assumes "length (bitmap p) = BITMAP_LEN" and "total_pages p \<le> 65536"
    and "n < unat (total_pages p)" and "\<not> page_used p n" and "\<forall>j<n. page_used p j"
    and "unat i \<le> n"
  shows "pmm_scan i p = do { q \<leftarrow> pmm_set_bit (of_nat n) p;
           Some (of_nat n * PAGE_SIZE, q\<lparr>used_pages := used_pages q + 1\<rparr>) }"
  using assms
proof (induction i p rule: pmm_scan.induct)
  case (1 i p)
  then have lt: "i < total_pages p" and n: "n < 65536"
    by (auto simp: word_less_nat_alt word_le_nat_alt)
  with "1.prems" have i: "unat i < 65536" by simp
  have tb: "pmm_test_bit i p = Some (if unat i = n then 0 else 1)"
    using pmm_test_bit_eq [OF "1.prems"(1) i] "1.prems"(4,5,6) by auto
  show ?case
  proof (cases "unat i = n")
    case True
    then have "i = of_nat n" by (rule u32_eq_of_nat)
    with True lt tb show ?thesis by (subst pmm_scan.simps) simp
  next
    case False
    with "1.prems"(6) lt have "unat (i + 1) \<le> n" by (simp add: unat_Suc_word)
    with False "1.IH" "1.prems" lt tb show ?thesis by (subst pmm_scan.simps) simp
  qed
qed

lemma card_insert_used:
  assumes "n < t" and "\<not> P n"
  shows "card {m. m < (t::nat) \<and> (m = n \<or> P m)} = Suc (card {m. m < t \<and> P m})"
proof -
  have "{m. m < t \<and> (m = n \<or> P m)} = insert n {m. m < t \<and> P m}" using assms by auto
  then show ?thesis using assms by simp
qed

lemma card_remove_used:
  assumes "n < t" and "P n"
  shows "Suc (card {m. m < (t::nat) \<and> m \<noteq> n \<and> P m}) = card {m. m < t \<and> P m}"
proof -
  have "(m = n \<or> m \<noteq> n \<and> P m) \<longleftrightarrow> P m" for m using assms(2) by auto
  with card_insert_used [of n t "\<lambda>m. m \<noteq> n \<and> P m"] assms(1) show ?thesis by simp
qed


lemma finite_free_frames [simp]: "finite (free_frames p)"
  by simp

lemma page_addr:
  assumes "n < 65536"
  shows "unat (of_nat n * PAGE_SIZE) = n * 4096" and "page_aligned (of_nat n * PAGE_SIZE)"
proof -
  show eq: "unat (of_nat n * PAGE_SIZE) = n * 4096"
    using assms by (simp add: word_nat PAGE_SIZE_def)
  then show "page_aligned (of_nat n * PAGE_SIZE)" by (simp add: page_aligned_def)
qed

lemma page_addr_unique:
  assumes "page_aligned a" and "unat a div 4096 = n" and "n < 65536"
  shows "a = of_nat n * PAGE_SIZE"
  using assms page_addr(1) [OF assms(3)] div_mult_mod_eq [of "unat a" 4096]
  by (simp add: u32_eq_iff_unat page_aligned_def)

lemma pmm_invD:
  assumes "pmm_inv p"
  shows "length (bitmap p) = BITMAP_LEN" and "unat (total_pages p) \<le> 65536"
    and "total_pages p \<le> 65536" and "page_used p 0" and "0 < unat (total_pages p)"
    and "unat (used_pages p) = card {n. n < unat (total_pages p) \<and> page_used p n}"
  using assms by (auto simp: pmm_inv_def word_le_nat_alt word_less_nat_alt)

lemma free_framesD:
  assumes "pmm_inv p" and "a \<in> free_frames p"
  shows "page_aligned a" and "a \<noteq> 0" and "unat a div 4096 < unat (total_pages p)"
    and "frame_managed p a"
proof -
  from assms show al: "page_aligned a" and lt: "unat a div 4096 < unat (total_pages p)"
    by (auto simp: free_frames_def frame_free_def)
  from assms pmm_invD(4) show nz: "a \<noteq> 0" by (auto simp: free_frames_def frame_free_def)
  from al lt nz show "frame_managed p a" by (simp add: frame_managed_def)
qed

lemma used_count_less:
  assumes "pmm_inv p" and "n < unat (total_pages p)" and "\<not> page_used p n"
  shows "unat (used_pages p) < unat (total_pages p)"
proof -
  have "{m. m < unat (total_pages p) \<and> page_used p m} \<subseteq> {..<unat (total_pages p)} - {n}"
    using assms by auto
  then have "card {m. m < unat (total_pages p) \<and> page_used p m}
      \<le> card ({..<unat (total_pages p)} - {n})"
    by (intro card_mono) auto
  with assms pmm_invD(6) [OF assms(1)] show ?thesis by (auto simp: card_Diff_singleton)
qed

text \<open>A page becomes used: what allocation does to the set of free frames.\<close>

lemma take_page:
  assumes inv: "pmm_inv p" and n: "n < unat (total_pages p)" "\<not> page_used p n"
  obtains q where "pmm_set_bit (of_nat n) p = Some q"
    and "pmm_inv (q\<lparr>used_pages := used_pages q + 1\<rparr>)"
    and "free_frames (q\<lparr>used_pages := used_pages q + 1\<rparr>) = free_frames p - {of_nat n * PAGE_SIZE}"
    and "total_pages q = total_pages p" and "used_pages q = used_pages p"
    and "\<And>m. m < 65536 \<Longrightarrow>
      page_used (q\<lparr>used_pages := used_pages q + 1\<rparr>) m \<longleftrightarrow> m = n \<or> page_used p m"
proof -
  note D = pmm_invD [OF inv]
  from n D have n': "n < 65536" by simp
  obtain q where q: "pmm_set_bit (of_nat n) p = Some q" "length (bitmap q) = BITMAP_LEN"
    "total_pages q = total_pages p" "used_pages q = used_pages p"
    and used: "\<And>m. m < 65536 \<Longrightarrow> page_used q m \<longleftrightarrow> m = n \<or> page_used p m"
    by (rule pmm_set_bit_eq [OF D(1) n']) blast
  let ?q = "q\<lparr>used_pages := used_pages q + 1\<rparr>"
  have used': "page_used ?q m \<longleftrightarrow> m = n \<or> page_used p m" if "m < 65536" for m
    using used [OF that] by (simp add: page_used_def)
  have "unat (used_pages p + 1) = Suc (unat (used_pages p))"
    using used_count_less [OF inv n] by (simp add: unat_Suc_word word_less_nat_alt)
  moreover have "{m. m < unat (total_pages p) \<and> page_used ?q m}
      = {m. m < unat (total_pages p) \<and> (m = n \<or> page_used p m)}"
    using used' D(2) by (intro Collect_cong) (auto simp: less_le_trans)
  ultimately have inv': "pmm_inv ?q"
    using D q used' [of 0] card_insert_used [of n "unat (total_pages p)" "page_used p"] n inv
    by (simp add: pmm_inv_def)
  have "frame_free ?q a \<longleftrightarrow> frame_free p a \<and> a \<noteq> of_nat n * PAGE_SIZE" for a
  proof (cases "page_aligned a \<and> unat a div 4096 < unat (total_pages p)")
    case True
    then have "unat a div 4096 = n \<longleftrightarrow> a = of_nat n * PAGE_SIZE"
      using page_addr_unique [of a n] page_addr(1) [OF n'] n' by auto
    with True D(2) q(3) used' [of "unat a div 4096"] show ?thesis by (auto simp: frame_free_def)
  next
    case False
    with q(3) show ?thesis by (auto simp: frame_free_def)
  qed
  then have "free_frames ?q = free_frames p - {of_nat n * PAGE_SIZE}"
    by (auto simp: free_frames_def)
  from that [OF q(1) inv' this q(3,4) used'] show thesis .
qed

lemma pmm_alloc_none:
  assumes "pmm_inv p" and "free_frames p = {}"
  shows "pmm_alloc p = Some (0, p)"
proof -
  note D = pmm_invD [OF assms(1)]
  have "page_used p n" if "n < unat (total_pages p)" for n
  proof (rule ccontr)
    assume "\<not> page_used p n"
    with that D page_addr [of n] have "of_nat n * PAGE_SIZE \<in> free_frames p"
      by (simp add: free_frames_def frame_free_def)
    with assms(2) show False by simp
  qed
  with D show ?thesis by (simp add: pmm_alloc_def pmm_scan_full)
qed

lemma pmm_alloc_some:
  assumes inv: "pmm_inv p" and ne: "free_frames p \<noteq> {}"
  obtains a q where "pmm_alloc p = Some (a, q)" "a \<in> free_frames p"
    "\<And>b. b \<in> free_frames p \<Longrightarrow> a \<le> b" "free_frames q = free_frames p - {a}"
    "pmm_inv q" "used_pages q = used_pages p + 1" "total_pages q = total_pages p"
    "\<And>m. m < 65536 \<Longrightarrow> page_used q m \<longleftrightarrow> m = unat a div 4096 \<or> page_used p m"
proof -
  note D = pmm_invD [OF inv]
  let ?P = "\<lambda>n. n < unat (total_pages p) \<and> \<not> page_used p n"
  define n where "n = (LEAST n. ?P n)"
  from ne obtain b where "frame_free p b" by (auto simp: free_frames_def)
  then have "?P (unat b div 4096)" by (simp add: frame_free_def)
  then have n: "n < unat (total_pages p)" "\<not> page_used p n"
    and least: "\<And>m. ?P m \<Longrightarrow> n \<le> m"
    unfolding n_def using LeastI [of ?P] Least_le [of ?P] by blast+
  from n D have n': "n < 65536" by simp
  have before: "\<forall>j<n. page_used p j"
    using least n(1) by (meson less_trans not_le)
  obtain q where q: "pmm_set_bit (of_nat n) p = Some q"
    "pmm_inv (q\<lparr>used_pages := used_pages q + 1\<rparr>)"
    "free_frames (q\<lparr>used_pages := used_pages q + 1\<rparr>) = free_frames p - {of_nat n * PAGE_SIZE}"
    "total_pages q = total_pages p" "used_pages q = used_pages p"
    and used: "\<And>m. m < 65536 \<Longrightarrow>
      page_used (q\<lparr>used_pages := used_pages q + 1\<rparr>) m \<longleftrightarrow> m = n \<or> page_used p m"
    by (rule take_page [OF inv n]) blast
  have "pmm_alloc p = Some (of_nat n * PAGE_SIZE, q\<lparr>used_pages := used_pages q + 1\<rparr>)"
    unfolding pmm_alloc_def using pmm_scan_first [OF D(1,3) n before, of 0] q(1) by simp
  moreover have "of_nat n * PAGE_SIZE \<in> free_frames p"
    using n page_addr [OF n'] by (simp add: free_frames_def frame_free_def)
  moreover have "of_nat n * PAGE_SIZE \<le> b" if "b \<in> free_frames p" for b
  proof -
    have "n \<le> unat b div 4096" using that least by (simp add: free_frames_def frame_free_def)
    then have "n * 4096 \<le> unat b" by (simp add: less_eq_div_iff_mult_less_eq)
    then show ?thesis by (simp add: word_le_nat_alt page_addr [OF n'])
  qed
  ultimately show thesis
    using q used page_addr(1) [OF n']
    by (intro that [of "of_nat n * PAGE_SIZE" "q\<lparr>used_pages := used_pages q + 1\<rparr>"]) simp_all
qed

text \<open>The round trip on single bits, and equality of two allocator states from their pages.\<close>

lemma bitmap_eqI:
  assumes "length (bitmap p) = BITMAP_LEN" and "length (bitmap q) = BITMAP_LEN"
    and "\<And>n. n < 65536 \<Longrightarrow> page_used p n = page_used q n"
  shows "bitmap p = bitmap q"
proof (rule nth_equalityI)
  show "length (bitmap p) = length (bitmap q)" using assms(1,2) by simp
  fix i assume "i < length (bitmap p)"
  then have i: "i < 2048" using assms(1) by simp
  show "bitmap p ! i = bitmap q ! i"
  proof (rule bit_word_eqI)
    fix m assume "m < LENGTH(32)"
    with i assms(3) [of "32 * i + m"]
    show "bit (bitmap p ! i) m = bit (bitmap q ! i) m" by (simp add: page_used_def)
  qed
qed

text \<open>Freeing any page of the bitmap, without the invariant.\<close>

lemma pmm_free_page:
  assumes len: "length (bitmap p) = BITMAP_LEN" and n: "unat a div 4096 < 65536"
  obtains q where "pmm_free a p = Some q" "length (bitmap q) = BITMAP_LEN"
    "total_pages q = total_pages p"
    "\<And>m. m < 65536 \<Longrightarrow> page_used q m \<longleftrightarrow> m \<noteq> unat a div 4096 \<and> page_used p m"
proof -
  let ?n = "unat a div 4096"
  have div: "a div PAGE_SIZE = of_nat ?n"
    using n by (simp add: u32_eq_iff_unat word_nat PAGE_SIZE_def)
  note tb = pmm_test_bit_eq [OF len n]
  show thesis
  proof (cases "page_used p ?n")
    case True
    obtain q where q: "pmm_clear_bit (of_nat ?n) p = Some q" "length (bitmap q) = BITMAP_LEN"
      "total_pages q = total_pages p"
      "\<And>m. m < 65536 \<Longrightarrow> page_used q m \<longleftrightarrow> m \<noteq> ?n \<and> page_used p m"
      by (rule pmm_clear_bit_eq [OF len n]) blast
    then show thesis
      using tb True
      by (intro that [of "q\<lparr>used_pages := used_pages q - 1\<rparr>"])
         (simp_all add: pmm_free_def div page_used_def)
  next
    case False
    with tb show thesis using len by (intro that [of p]) (auto simp: pmm_free_def div)
  qed
qed

lemma pmm_free_used:
  assumes inv: "pmm_inv p" and man: "frame_managed p a" and nf: "a \<notin> free_frames p"
  obtains q where "pmm_free a p = Some q" "pmm_inv q" "free_frames q = insert a (free_frames p)"
    "used_pages q = used_pages p - 1" "total_pages q = total_pages p"
    "\<And>m. m < 65536 \<Longrightarrow> page_used q m \<longleftrightarrow> m \<noteq> unat a div 4096 \<and> page_used p m"
proof -
  note D = pmm_invD [OF inv]
  define n where "n = unat a div 4096"
  from man have al: "page_aligned a" and nz: "a \<noteq> 0" and n: "n < unat (total_pages p)"
    by (auto simp: frame_managed_def n_def)
  from n D have n': "n < 65536" by simp
  have a: "a = of_nat n * PAGE_SIZE" using al n' by (simp add: n_def page_addr_unique)
  have "n \<noteq> 0" using a nz by (intro notI) simp
  have un: "page_used p n"
    using nf al n by (auto simp: free_frames_def frame_free_def n_def)
  have div: "a div PAGE_SIZE = of_nat n"
    using n' by (simp add: u32_eq_iff_unat word_nat PAGE_SIZE_def n_def)
  obtain q where q: "pmm_clear_bit (of_nat n) p = Some q" "length (bitmap q) = BITMAP_LEN"
    "total_pages q = total_pages p" "used_pages q = used_pages p"
    and used: "\<And>m. m < 65536 \<Longrightarrow> page_used q m \<longleftrightarrow> m \<noteq> n \<and> page_used p m"
    by (rule pmm_clear_bit_eq [OF D(1) n']) blast
  let ?q = "q\<lparr>used_pages := used_pages q - 1\<rparr>"
  have used': "page_used ?q m \<longleftrightarrow> m \<noteq> n \<and> page_used p m" if "m < 65536" for m
    using used [OF that] by (simp add: page_used_def)
  have free: "pmm_free a p = Some ?q"
    using pmm_test_bit_eq [OF D(1) n'] un q(1) by (simp add: pmm_free_def div)
  have cnt: "Suc (card {m. m < unat (total_pages p) \<and> m \<noteq> n \<and> page_used p m})
      = unat (used_pages p)"
    using card_remove_used [of n _ "page_used p", OF n un] D(6) by simp
  then have "1 \<le> used_pages p" by (simp add: word_le_nat_alt)
  then have "unat (used_pages p - 1) = unat (used_pages p) - 1" by (simp add: unat_sub_small)
  moreover have "{m. m < unat (total_pages p) \<and> page_used ?q m}
      = {m. m < unat (total_pages p) \<and> m \<noteq> n \<and> page_used p m}"
    using used' D(2) by (intro Collect_cong) (auto simp: less_le_trans)
  ultimately have "unat (used_pages ?q) = card {m. m < unat (total_pages ?q) \<and> page_used ?q m}"
    using q(3,4) by (simp add: cnt [symmetric])
  moreover have "page_used ?q 0" using used' [of 0] D(4) \<open>n \<noteq> 0\<close> by simp
  ultimately have inv': "pmm_inv ?q"
    using D(3,5) q(2,3) by (simp add: pmm_inv_def word_less_nat_alt)
  have "frame_free ?q b \<longleftrightarrow> frame_free p b \<or> b = a" for b
  proof (cases "page_aligned b \<and> unat b div 4096 < unat (total_pages p)")
    case True
    have "b = a" if "unat b div 4096 = n"
      using page_addr_unique [OF _ that n'] True a by simp
    moreover have "unat a div 4096 = n" by (simp add: n_def)
    ultimately have "unat b div 4096 = n \<longleftrightarrow> b = a" by metis
    with True D(2) q(3) used' [of "unat b div 4096"] show ?thesis by (auto simp: frame_free_def)
  next
    case False
    with q(3) al n show ?thesis by (auto simp: frame_free_def n_def)
  qed
  then have ff: "free_frames ?q = insert a (free_frames p)"
    by (auto simp: free_frames_def)
  show thesis
  proof (rule that [OF free inv' ff])
    show "used_pages ?q = used_pages p - 1" "total_pages ?q = total_pages p"
      using q(3,4) by simp_all
    show "page_used ?q m \<longleftrightarrow> m \<noteq> unat a div 4096 \<and> page_used p m" if "m < 65536" for m
      using used' [OF that] by (simp only: n_def)
  qed
qed

lemma pmm_free_free:
  assumes inv: "pmm_inv p" and fr: "a \<in> free_frames p"
  shows "pmm_free a p = Some p"
proof -
  note D = pmm_invD [OF inv]
  have n: "unat a div 4096 < 65536" "\<not> page_used p (unat a div 4096)"
    using fr D(2) by (auto simp: free_frames_def frame_free_def)
  have "a div PAGE_SIZE = of_nat (unat a div 4096)"
    using n by (simp add: u32_eq_iff_unat word_nat PAGE_SIZE_def)
  with pmm_test_bit_eq [OF D(1) n(1)] n(2) show ?thesis by (simp add: pmm_free_def)
qed

section \<open>The interface of the frame allocator\<close>

text \<open>
  What the paging code and the heap rely on, over the abstraction to a set of free frames.
  The provider promises totality on its invariant, freshness of what it hands out, and that
  freeing gives a frame back; a second free of the same frame changes nothing.
\<close>

locale frame_alloc =
  fixes alloc :: "'p \<Rightarrow> (u32 \<times> 'p) option"
    and release :: "u32 \<Rightarrow> 'p \<Rightarrow> 'p option"
    and free_set :: "'p \<Rightarrow> u32 set"
    and managed :: "'p \<Rightarrow> u32 \<Rightarrow> bool"
    and ok :: "'p \<Rightarrow> bool"
  assumes alloc_empty: "ok p \<Longrightarrow> free_set p = {} \<Longrightarrow> alloc p = Some (0, p)"
    and alloc_fresh: "ok p \<Longrightarrow> free_set p \<noteq> {} \<Longrightarrow> \<exists>a q. alloc p = Some (a, q) \<and> a \<in> free_set p
      \<and> free_set q = free_set p - {a} \<and> managed q = managed p \<and> ok q"
    and free_set_managed: "ok p \<Longrightarrow> a \<in> free_set p \<Longrightarrow> managed p a"
    and managed_frame: "ok p \<Longrightarrow> managed p a \<Longrightarrow> page_aligned a \<and> a \<noteq> 0"
    and release_used: "ok p \<Longrightarrow> managed p a \<Longrightarrow> a \<notin> free_set p \<Longrightarrow>
      \<exists>q. release a p = Some q \<and> free_set q = insert a (free_set p) \<and> managed q = managed p \<and> ok q"
    and release_again: "ok p \<Longrightarrow> a \<in> free_set p \<Longrightarrow> release a p = Some p"
begin

text \<open>Every call returns, and returns NULL exactly when there is no free frame.\<close>

lemma alloc_cases:
  assumes "ok p"
  obtains (empty) "alloc p = Some (0, p)" "free_set p = {}"
  | (fresh) a q where "alloc p = Some (a, q)" "a \<in> free_set p" "a \<noteq> 0" "page_aligned a"
      "free_set q = free_set p - {a}" "managed q = managed p" "ok q"
proof (cases "free_set p = {}")
  case True
  with assms alloc_empty empty show thesis by blast
next
  case False
  with assms obtain a q where aq: "alloc p = Some (a, q)" "a \<in> free_set p"
    "free_set q = free_set p - {a}" "managed q = managed p" "ok q"
    using alloc_fresh by blast
  from assms aq(2) have "page_aligned a \<and> a \<noteq> 0" using free_set_managed managed_frame by blast
  with aq fresh show thesis by blast
qed

lemma release_total:
  assumes "ok p" and "managed p a"
  obtains q where "release a p = Some q" "free_set q = insert a (free_set p)"
    "managed q = managed p" "ok q"
proof (cases "a \<in> free_set p")
  case True
  with assms release_again [of p a] that [of p] show thesis by (simp add: insert_absorb)
next
  case False
  with assms release_used [of p a] that show thesis by blast
qed

text \<open>A run of \<open>n\<close> successful allocations hands out \<open>n\<close> different frames, all free before.\<close>

fun alloc_run :: "nat \<Rightarrow> 'p \<Rightarrow> (u32 list \<times> 'p) option" where
  "alloc_run 0 p = Some ([], p)"
| "alloc_run (Suc n) p = do { (a, q) \<leftarrow> alloc p; (as, r) \<leftarrow> alloc_run n q; Some (a # as, r) }"

lemma alloc_run_distinct:
  assumes "ok p" and "finite (free_set p)" and "n \<le> card (free_set p)"
  shows "\<exists>as q. alloc_run n p = Some (as, q) \<and> length as = n \<and> distinct as
    \<and> set as \<subseteq> free_set p \<and> free_set q = free_set p - set as \<and> managed q = managed p \<and> ok q"
  using assms
proof (induction n arbitrary: p)
  case 0
  then show ?case by simp
next
  case (Suc n)
  then have "free_set p \<noteq> {}" by auto
  with Suc.prems(1) obtain a q where aq: "alloc p = Some (a, q)" "a \<in> free_set p"
    "free_set q = free_set p - {a}" "managed q = managed p" "ok q"
    using alloc_fresh by blast
  from Suc.prems aq have "n \<le> card (free_set q)" "finite (free_set q)" by auto
  from Suc.IH [OF aq(5) this(2,1)] obtain as r where
    "alloc_run n q = Some (as, r)" "length as = n" "distinct as" "set as \<subseteq> free_set q"
    "free_set r = free_set q - set as" "managed r = managed q" "ok r" by blast
  with aq show ?case by (intro exI [of _ "a # as"] exI [of _ r]) auto
qed

end

lemma frame_managed_total: "total_pages q = total_pages p \<Longrightarrow> frame_managed q = frame_managed p"
  by (auto simp: frame_managed_def)

interpretation pmm: frame_alloc pmm_alloc pmm_free free_frames frame_managed pmm_inv
proof (unfold_locales, goal_cases)
  case (1 p)
  then show ?case by (rule pmm_alloc_none)
next
  case (2 p)
  then obtain a q where "pmm_alloc p = Some (a, q)" "a \<in> free_frames p"
    "free_frames q = free_frames p - {a}" "pmm_inv q" "total_pages q = total_pages p"
    by (rule pmm_alloc_some) blast
  then show ?case using frame_managed_total by blast
next
  case (3 p a)
  then show ?case by (rule free_framesD)
next
  case (4 p a)
  then show ?case by (simp add: frame_managed_def)
next
  case (5 p a)
  then obtain q where "pmm_free a p = Some q" "pmm_inv q" "free_frames q = insert a (free_frames p)"
    "total_pages q = total_pages p"
    by (rule pmm_free_used) blast
  then show ?case using frame_managed_total by blast
next
  case (6 p a)
  then show ?case by (rule pmm_free_free)
qed


section \<open>Booting the allocator\<close>

lemma pmm_init_cleared:
  assumes "mem_size div PAGE_SIZE \<le> 65536" and "unat kernel_end + 4095 < 2 ^ 32"
    and "kernel_pages kernel_end \<le> unat (mem_size div PAGE_SIZE)"
  obtains p where "pmm_init mem_size kernel_end = Some (p\<lparr>used_pages := of_nat (kernel_pages kernel_end)\<rparr>)"
    and "cleared (mem_size div PAGE_SIZE) (kernel_pages kernel_end) (unat (mem_size div PAGE_SIZE)) p"
proof -
  let ?t = "mem_size div PAGE_SIZE" and ?s = "kernel_pages kernel_end"
  let ?sp = "((kernel_end + PAGE_SIZE - 1) AND NOT (PAGE_SIZE - 1)) div PAGE_SIZE"
  have le: "unat ?t \<le> 65536" using assms(1) by (simp add: word_le_nat_alt)
  have sp: "?sp = of_nat ?s" using start_page_eq [OF assms(2)] by (rule u32_eq_of_nat)
  have "unat ?sp = ?s" by (rule start_page_eq [OF assms(2)])
  moreover have "\<exists>p. for_range ?s (unat ?t) (\<lambda>i. pmm_clear_bit (of_nat i))
      \<lparr>bitmap = replicate BITMAP_LEN 0xFFFFFFFF, total_pages = ?t, used_pages = 0\<rparr> = Some p
      \<and> cleared ?t ?s (unat ?t) p"
    using assms(3) cleared_start le
    by (intro for_range_inv [where P = "cleared ?t ?s"]) (auto intro: cleared_step)
  ultimately show thesis using that sp by (auto simp: pmm_init_def Let_def)
qed

lemma free_frames_cleared:
  assumes "cleared tot start (unat tot) p" and "tot \<le> 65536"
  shows "free_frames (p\<lparr>used_pages := u\<rparr>)
    = {a. page_aligned a \<and> start * 4096 \<le> unat a \<and> unat a < unat tot * 4096}"
proof -
  have tot: "total_pages p = tot" "unat tot \<le> 65536"
    using assms by (auto simp: cleared_def word_le_nat_alt)
  have used: "page_used (p\<lparr>used_pages := u\<rparr>) n \<longleftrightarrow> n < start \<or> unat tot \<le> n" if "n < 65536" for n
    using assms(1) that by (simp add: cleared_def page_used_def)
  have "frame_free (p\<lparr>used_pages := u\<rparr>) a
      \<longleftrightarrow> page_aligned a \<and> start * 4096 \<le> unat a \<and> unat a < unat tot * 4096" for a
  proof (cases "unat a div 4096 < unat tot")
    case True
    then have "unat a < unat tot * 4096" by (simp add: div_less_iff_less_mult)
    moreover have "\<not> unat a div 4096 < start \<longleftrightarrow> start * 4096 \<le> unat a"
      by (simp add: div_less_iff_less_mult not_less)
    ultimately show ?thesis
      using True tot used [of "unat a div 4096"] by (auto simp: frame_free_def)
  next
    case False
    then have "\<not> unat a < unat tot * 4096" by (simp add: div_less_iff_less_mult)
    with False tot show ?thesis by (simp add: frame_free_def)
  qed
  then show ?thesis by (auto simp: free_frames_def)
qed

lemma pmm_init_ok:
  assumes "mem_size div PAGE_SIZE \<le> 65536" and "unat kernel_end + 4095 < 2 ^ 32"
    and "0 < kernel_end" and "kernel_pages kernel_end \<le> unat (mem_size div PAGE_SIZE)"
  shows "\<exists>p. pmm_init mem_size kernel_end = Some p \<and> pmm_inv p
    \<and> total_pages p = mem_size div PAGE_SIZE
    \<and> free_frames p = {a. page_aligned a \<and> kernel_pages kernel_end * 4096 \<le> unat a
        \<and> unat a < unat (mem_size div PAGE_SIZE) * 4096}"
proof -
  let ?t = "mem_size div PAGE_SIZE" and ?s = "kernel_pages kernel_end"
  obtain p where p: "pmm_init mem_size kernel_end = Some (p\<lparr>used_pages := of_nat ?s\<rparr>)"
    and cl: "cleared ?t ?s (unat ?t) p"
    by (rule pmm_init_cleared [OF assms(1,2,4)])
  have "0 < unat kernel_end" using assms(3) by (simp add: word_less_nat_alt)
  then have s: "0 < ?s" "?s < 65537" "unat (of_nat ?s :: u32) = ?s"
    using assms(1,4) by (auto simp: kernel_pages_def word_le_nat_alt word_nat)
  with assms(4) have "0 < ?t" by (simp add: word_less_nat_alt)
  with cl s assms(1,4) have "pmm_inv (p\<lparr>used_pages := of_nat ?s\<rparr>)"
    by (intro pmm_inv_cleared) auto
  with p cl free_frames_cleared [OF cl assms(1)] show ?thesis by (auto simp: cleared_def)
qed

lemma pmm_clear_bit_outside:
  assumes "length (bitmap p) = BITMAP_LEN" and "65536 \<le> n" and "n < 2 ^ 32"
  shows "pmm_clear_bit (of_nat n) p = None"
  using assms by (simp add: pmm_clear_bit_def Let_def word_nat)

text \<open>A booted allocator for the witnesses: 4 MB of memory, the kernel ending at \<open>0x140000\<close>.\<close>

definition boot_pmm :: pmm where
  "boot_pmm = the (pmm_init 0x400000 0x140000)"

lemma boot_pmm:
  shows "pmm_init 0x400000 0x140000 = Some boot_pmm" and "pmm_inv boot_pmm"
    and "total_pages boot_pmm = 1024"
    and "free_frames boot_pmm = {a. page_aligned a \<and> 0x140000 \<le> unat a \<and> unat a < 0x400000}"
proof -
  obtain p where p: "pmm_init 0x400000 0x140000 = Some p" "pmm_inv p" "total_pages p = 1024"
    "free_frames p = {a. page_aligned a \<and> 0x140000 \<le> unat a \<and> unat a < 0x400000}"
    using pmm_init_ok [of "0x400000" "0x140000"] by (auto simp: PAGE_SIZE_def kernel_pages_def)
  then have "boot_pmm = p" by (simp add: boot_pmm_def)
  with p show "pmm_init 0x400000 0x140000 = Some boot_pmm" "pmm_inv boot_pmm"
    "total_pages boot_pmm = 1024"
    "free_frames boot_pmm = {a. page_aligned a \<and> 0x140000 \<le> unat a \<and> unat a < 0x400000}"
    by simp_all
qed

lemma boot_pmm_free: "0x140000 \<in> free_frames boot_pmm" "0x200000 \<in> free_frames boot_pmm"
  by (simp_all add: boot_pmm page_aligned_def)

section \<open>Properties\<close>

text \<open>
  C4. Booting the allocator with at most 256 MB gives a state that satisfies the
  invariant, in which exactly the whole frames between the end of the kernel and the end of
  memory are free.
\<close>

theorem pmm_init_correct:
  assumes "mem_size div PAGE_SIZE \<le> 65536" and "unat kernel_end + 4095 < 2 ^ 32"
    and "0 < kernel_end" and "kernel_pages kernel_end \<le> unat (mem_size div PAGE_SIZE)"
  shows "\<exists>p. pmm_init mem_size kernel_end = Some p \<and> pmm_inv p
    \<and> total_pages p = mem_size div PAGE_SIZE
    \<and> free_frames p = {a. page_aligned a \<and> kernel_pages kernel_end * 4096 \<le> unat a
        \<and> unat a < unat (mem_size div PAGE_SIZE) * 4096}"
  using assms by (rule pmm_init_ok)

theorem pmm_init_correct_witness:
  "\<exists>p. pmm_init 0x4000000 0x123456 = Some p \<and> pmm_inv p \<and> total_pages p = 16384
    \<and> free_frames p = {a. page_aligned a \<and> 0x124000 \<le> unat a \<and> unat a < 0x4000000}"
  using pmm_init_correct [of "0x4000000" "0x123456"]
  by (simp add: PAGE_SIZE_def kernel_pages_def)

text \<open>
  With more than 256 MB the loop of \<^verbatim>\<open>pmm_init\<close> that frees the pages up to the end of
  memory runs past the end of the static bitmap: the boot has no defined result.
\<close>

theorem pmm_init_overruns_bitmap:
  assumes "65536 < mem_size div PAGE_SIZE" and "unat kernel_end + 4095 < 2 ^ 32"
    and "kernel_pages kernel_end \<le> 65536"
  shows "pmm_init mem_size kernel_end = None"
proof -
  let ?t = "mem_size div PAGE_SIZE" and ?s = "kernel_pages kernel_end"
  let ?p = "\<lparr>bitmap = replicate BITMAP_LEN 0xFFFFFFFF, total_pages = ?t, used_pages = 0\<rparr>"
  have "65536 < unat ?t" using assms(1) by (simp add: word_less_nat_alt)
  then have "for_range ?s (unat ?t) (\<lambda>i. pmm_clear_bit (of_nat i)) ?p = None"
    using assms(3) cleared_start cleared_step pmm_clear_bit_outside [of _ 65536]
    by (intro for_range_fails [where P = "cleared ?t ?s" and k = 65536]) (auto simp: cleared_len)
  then show ?thesis using start_page_eq [OF assms(2)] by (simp add: pmm_init_def Let_def)
qed

theorem pmm_init_overruns_bitmap_witness: "pmm_init 0x20000000 0x140000 = None"
  using pmm_init_overruns_bitmap [of "0x20000000" "0x140000"]
  by (simp add: PAGE_SIZE_def kernel_pages_def)

text \<open>
  C5. \<^verbatim>\<open>pmm_alloc\<close> always returns. With no free frame it returns NULL and changes nothing;
  otherwise it returns the lowest free frame, takes exactly that frame out of the free set,
  counts it, and keeps the invariant.
\<close>

theorem pmm_alloc_first_fit:
  assumes "pmm_inv p"
  shows "(free_frames p = {} \<and> pmm_alloc p = Some (0, p)) \<or>
    (\<exists>a q. pmm_alloc p = Some (a, q) \<and> a \<noteq> 0 \<and> a \<in> free_frames p
       \<and> (\<forall>b \<in> free_frames p. a \<le> b)
       \<and> free_frames q = free_frames p - {a} \<and> used_pages q = used_pages p + 1 \<and> pmm_inv q)"
proof (cases "free_frames p = {}")
  case True
  with pmm_alloc_none [OF assms] show ?thesis by simp
next
  case False
  then obtain a q where aq: "pmm_alloc p = Some (a, q)" "a \<in> free_frames p"
    "\<And>b. b \<in> free_frames p \<Longrightarrow> a \<le> b" "free_frames q = free_frames p - {a}"
    "pmm_inv q" "used_pages q = used_pages p + 1"
    by (rule pmm_alloc_some [OF assms]) blast
  moreover have "a \<noteq> 0" using free_framesD(2) [OF assms aq(2)] .
  ultimately show ?thesis by blast
qed

theorem pmm_alloc_first_fit_witness:
  "\<exists>a q. pmm_alloc boot_pmm = Some (a, q) \<and> a \<noteq> 0 \<and> a \<in> free_frames boot_pmm
     \<and> (\<forall>b \<in> free_frames boot_pmm. a \<le> b)
     \<and> free_frames q = free_frames boot_pmm - {a} \<and> pmm_inv q"
  using pmm_alloc_first_fit [OF boot_pmm(2)] boot_pmm_free by blast

text \<open>
  Allocating a frame and freeing it again gives back exactly the state before: the
  bitmap, the counter and the size.
\<close>

theorem pmm_alloc_free_roundtrip:
  assumes "pmm_inv p" and "pmm_alloc p = Some (a, q)" and "a \<noteq> 0"
  shows "pmm_free a q = Some p"
proof -
  have "free_frames p \<noteq> {}" using assms pmm_alloc_none by auto
  then obtain b r where "pmm_alloc p = Some (b, r)" "b \<in> free_frames p"
    "free_frames r = free_frames p - {b}" "pmm_inv r" "used_pages r = used_pages p + 1"
    "total_pages r = total_pages p"
    "\<And>m. m < 65536 \<Longrightarrow> page_used r m \<longleftrightarrow> m = unat b div 4096 \<or> page_used p m"
    by (rule pmm_alloc_some [OF assms(1)]) blast
  with assms(2) have al: "a \<in> free_frames p" "a \<notin> free_frames q" "pmm_inv q"
    "used_pages q = used_pages p + 1" "total_pages q = total_pages p"
    and set: "\<And>m. m < 65536 \<Longrightarrow> page_used q m \<longleftrightarrow> m = unat a div 4096 \<or> page_used p m"
    by simp_all
  have "frame_managed q a"
    using free_framesD(4) [OF assms(1) al(1)] frame_managed_total [OF al(5)] by simp
  then obtain r where r: "pmm_free a q = Some r" "pmm_inv r" "used_pages r = used_pages q - 1"
    "total_pages r = total_pages q"
    and clear: "\<And>m. m < 65536 \<Longrightarrow> page_used r m \<longleftrightarrow> m \<noteq> unat a div 4096 \<and> page_used q m"
    by (rule pmm_free_used [OF al(3) _ al(2)]) blast
  have "\<not> page_used p (unat a div 4096)"
    using al(1) by (simp add: free_frames_def frame_free_def)
  then have "page_used r m = page_used p m" if "m < 65536" for m
    using set [OF that] clear [OF that] by auto
  then have "bitmap r = bitmap p"
    using bitmap_eqI pmm_invD(1) [OF r(2)] pmm_invD(1) [OF assms(1)] by blast
  with r al have "r = p" by (simp add: pmm.equality)
  with r show ?thesis by simp
qed

theorem pmm_alloc_free_roundtrip_witness:
  "\<exists>a q. pmm_alloc boot_pmm = Some (a, q) \<and> a \<noteq> 0 \<and> pmm_free a q = Some boot_pmm"
proof -
  have ne: "free_frames boot_pmm \<noteq> {}" using boot_pmm_free by blast
  obtain a q where aq: "pmm_alloc boot_pmm = Some (a, q)" "a \<in> free_frames boot_pmm"
    by (rule pmm_alloc_some [OF boot_pmm(2) ne])
  then have "a \<noteq> 0" using free_framesD(2) [OF boot_pmm(2)] by blast
  with aq pmm_alloc_free_roundtrip [OF boot_pmm(2)] show ?thesis by blast
qed

text \<open>
  Freeing a frame the allocator manages always returns, makes exactly that frame free,
  and keeps the invariant; freeing it a second time changes nothing.
\<close>

theorem pmm_free_idempotent:
  assumes "pmm_inv p" and "frame_managed p a"
  shows "\<exists>q. pmm_free a p = Some q \<and> free_frames q = insert a (free_frames p) \<and> pmm_inv q
    \<and> pmm_free a q = Some q"
proof -
  obtain q where "pmm_free a p = Some q" "free_frames q = insert a (free_frames p)" "pmm_inv q"
    by (rule pmm.release_total [OF assms])
  then show ?thesis using pmm.release_again by blast
qed

theorem pmm_free_idempotent_witness:
  "\<exists>q. pmm_free 0x200000 boot_pmm = Some q
    \<and> free_frames q = insert 0x200000 (free_frames boot_pmm) \<and> pmm_inv q
    \<and> pmm_free 0x200000 q = Some q"
  using pmm_free_idempotent [OF boot_pmm(2) free_framesD(4) [OF boot_pmm(2) boot_pmm_free(2)]] .

end
