(* ===== verification/Vmm.thy ===== *)
theory Vmm
  imports Pmm
begin

text \<open>
  Paging, \<^verbatim>\<open>mm/vmm.c\<close>. A page directory or table is a 4 KB frame of 1024 words in physical
  memory, named by its physical address; the state is the word memory, the frame allocator
  and the registers the code loads. A page table is read and written at its physical
  address, as the code does: the kernel runs with the low memory identity mapped. The
  abstraction \<open>aspace\<close> is the address space that the MMU sees: the page-table entry of each
  virtual page, if present. The invariant \<open>dir_ok\<close> says that the tables of a directory are
  distinct frames in use. \<^verbatim>\<open>invlpg\<close> has no state here: the model has no TLB.
\<close>

section \<open>State and constants\<close>

record vm =
  pm :: pmm
  pmem :: "u32 \<Rightarrow> u32"
  kernel_dir :: u32
  current_dir :: u32
  cr3 :: u32
  paging_on :: bool

definition PAGE_PRESENT :: u32 where "PAGE_PRESENT = 0x001"
definition PAGE_WRITE :: u32 where "PAGE_WRITE = 0x002"
definition PAGE_USER :: u32 where "PAGE_USER = 0x004"
definition PAGE_COW :: u32 where "PAGE_COW = 0x200"

text \<open>\<^verbatim>\<open>t->entries[i]\<close>: a table through a NULL pointer is not a defined access.\<close>

definition entry_at :: "u32 \<Rightarrow> u32 \<Rightarrow> u32" where
  "entry_at t i = t + 4 * i"

definition get_entry :: "u32 \<Rightarrow> u32 \<Rightarrow> vm \<Rightarrow> u32 option" where
  "get_entry t i s = (if t = 0 then None else Some (pmem s (entry_at t i)))"

definition set_entry :: "u32 \<Rightarrow> u32 \<Rightarrow> u32 \<Rightarrow> vm \<Rightarrow> vm option" where
  "set_entry t i v s = (if t = 0 then None else Some (s\<lparr>pmem := (pmem s)(entry_at t i := v)\<rparr>))"

definition memset32 :: "u32 \<Rightarrow> u32 \<Rightarrow> nat \<Rightarrow> vm \<Rightarrow> vm option" where
  "memset32 dst val count s =
     (if dst = 0 then None
      else for_range 0 count (\<lambda>i s. Some (s\<lparr>pmem := (pmem s)(dst + 4 * of_nat i := val)\<rparr>)) s)"

definition pd_index :: "u32 \<Rightarrow> u32" where "pd_index virt = drop_bit 22 virt"
definition pt_index :: "u32 \<Rightarrow> u32" where "pt_index virt = drop_bit 12 virt AND 0x3FF"

definition present :: "u32 \<Rightarrow> bool" where
  "present e \<longleftrightarrow> e AND PAGE_PRESENT \<noteq> 0"

definition frame_alloc_vm :: "vm \<Rightarrow> (u32 \<times> vm) option" where
  "frame_alloc_vm s = do { (a, p) \<leftarrow> pmm_alloc (pm s); Some (a, s\<lparr>pm := p\<rparr>) }"

section \<open>Mapping, unmapping, lookup\<close>

text \<open>The page table of a directory entry, made and entered when it is not there.\<close>

definition table_for :: "u32 \<Rightarrow> u32 \<Rightarrow> u32 \<Rightarrow> vm \<Rightarrow> (u32 \<times> vm) option" where
  "table_for pd pd_idx flags s = do {
     e \<leftarrow> get_entry pd pd_idx s;
     if \<not> present e then do {
       (pt, s) \<leftarrow> frame_alloc_vm s;
       s \<leftarrow> memset32 pt 0 1024 s;
       s \<leftarrow> set_entry pd pd_idx (pt OR PAGE_PRESENT OR PAGE_WRITE OR (flags AND PAGE_USER)) s;
       Some (pt, s)
     } else Some (page_base e, s)
   }"

definition vmm_map :: "u32 \<Rightarrow> u32 \<Rightarrow> u32 \<Rightarrow> u32 \<Rightarrow> vm \<Rightarrow> vm option" where
  "vmm_map pd virt phys flags s =
     (let pd_idx = pd_index virt; pt_idx = pt_index virt in do {
        (pt, s) \<leftarrow> table_for pd pd_idx flags s;
        set_entry pt pt_idx (page_base phys OR PAGE_PRESENT OR flags) s
      })"

definition vmm_unmap :: "u32 \<Rightarrow> u32 \<Rightarrow> vm \<Rightarrow> vm option" where
  "vmm_unmap pd virt s =
     (let pd_idx = pd_index virt; pt_idx = pt_index virt in do {
        e \<leftarrow> get_entry pd pd_idx s;
        if \<not> present e then Some s
        else set_entry (page_base e) pt_idx 0 s
      })"

definition vmm_get_physical :: "u32 \<Rightarrow> u32 \<Rightarrow> vm \<Rightarrow> u32 option" where
  "vmm_get_physical pd virt s =
     (let pd_idx = pd_index virt; pt_idx = pt_index virt in do {
        e \<leftarrow> get_entry pd pd_idx s;
        if \<not> present e then Some 0
        else do { p \<leftarrow> get_entry (page_base e) pt_idx s; Some (page_base p + (virt AND 0xFFF)) }
      })"

section \<open>Directories\<close>

definition vmm_switch :: "u32 \<Rightarrow> vm \<Rightarrow> vm" where
  "vmm_switch pd s = s\<lparr>current_dir := pd, cr3 := pd\<rparr>"

definition vmm_init :: "vm \<Rightarrow> vm option" where
  "vmm_init s = do {
     (d, s) \<leftarrow> frame_alloc_vm s;
     let s = s\<lparr>kernel_dir := d\<rparr>;
     s \<leftarrow> memset32 (kernel_dir s) 0 1024 s;
     s \<leftarrow> for_range 0 1024 (\<lambda>k s. let addr = of_nat k * PAGE_SIZE in
            vmm_map (kernel_dir s) addr addr (PAGE_PRESENT OR PAGE_WRITE) s) s;
     let s = vmm_switch (kernel_dir s) s;
     Some (s\<lparr>paging_on := True\<rparr>)
   }"

definition vmm_create_directory :: "vm \<Rightarrow> (u32 \<times> vm) option" where
  "vmm_create_directory s = do {
     (pd, s) \<leftarrow> frame_alloc_vm s;
     s \<leftarrow> memset32 pd 0 1024 s;
     s \<leftarrow> for_range 768 1024 (\<lambda>i s. do {
            e \<leftarrow> get_entry (kernel_dir s) (of_nat i) s;
            set_entry pd (of_nat i) e s }) s;
     Some (pd, s)
   }"

definition clone_pte :: "u32 \<Rightarrow> u32 \<Rightarrow> nat \<Rightarrow> vm \<Rightarrow> vm option" where
  "clone_pte src_pt dst_pt j s = do {
     e \<leftarrow> get_entry src_pt (of_nat j) s;
     if \<not> present e then Some s
     else do {
       s \<leftarrow> set_entry src_pt (of_nat j) (e AND NOT PAGE_WRITE) s;
       e \<leftarrow> get_entry src_pt (of_nat j) s;
       s \<leftarrow> set_entry src_pt (of_nat j) (e OR PAGE_COW) s;
       e \<leftarrow> get_entry src_pt (of_nat j) s;
       set_entry dst_pt (of_nat j) e s
     }
   }"

definition clone_pde :: "u32 \<Rightarrow> u32 \<Rightarrow> nat \<Rightarrow> vm \<Rightarrow> vm option" where
  "clone_pde src dst i s = do {
     e \<leftarrow> get_entry src (of_nat i) s;
     if \<not> present e then Some s
     else do {
       let src_pt = page_base e;
       (dst_pt, s) \<leftarrow> frame_alloc_vm s;
       s \<leftarrow> memset32 dst_pt 0 1024 s;
       s \<leftarrow> for_range 0 1024 (clone_pte src_pt dst_pt) s;
       e \<leftarrow> get_entry src (of_nat i) s;
       set_entry dst (of_nat i) (dst_pt OR (e AND 0xFFF)) s
     }
   }"

definition vmm_clone :: "u32 \<Rightarrow> vm \<Rightarrow> (u32 \<times> vm) option" where
  "vmm_clone src s = do {
     (dst, s) \<leftarrow> vmm_create_directory s;
     s \<leftarrow> for_range 0 768 (clone_pde src dst) s;
     Some (dst, s)
   }"

definition frame_free_vm :: "u32 \<Rightarrow> vm \<Rightarrow> vm option" where
  "frame_free_vm a s = do { p \<leftarrow> pmm_free a (pm s); Some (s\<lparr>pm := p\<rparr>) }"

definition destroy_table :: "u32 \<Rightarrow> vm \<Rightarrow> vm option" where
  "destroy_table pt s = for_range 0 1024 (\<lambda>j s. do {
     e \<leftarrow> get_entry pt (of_nat j) s;
     if present e then do { e \<leftarrow> get_entry pt (of_nat j) s; frame_free_vm (page_base e) s }
     else Some s }) s"

definition vmm_destroy_directory :: "u32 \<Rightarrow> vm \<Rightarrow> vm option" where
  "vmm_destroy_directory pd s = do {
     s \<leftarrow> for_range 0 768 (\<lambda>i s. do {
            e \<leftarrow> get_entry pd (of_nat i) s;
            if \<not> present e then Some s
            else do {
              let pt = page_base e;
              s \<leftarrow> destroy_table pt s;
              frame_free_vm pt s
            } }) s;
     frame_free_vm pd s
   }"

definition vmm_get_kernel_directory :: "vm \<Rightarrow> u32" where
  "vmm_get_kernel_directory s = kernel_dir s"


section \<open>Entries and frames\<close>

lemmas flag_defs = PAGE_PRESENT_def PAGE_WRITE_def PAGE_USER_def PAGE_COW_def

lemma index_bounds [simp]: "pd_index v < 1024" "pt_index v < 1024"
proof -
  have "unat v div 4194304 < 1024"
    using unat_u32_lt [of v] by (simp add: div_less_iff_less_mult del: unat_u32_lt)
  then show "pd_index v < 1024" by (simp add: pd_index_def word_less_nat_alt word_nat)
  have "drop_bit 12 v AND 0x3FF \<le> 0x3FF" by (rule word_and_le1)
  then show "pt_index v < 1024" unfolding pt_index_def by (rule order_le_less_trans) simp
qed

lemma unat_entry_at:
  assumes "page_aligned t" and "i < 1024"
  shows "unat (entry_at t i) = unat t + 4 * unat i"
proof -
  have i: "unat i < 1024" using assms(2) by (simp add: word_less_nat_alt)
  obtain k where "unat t = 4096 * k" "k < 1048576"
    using assms(1) by (rule page_alignedE)
  then have "unat t + 4096 \<le> 4294967296" by simp
  with i show ?thesis by (simp add: entry_at_def word_nat)
qed

lemma entry_at_eq_iff [simp]:
  assumes "page_aligned t" "page_aligned t'" and "i < 1024" "i' < 1024"
  shows "entry_at t i = entry_at t' i' \<longleftrightarrow> t = t' \<and> i = i'"
proof -
  have "unat i < 1024" "unat i' < 1024" using assms(3,4) by (simp_all add: word_less_nat_alt)
  moreover obtain k where "unat t = 4096 * k" using assms(1) by (rule page_alignedE)
  moreover obtain k' where "unat t' = 4096 * k'" using assms(2) by (rule page_alignedE)
  ultimately have "unat t + 4 * unat i = unat t' + 4 * unat i' \<longleftrightarrow> unat t = unat t' \<and> unat i = unat i'"
    using page_offset_unique [of k "4 * unat i" k' "4 * unat i'"] by auto
  then show ?thesis using assms by (simp add: u32_eq_iff_unat unat_entry_at)
qed

lemma get_entry_nz [simp]: "t \<noteq> 0 \<Longrightarrow> get_entry t i s = Some (pmem s (entry_at t i))"
  by (simp add: get_entry_def)

lemma set_entry_nz [simp]:
  "t \<noteq> 0 \<Longrightarrow> set_entry t i v s = Some (s\<lparr>pmem := (pmem s)(entry_at t i := v)\<rparr>)"
  by (simp add: set_entry_def)

text \<open>The loop that fills a table with one value.\<close>

definition fill_upto :: "u32 \<Rightarrow> u32 \<Rightarrow> nat \<Rightarrow> (u32 \<Rightarrow> u32) \<Rightarrow> u32 \<Rightarrow> u32" where
  "fill_upto t v n m a = (if \<exists>i<n. a = t + 4 * of_nat i then v else m a)"

lemma memset32_fill:
  assumes "t \<noteq> 0"
  shows "memset32 t v n s = Some (s\<lparr>pmem := fill_upto t v n (pmem s)\<rparr>)"
proof -
  have "\<exists>s'. for_range 0 n (\<lambda>i s. Some (s\<lparr>pmem := (pmem s)(t + 4 * of_nat i := v)\<rparr>)) s = Some s'
      \<and> s' = s\<lparr>pmem := fill_upto t v n (pmem s)\<rparr>"
  proof (rule for_range_inv [where P = "\<lambda>k s'. s' = s\<lparr>pmem := fill_upto t v k (pmem s)\<rparr>"])
    show "s = s\<lparr>pmem := fill_upto t v 0 (pmem s)\<rparr>"
      by (simp add: fill_upto_def [abs_def])
  next
    fix k s' assume "s' = s\<lparr>pmem := fill_upto t v k (pmem s)\<rparr>"
    moreover have "(fill_upto t v k (pmem s))(t + 4 * of_nat k := v) = fill_upto t v (Suc k) (pmem s)"
      by (auto simp: fill_upto_def fun_eq_iff less_Suc_eq)
    ultimately show "\<exists>t'. Some (s'\<lparr>pmem := (pmem s')(t + 4 * of_nat k := v)\<rparr>) = Some t'
        \<and> t' = s\<lparr>pmem := fill_upto t v (Suc k) (pmem s)\<rparr>" by simp
  qed simp
  with assms show ?thesis by (simp add: memset32_def)
qed

definition fill_table :: "u32 \<Rightarrow> (u32 \<Rightarrow> u32) \<Rightarrow> u32 \<Rightarrow> u32" where
  "fill_table t m = fill_upto t 0 1024 m"

lemma memset32_table:
  "t \<noteq> 0 \<Longrightarrow> memset32 t 0 1024 s = Some (s\<lparr>pmem := fill_table t (pmem s)\<rparr>)"
  by (simp add: memset32_fill fill_table_def)

lemma fill_table_at [simp]:
  assumes "page_aligned t" "page_aligned t'" and "i < 1024"
  shows "fill_table t m (entry_at t' i) = (if t' = t then 0 else m (entry_at t' i))"
proof -
  have of_nat_lt: "(of_nat k :: u32) < 1024" if "k < 1024" for k
    using that by (simp add: word_less_nat_alt word_nat)
  have "(\<exists>k<1024. entry_at t' i = t + 4 * of_nat k) \<longleftrightarrow> t' = t"
  proof
    assume "\<exists>k<1024. entry_at t' i = t + 4 * of_nat k"
    then obtain k where "k < 1024" "entry_at t' i = entry_at t (of_nat k)"
      by (auto simp: entry_at_def)
    with assms of_nat_lt show "t' = t" by simp
  next
    assume "t' = t"
    moreover have "unat i < 1024" using assms(3) by (simp add: word_less_nat_alt)
    ultimately show "\<exists>k<1024. entry_at t' i = t + 4 * of_nat k"
      by (intro exI [of _ "unat i"]) (simp add: entry_at_def)
  qed
  then show ?thesis by (simp add: fill_table_def fill_upto_def)
qed

section \<open>The address space and the invariant of a directory\<close>

abbreviation pde :: "vm \<Rightarrow> u32 \<Rightarrow> u32 \<Rightarrow> u32" where
  "pde s pd i \<equiv> pmem s (entry_at pd i)"

text \<open>What the MMU finds for a virtual address: the page-table entry, when it is present.\<close>

definition aspace :: "vm \<Rightarrow> u32 \<Rightarrow> u32 \<Rightarrow> u32 option" where
  "aspace s pd v =
     (let e = pde s pd (pd_index v); p = pmem s (entry_at (page_base e) (pt_index v))
      in if present e \<and> present p then Some p else None)"

definition same_page :: "u32 \<Rightarrow> u32 \<Rightarrow> bool" where
  "same_page v w \<longleftrightarrow> drop_bit 12 v = drop_bit 12 w"

definition vm_ok :: "vm \<Rightarrow> bool" where
  "vm_ok s \<longleftrightarrow> pmm_inv (pm s)"

definition in_use :: "vm \<Rightarrow> u32 \<Rightarrow> bool" where
  "in_use s a \<longleftrightarrow> page_aligned a \<and> a \<noteq> 0 \<and> a \<notin> free_frames (pm s)"

definition dir_ok :: "vm \<Rightarrow> u32 \<Rightarrow> bool" where
  "dir_ok s pd \<longleftrightarrow> in_use s pd
     \<and> (\<forall>i<1024. present (pde s pd i) \<longrightarrow>
          in_use s (page_base (pde s pd i)) \<and> page_base (pde s pd i) \<noteq> pd)
     \<and> (\<forall>i<1024. \<forall>j<1024. present (pde s pd i) \<longrightarrow> present (pde s pd j) \<longrightarrow>
          page_base (pde s pd i) = page_base (pde s pd j) \<longrightarrow> i = j)"

lemma same_page_index: "same_page v w \<longleftrightarrow> pd_index v = pd_index w \<and> pt_index v = pt_index w"
proof -
  have pd: "pd_index x = drop_bit 10 (drop_bit 12 x)" for x :: u32
    by (simp add: pd_index_def)
  have pt: "pt_index x = take_bit 10 (drop_bit 12 x)" for x :: u32
    by (simp add: pt_index_def take_bit_eq_mask mask_eq_exp_minus_1)
  have split: "y = push_bit 10 (drop_bit 10 y) OR take_bit 10 y" for y :: u32
    by (rule bit_eqI) (auto simp: bit_simps)
  show ?thesis unfolding same_page_def pd pt using split by metis
qed

lemma in_useD: "in_use s a \<Longrightarrow> page_aligned a" "in_use s a \<Longrightarrow> a \<noteq> 0"
  by (simp_all add: in_use_def)

lemma dir_okD:
  assumes "dir_ok s pd"
  shows "page_aligned pd" "pd \<noteq> 0" "pd \<notin> free_frames (pm s)"
    and "\<And>i. i < 1024 \<Longrightarrow> present (pde s pd i) \<Longrightarrow> page_base (pde s pd i) \<noteq> 0"
    and "\<And>i. i < 1024 \<Longrightarrow> present (pde s pd i) \<Longrightarrow> page_base (pde s pd i) \<notin> free_frames (pm s)"
    and "\<And>i. i < 1024 \<Longrightarrow> present (pde s pd i) \<Longrightarrow> page_base (pde s pd i) \<noteq> pd"
    and "\<And>i j. i < 1024 \<Longrightarrow> j < 1024 \<Longrightarrow> present (pde s pd i) \<Longrightarrow> present (pde s pd j) \<Longrightarrow>
      page_base (pde s pd i) = page_base (pde s pd j) \<longleftrightarrow> i = j"
  using assms by (auto simp: dir_ok_def in_use_def)

text \<open>Both depend on the memory and the allocator only.\<close>

lemma aspace_cong: "pmem s' = pmem s \<Longrightarrow> aspace s' pd = aspace s pd"
  by (simp add: aspace_def fun_eq_iff)

lemma dir_ok_same: "pmem s' = pmem s \<Longrightarrow> pm s' = pm s \<Longrightarrow> dir_ok s' pd = dir_ok s pd"
  by (simp add: dir_ok_def in_use_def)

text \<open>
  The frame rule of a directory: what changes neither its frame nor its tables, and frees
  no frame, changes neither the invariant nor the address space.
\<close>

lemma dir_ok_cong:
  assumes "dir_ok s pd" and "free_frames (pm s') \<subseteq> free_frames (pm s)"
    and pds: "\<And>i. i < 1024 \<Longrightarrow> pde s' pd i = pde s pd i"
  shows "dir_ok s' pd"
  using assms(1,2) pds unfolding dir_ok_def in_use_def by (auto simp: subset_iff)

lemma dir_frame:
  assumes "dir_ok s pd" and "free_frames (pm s') \<subseteq> free_frames (pm s)"
    and pds: "\<And>i. i < 1024 \<Longrightarrow> pde s' pd i = pde s pd i"
    and pts: "\<And>i j. i < 1024 \<Longrightarrow> j < 1024 \<Longrightarrow> present (pde s pd i) \<Longrightarrow>
      pmem s' (entry_at (page_base (pde s pd i)) j) = pmem s (entry_at (page_base (pde s pd i)) j)"
  shows "dir_ok s' pd" and "aspace s' pd = aspace s pd"
proof -
  show "dir_ok s' pd" by (rule dir_ok_cong [OF assms(1,2) pds])
  show "aspace s' pd = aspace s pd"
    using pds pts by (auto simp: aspace_def Let_def fun_eq_iff)
qed


section \<open>Allocating a table\<close>

lemma frame_alloc_vm_none:
  assumes "vm_ok s" and "free_frames (pm s) = {}"
  shows "frame_alloc_vm s = Some (0, s)"
  using assms pmm_alloc_none by (simp add: frame_alloc_vm_def vm_ok_def)

lemma frame_alloc_vm_some:
  assumes "vm_ok s" and "free_frames (pm s) \<noteq> {}"
  obtains a s' where "frame_alloc_vm s = Some (a, s')" "a \<in> free_frames (pm s)" "in_use s' a"
    "free_frames (pm s') = free_frames (pm s) - {a}" "vm_ok s'" "pmem s' = pmem s"
    "kernel_dir s' = kernel_dir s" "total_pages (pm s') = total_pages (pm s)"
proof -
  from assms obtain a p where ap: "pmm_alloc (pm s) = Some (a, p)" "a \<in> free_frames (pm s)"
    "free_frames p = free_frames (pm s) - {a}" "pmm_inv p" "total_pages p = total_pages (pm s)"
    unfolding vm_ok_def by (rule pmm_alloc_some) blast
  moreover have "page_aligned a" "a \<noteq> 0"
    using assms(1) ap(2) free_framesD by (auto simp: vm_ok_def)
  ultimately show thesis
    by (intro that [of a "s\<lparr>pm := p\<rparr>"]) (simp_all add: frame_alloc_vm_def vm_ok_def in_use_def)
qed

lemma dir_ok_fresh:
  assumes "dir_ok s pd" and "a \<in> free_frames (pm s)"
  shows "a \<noteq> pd" and "i < 1024 \<Longrightarrow> present (pde s pd i) \<Longrightarrow> page_base (pde s pd i) \<noteq> a"
  using assms by (auto dest: dir_okD)

text \<open>
  The bits of an entry: the low bits hold flags, the high bits the frame.
\<close>

lemma present_flags [simp]: "present (b OR PAGE_PRESENT OR c)"
proof -
  have "bit ((b OR PAGE_PRESENT OR c) AND PAGE_PRESENT) 0"
    by (simp add: PAGE_PRESENT_def bit_simps)
  then show ?thesis unfolding present_def by (metis bit_0_eq zero_neq_one bot_apply bot_bool_def)
qed

lemma not_present_0 [simp]: "\<not> present 0"
  by (simp add: present_def)

lemma page_base_entry:
  assumes "page_aligned b" and "c AND 0xFFF = c"
  shows "page_base (b OR c) = b"
proof -
  have b: "b AND NOT 0xFFF = b" using assms(1) by (simp only: page_aligned_iff page_base_def)
  have "(b OR c) AND NOT 0xFFF = (b AND NOT 0xFFF) OR (c AND NOT 0xFFF)"
    by (rule bit.conj_disj_distrib2)
  also have "c AND NOT 0xFFF = (c AND 0xFFF) AND NOT 0xFFF" by (simp only: assms(2))
  also have "\<dots> = 0" by (simp add: and.assoc)
  finally show ?thesis by (simp only: b page_base_def bit.disj_zero_right)
qed

lemma low_flags:
  "x AND 0xFFF = x \<Longrightarrow> y AND 0xFFF = y \<Longrightarrow> (x OR y) AND 0xFFF = (x OR y :: u32)"
  "x AND 0xFFF = x \<Longrightarrow> (z AND x) AND 0xFFF = (z AND x :: u32)"
  by (metis bit.conj_disj_distrib2) (metis and.assoc)

lemma page_base_pde [simp]:
  assumes "page_aligned a"
  shows "page_base (a OR PAGE_PRESENT OR PAGE_WRITE OR (flags AND PAGE_USER)) = a"
  using assms by (intro page_base_entry low_flags) (simp_all add: flag_defs)

text \<open>
  \<open>table_for\<close> makes the directory entry present without changing the address space; it
  fails (a table at NULL) exactly when it needs a frame and there is none.
\<close>

lemma table_for_none:
  assumes "vm_ok s" and "pd \<noteq> 0" and "\<not> present (pde s pd i)" and "free_frames (pm s) = {}"
  shows "table_for pd i flags s = None"
  using assms frame_alloc_vm_none [OF assms(1,4)] by (simp add: table_for_def memset32_def)

lemma table_for_some:
  assumes ok: "vm_ok s" "dir_ok s pd" and i: "i < 1024"
    and room: "present (pde s pd i) \<or> free_frames (pm s) \<noteq> {}"
  obtains t s' where "table_for pd i flags s = Some (t, s')" "vm_ok s'" "dir_ok s' pd"
    "present (pde s' pd i)" "page_base (pde s' pd i) = t" "aspace s' pd = aspace s pd"
    "free_frames (pm s') \<subseteq> free_frames (pm s)" "kernel_dir s' = kernel_dir s"
    "\<And>b j. page_aligned b \<Longrightarrow> b \<noteq> pd \<Longrightarrow> b \<notin> free_frames (pm s) \<Longrightarrow> j < 1024 \<Longrightarrow>
       pmem s' (entry_at b j) = pmem s (entry_at b j)"
    "\<And>j. j < 1024 \<Longrightarrow> j \<noteq> i \<Longrightarrow> pde s' pd j = pde s pd j"
    "free_frames (pm s) \<subseteq> insert t (free_frames (pm s'))"
    "present (pde s pd i) \<Longrightarrow> s' = s" "\<not> present (pde s pd i) \<Longrightarrow> t \<in> free_frames (pm s)"
proof (cases "present (pde s pd i)")
  case True
  with ok dir_okD(2) [OF ok(2)] show thesis
    by (intro that [of "page_base (pde s pd i)" s]) (auto simp: table_for_def)
next
  case False
  note D = dir_okD [OF ok(2)]
  from room False have "free_frames (pm s) \<noteq> {}" by simp
  with ok(1) obtain a s1 where a: "frame_alloc_vm s = Some (a, s1)" "a \<in> free_frames (pm s)"
    "in_use s1 a" "free_frames (pm s1) = free_frames (pm s) - {a}" "vm_ok s1" "pmem s1 = pmem s"
    "kernel_dir s1 = kernel_dir s"
    by (rule frame_alloc_vm_some) blast
  let ?e = "a OR PAGE_PRESENT OR PAGE_WRITE OR (flags AND PAGE_USER)"
  define s2 where "s2 = s1\<lparr>pmem := (fill_table a (pmem s))(entry_at pd i := ?e)\<rparr>"
  have s2 [simp]: "pm s2 = pm s1" "kernel_dir s2 = kernel_dir s1" by (simp_all add: s2_def)
  note fresh = dir_ok_fresh [OF ok(2) a(2)]
  have al: "page_aligned a" "a \<noteq> 0" using a(3) by (simp_all add: in_use_def)
  have run: "table_for pd i flags s = Some (a, s2)"
    using False a al D(2) by (simp add: table_for_def memset32_table s2_def)
  have pde: "pde s2 pd j = (if j = i then ?e else pde s pd j)" if "j < 1024" for j
    using that i al D(1) fresh(1) by (simp add: s2_def)
  have other: "pmem s2 (entry_at b j) = (if b = a then 0 else pmem s (entry_at b j))"
    if "page_aligned b" "b \<noteq> pd" "j < 1024" for b j
    using that i al D(1) by (simp add: s2_def)
  have pe: "present ?e" "page_base ?e = a" using al by (simp_all add: present_flags)
  have dok: "dir_ok s2 pd"
    unfolding dir_ok_def
  proof (intro conjI allI impI)
    show "in_use s2 pd" using D(1-3) a(4) by (simp add: in_use_def)
    show "in_use s2 (page_base (pde s2 pd j))" if "j < 1024" "present (pde s2 pd j)" for j
    proof (cases "j = i")
      case True
      with that pe a(3) show ?thesis by (simp add: pde in_use_def)
    next
      case False
      with that D(4,5) [of j] a(4) show ?thesis by (simp add: pde in_use_def)
    qed
    show "page_base (pde s2 pd j) \<noteq> pd" if "j < 1024" "present (pde s2 pd j)" for j
      using that D(6) [of j] fresh(1) pe by (cases "j = i") (simp_all add: pde)
    show "j = k" if "j < 1024" "k < 1024" "present (pde s2 pd j)" "present (pde s2 pd k)"
      "page_base (pde s2 pd j) = page_base (pde s2 pd k)" for j k
      using that D(7) [of j k] fresh(2) [of j] fresh(2) [of k] pe
      by (cases "j = i"; cases "k = i") (simp_all add: pde)
  qed
  have asp: "aspace s2 pd = aspace s pd"
  proof
    fix v show "aspace s2 pd v = aspace s pd v"
    proof (cases "pd_index v = i")
      case True
      with False pe al fresh(1) i show ?thesis by (simp add: aspace_def Let_def pde other)
    next
      case ne: False
      with fresh(2) [of "pd_index v"] D(6) [of "pd_index v"] show ?thesis
        by (cases "present (pde s pd (pd_index v))") (simp_all add: aspace_def Let_def pde other)
    qed
  qed
  have vok: "vm_ok s2" using a(5) by (simp add: vm_ok_def)
  show thesis
  proof (rule that [OF run vok dok _ _ asp])
    show "present (pde s2 pd i)" "page_base (pde s2 pd i) = a" using pde [OF i] pe by simp_all
    show "free_frames (pm s2) \<subseteq> free_frames (pm s)" "kernel_dir s2 = kernel_dir s"
      "free_frames (pm s) \<subseteq> insert a (free_frames (pm s2))"
      using a by auto
    show "pmem s2 (entry_at b j) = pmem s (entry_at b j)"
      if "page_aligned b" "b \<noteq> pd" "b \<notin> free_frames (pm s)" "j < 1024" for b j
      using that a(2) other [of b j] by auto
    show "pde s2 pd j = pde s pd j" if "j < 1024" "j \<noteq> i" for j using pde that by simp
    show "s2 = s" if "present (pde s pd i)" using that False by simp
    show "a \<in> free_frames (pm s)" by (rule a(2))
  qed
qed


section \<open>Mapping and unmapping a page\<close>

lemma write_pte:
  assumes ok: "dir_ok s pd" and pr: "present (pde s pd (pd_index v))"
    and s': "s' = s\<lparr>pmem := (pmem s)(entry_at (page_base (pde s pd (pd_index v))) (pt_index v) := e)\<rparr>"
  shows "dir_ok s' pd"
    and "aspace s' pd = (\<lambda>w. if same_page w v then if present e then Some e else None
                            else aspace s pd w)"
    and "\<And>i. i < 1024 \<Longrightarrow> pde s' pd i = pde s pd i"
proof -
  let ?t = "page_base (pde s pd (pd_index v))"
  note D = dir_okD [OF ok]
  have ne: "?t \<noteq> pd" using D(6) pr by simp
  show pdes: "pde s' pd i = pde s pd i" if "i < 1024" for i
    using that D(1) ne by (simp add: s')
  show "dir_ok s' pd"
    using ok pdes unfolding dir_ok_def in_use_def s' by simp
  show "aspace s' pd = (\<lambda>w. if same_page w v then if present e then Some e else None
                          else aspace s pd w)"
  proof
    fix w
    have tw: "page_base (pde s pd (pd_index w)) = ?t \<longleftrightarrow> pd_index w = pd_index v"
      if "present (pde s pd (pd_index w))" using D(7) that pr by simp
    have pt: "pmem s' (entry_at (page_base (pde s pd (pd_index w))) (pt_index w)) =
        (if same_page w v then e
         else pmem s (entry_at (page_base (pde s pd (pd_index w))) (pt_index w)))"
      if "present (pde s pd (pd_index w))"
      using tw [OF that] by (simp add: s' same_page_index)
    show "aspace s' pd w = (if same_page w v then if present e then Some e else None
                          else aspace s pd w)"
    proof (cases "present (pde s pd (pd_index w))")
      case True
      from pt [OF this] show ?thesis by (simp add: aspace_def Let_def pdes True)
    next
      case False
      then have "\<not> same_page w v" using pr by (auto simp: same_page_index)
      with False show ?thesis by (simp add: aspace_def Let_def pdes)
    qed
  qed
qed

definition pte_for :: "u32 \<Rightarrow> u32 \<Rightarrow> u32" where
  "pte_for phys flags = page_base phys OR PAGE_PRESENT OR flags"

lemma present_pte_for [simp]: "present (pte_for phys flags)"
  by (simp add: pte_for_def)

lemma page_base_pte_for [simp]:
  "flags AND 0xFFF = flags \<Longrightarrow> page_base (pte_for phys flags) = page_base phys"
  unfolding pte_for_def by (intro page_base_entry low_flags) (simp_all add: flag_defs)

lemma vmm_map_none:
  assumes "vm_ok s" and "pd \<noteq> 0" and "\<not> present (pde s pd (pd_index v))"
    and "free_frames (pm s) = {}"
  shows "vmm_map pd v phys flags s = None"
  using table_for_none [OF assms] by (simp add: vmm_map_def)

lemma vmm_map_some:
  assumes ok: "vm_ok s" "dir_ok s pd"
    and room: "present (pde s pd (pd_index v)) \<or> free_frames (pm s) \<noteq> {}"
  obtains s' where "vmm_map pd v phys flags s = Some s'" "vm_ok s'" "dir_ok s' pd"
    "aspace s' pd = (\<lambda>w. if same_page w v then Some (pte_for phys flags) else aspace s pd w)"
    "present (pde s' pd (pd_index v))" "kernel_dir s' = kernel_dir s"
    "\<And>j. j < 1024 \<Longrightarrow> j \<noteq> pd_index v \<Longrightarrow> pde s' pd j = pde s pd j"
    "\<exists>t. free_frames (pm s) \<subseteq> insert t (free_frames (pm s'))"
    "free_frames (pm s') \<subseteq> free_frames (pm s)"
    "present (pde s pd (pd_index v)) \<Longrightarrow> pm s' = pm s"
    "page_base (pde s' pd (pd_index v)) = page_base (pde s pd (pd_index v))
      \<or> page_base (pde s' pd (pd_index v)) \<in> free_frames (pm s)"
proof -
  obtain t s1 where t: "table_for pd (pd_index v) flags s = Some (t, s1)" "vm_ok s1" "dir_ok s1 pd"
    "present (pde s1 pd (pd_index v))" "page_base (pde s1 pd (pd_index v)) = t"
    "aspace s1 pd = aspace s pd" "free_frames (pm s1) \<subseteq> free_frames (pm s)"
    "kernel_dir s1 = kernel_dir s"
    "\<And>j. j < 1024 \<Longrightarrow> j \<noteq> pd_index v \<Longrightarrow> pde s1 pd j = pde s pd j"
    "free_frames (pm s) \<subseteq> insert t (free_frames (pm s1))"
    "present (pde s pd (pd_index v)) \<Longrightarrow> s1 = s"
    "\<not> present (pde s pd (pd_index v)) \<Longrightarrow> t \<in> free_frames (pm s)"
    by (rule table_for_some [OF ok index_bounds(1) room]) blast
  define s2 where "s2 = s1\<lparr>pmem := (pmem s1)(entry_at t (pt_index v) := pte_for phys flags)\<rparr>"
  have s2': "s2 = s1\<lparr>pmem := (pmem s1)(entry_at (page_base (pde s1 pd (pd_index v))) (pt_index v)
      := pte_for phys flags)\<rparr>" by (simp add: s2_def t(5))
  note W = write_pte [OF t(3,4) s2']
  have "t \<noteq> 0" using dir_okD(4) [OF t(3) _ t(4)] t(5) by simp
  then have run: "vmm_map pd v phys flags s = Some s2"
    by (simp add: vmm_map_def t(1) s2_def pte_for_def)
  have pm2: "pm s2 = pm s1" "kernel_dir s2 = kernel_dir s1" by (simp_all add: s2_def)
  show thesis
  proof (rule that [OF run _ W(1)])
    show "vm_ok s2" using t(2) by (simp add: vm_ok_def pm2)
    show "aspace s2 pd = (\<lambda>w. if same_page w v then Some (pte_for phys flags) else aspace s pd w)"
      unfolding W(2) t(6) by (simp add: fun_eq_iff)
    show "present (pde s2 pd (pd_index v))" using W(3) t(4) by simp
    show "pde s2 pd j = pde s pd j" if "j < 1024" "j \<noteq> pd_index v" for j
      using W(3) t(9) that by simp
    show "\<exists>t. free_frames (pm s) \<subseteq> insert t (free_frames (pm s2))" using t(10) pm2 by auto
    show "pm s2 = pm s" if "present (pde s pd (pd_index v))" using t(11) that pm2 by simp
    have "pde s2 pd (pd_index v) = pde s1 pd (pd_index v)" using W(3) by simp
    then show "page_base (pde s2 pd (pd_index v)) = page_base (pde s pd (pd_index v))
        \<or> page_base (pde s2 pd (pd_index v)) \<in> free_frames (pm s)"
      using t(5,11,12) by (cases "present (pde s pd (pd_index v))") auto
  qed (use t pm2 in simp_all)
qed

lemma vmm_unmap_some:
  assumes ok: "dir_ok s pd"
  obtains s' where "vmm_unmap pd v s = Some s'" "dir_ok s' pd" "pm s' = pm s"
    "aspace s' pd = (\<lambda>w. if same_page w v then None else aspace s pd w)"
    "\<And>i. i < 1024 \<Longrightarrow> pde s' pd i = pde s pd i"
    "present (pde s pd (pd_index v)) \<Longrightarrow>
      pmem s' (entry_at (page_base (pde s pd (pd_index v))) (pt_index v)) = 0"
proof (cases "present (pde s pd (pd_index v))")
  case True
  note D = dir_okD [OF ok]
  define s' where "s' = s\<lparr>pmem := (pmem s)(entry_at (page_base (pde s pd (pd_index v))) (pt_index v) := 0)\<rparr>"
  have "vmm_unmap pd v s = Some s'"
    using True D(2) D(4) [OF index_bounds(1) True] by (simp add: vmm_unmap_def s'_def)
  moreover have "pm s' = pm s" by (simp add: s'_def)
  moreover have "aspace s' pd = (\<lambda>w. if same_page w v then None else aspace s pd w)"
    using write_pte(2) [OF ok True s'_def] by simp
  moreover have "pmem s' (entry_at (page_base (pde s pd (pd_index v))) (pt_index v)) = 0"
    by (simp add: s'_def)
  ultimately show thesis
    using that write_pte(1,3) [OF ok True s'_def] by blast
next
  case False
  have "aspace s pd w = None" if "same_page w v" for w
    using False that by (simp add: aspace_def same_page_index)
  with False ok dir_okD(2) [OF ok] show thesis
    by (intro that [of s]) (auto simp: vmm_unmap_def fun_eq_iff)
qed

lemma vmm_get_physical_aspace:
  assumes "dir_ok s pd" and "aspace s pd v = Some e"
  shows "vmm_get_physical pd v s = Some (page_base e + (v AND 0xFFF))"
  using assms dir_okD(2,4) [OF assms(1)]
  by (auto simp: vmm_get_physical_def aspace_def Let_def split: if_splits)

lemma vmm_get_physical_total:
  assumes "dir_ok s pd"
  shows "vmm_get_physical pd v s =
    (if present (pde s pd (pd_index v))
     then Some (page_base (pmem s (entry_at (page_base (pde s pd (pd_index v))) (pt_index v)))
                + (v AND 0xFFF))
     else Some 0)"
  using assms dir_okD(2,4) [OF assms(1)] by (simp add: vmm_get_physical_def)

section \<open>A new directory\<close>

definition zero_dir :: "vm \<Rightarrow> u32 \<Rightarrow> bool" where
  "zero_dir s pd \<longleftrightarrow> in_use s pd \<and> (\<forall>i<1024. pde s pd i = 0)"

lemma zero_dir_ok: "zero_dir s pd \<Longrightarrow> dir_ok s pd"
  by (simp add: zero_dir_def dir_ok_def)

lemma zero_dir_aspace: "zero_dir s pd \<Longrightarrow> aspace s pd v = None"
  by (simp add: zero_dir_def aspace_def)

lemma new_table:
  assumes "vm_ok s" and "free_frames (pm s) \<noteq> {}"
  obtains a s' where "do { (a, s) \<leftarrow> frame_alloc_vm s; s \<leftarrow> memset32 a 0 1024 s; Some (a, s) } = Some (a, s')"
    "frame_alloc_vm s = Some (a, s'\<lparr>pmem := pmem s\<rparr>)"
    "memset32 a 0 1024 (s'\<lparr>pmem := pmem s\<rparr>) = Some s'"
    "a \<in> free_frames (pm s)" "zero_dir s' a" "vm_ok s'"
    "free_frames (pm s') = free_frames (pm s) - {a}" "kernel_dir s' = kernel_dir s"
    "\<And>b j. page_aligned b \<Longrightarrow> b \<noteq> a \<Longrightarrow> j < 1024 \<Longrightarrow> pmem s' (entry_at b j) = pmem s (entry_at b j)"
proof -
  obtain a s1 where a: "frame_alloc_vm s = Some (a, s1)" "a \<in> free_frames (pm s)" "in_use s1 a"
    "free_frames (pm s1) = free_frames (pm s) - {a}" "vm_ok s1" "pmem s1 = pmem s"
    "kernel_dir s1 = kernel_dir s"
    by (rule frame_alloc_vm_some [OF assms]) blast
  define s2 where "s2 = s1\<lparr>pmem := fill_table a (pmem s)\<rparr>"
  have s1: "s1 = s2\<lparr>pmem := pmem s\<rparr>" using a(6) by (simp add: s2_def)
  have al: "page_aligned a" "a \<noteq> 0" using a(3) by (simp_all add: in_use_def)
  have ms: "memset32 a 0 1024 s1 = Some s2" using al a(6) by (simp add: memset32_table s2_def)
  show thesis
  proof (rule that [of a s2])
    show "frame_alloc_vm s = Some (a, s2\<lparr>pmem := pmem s\<rparr>)" using a(1) s1 by simp
    show "memset32 a 0 1024 (s2\<lparr>pmem := pmem s\<rparr>) = Some s2" using ms s1 by simp
    show "do { (a, s) \<leftarrow> frame_alloc_vm s; s \<leftarrow> memset32 a 0 1024 s; Some (a, s) } = Some (a, s2)"
      using a(1) ms by simp
    show "zero_dir s2 a" using a(3) al by (simp add: zero_dir_def s2_def in_use_def)
    show "vm_ok s2" using a(5) by (simp add: vm_ok_def s2_def)
    show "pmem s2 (entry_at b j) = pmem s (entry_at b j)"
      if "page_aligned b" "b \<noteq> a" "j < 1024" for b j
      using that al by (simp add: s2_def)
  qed (use a in \<open>simp_all add: s2_def\<close>)
qed


section \<open>Booting the paging code\<close>

lemma same_page_unat: "same_page v w \<longleftrightarrow> unat v div 4096 = unat w div 4096"
  by (simp add: same_page_def u32_eq_iff_unat word_nat)

lemma same_page_base: "same_page v w \<Longrightarrow> page_base v = page_base w"
  by (simp add: same_page_unat u32_eq_iff_unat unat_page_base)

definition identity_upto :: "nat \<Rightarrow> u32 \<Rightarrow> u32 option" where
  "identity_upto k v = (if unat v < k * 4096 then Some (pte_for v (PAGE_PRESENT OR PAGE_WRITE)) else None)"

lemma identity_step:
  assumes "k < 1024"
  shows "(\<lambda>w. if same_page w (of_nat k * PAGE_SIZE)
               then Some (pte_for (of_nat k * PAGE_SIZE) (PAGE_PRESENT OR PAGE_WRITE))
               else identity_upto k w) = identity_upto (Suc k)"
proof
  fix w
  have k: "unat (of_nat k * PAGE_SIZE :: u32) = k * 4096"
    using assms by (simp add: page_addr)
  have sp: "same_page w (of_nat k * PAGE_SIZE) \<longleftrightarrow> unat w div 4096 = k"
    by (simp add: same_page_unat k)
  have lt: "unat w < n * 4096 \<longleftrightarrow> unat w div 4096 < n" for n
    by (simp add: div_less_iff_less_mult)
  have "pte_for (of_nat k * PAGE_SIZE) f = pte_for w f"
    if "same_page w (of_nat k * PAGE_SIZE)" for f
    using same_page_base [OF that] by (simp add: pte_for_def)
  then show "(if same_page w (of_nat k * PAGE_SIZE)
               then Some (pte_for (of_nat k * PAGE_SIZE) (PAGE_PRESENT OR PAGE_WRITE))
               else identity_upto k w) = identity_upto (Suc k) w"
    unfolding identity_upto_def lt using sp by auto
qed

text \<open>The state after \<open>k\<close> iterations, started with \<open>n\<close> free frames.\<close>

definition booting :: "u32 \<Rightarrow> nat \<Rightarrow> nat \<Rightarrow> vm \<Rightarrow> bool" where
  "booting d n k s \<longleftrightarrow> vm_ok s \<and> dir_ok s d \<and> kernel_dir s = d \<and> aspace s d = identity_upto k
     \<and> (\<forall>i<1024. i \<noteq> 0 \<longrightarrow> pde s d i = 0)
     \<and> n \<le> card (free_frames (pm s)) + (if k = 0 then 1 else 2)
     \<and> (k \<noteq> 0 \<longrightarrow> present (pde s d 0)) \<and> unat (pde s d 0) div 4096 < 65536"

lemma free_frame_page: "vm_ok s \<Longrightarrow> a \<in> free_frames (pm s) \<Longrightarrow> unat a div 4096 < 65536"
  using free_framesD(3) [of "pm s" a] pmm_invD(2) [of "pm s"] by (simp add: vm_ok_def)

lemma booting_step:
  assumes B: "booting d n k s" and n: "2 \<le> n" and k: "k < 1024"
  shows "\<exists>s'. vmm_map (kernel_dir s) (of_nat k * PAGE_SIZE) (of_nat k * PAGE_SIZE)
      (PAGE_PRESENT OR PAGE_WRITE) s = Some s' \<and> booting d n (Suc k) s'"
proof -
  let ?a = "of_nat k * PAGE_SIZE :: u32"
  from B have s: "vm_ok s" "dir_ok s d" "kernel_dir s = d" "aspace s d = identity_upto k"
    "\<And>i. i < 1024 \<Longrightarrow> i \<noteq> 0 \<Longrightarrow> pde s d i = 0"
    "n \<le> card (free_frames (pm s)) + (if k = 0 then 1 else 2)" "k \<noteq> 0 \<Longrightarrow> present (pde s d 0)"
    "unat (pde s d 0) div 4096 < 65536"
    by (simp_all add: booting_def)
  have "unat ?a = k * 4096" using k by (simp add: page_addr)
  then have idx: "pd_index ?a = 0"
    using k by (simp add: pd_index_def u32_eq_iff_unat word_nat)
  have room: "present (pde s d (pd_index ?a)) \<or> free_frames (pm s) \<noteq> {}"
    using s(6,7) n idx by (cases "k = 0") auto
  obtain s' where s': "vmm_map d ?a ?a (PAGE_PRESENT OR PAGE_WRITE) s = Some s'" "vm_ok s'" "dir_ok s' d"
    "aspace s' d = (\<lambda>w. if same_page w ?a then Some (pte_for ?a (PAGE_PRESENT OR PAGE_WRITE))
                        else aspace s d w)"
    "present (pde s' d (pd_index ?a))" "kernel_dir s' = kernel_dir s"
    "\<And>j. j < 1024 \<Longrightarrow> j \<noteq> pd_index ?a \<Longrightarrow> pde s' d j = pde s d j"
    "\<exists>t. free_frames (pm s) \<subseteq> insert t (free_frames (pm s'))"
    "present (pde s d (pd_index ?a)) \<Longrightarrow> pm s' = pm s"
    "page_base (pde s' d (pd_index ?a)) = page_base (pde s d (pd_index ?a))
      \<or> page_base (pde s' d (pd_index ?a)) \<in> free_frames (pm s)"
    by (rule vmm_map_some [OF s(1,2) room]) blast
  have "aspace s' d = identity_upto (Suc k)"
    unfolding s'(4) s(4) by (rule identity_step [OF k])
  moreover have "n \<le> card (free_frames (pm s')) + 2"
  proof (cases "k = 0")
    case True
    from s'(8) obtain t where "free_frames (pm s) \<subseteq> insert t (free_frames (pm s'))" by blast
    then have "card (free_frames (pm s)) \<le> card (insert t (free_frames (pm s')))"
      by (intro card_mono) auto
    also have "\<dots> \<le> Suc (card (free_frames (pm s')))" by (simp add: card_insert_if)
    finally show ?thesis using s(6) True by simp
  next
    case False
    with s(6,7) s'(9) idx show ?thesis by simp
  qed
  moreover have "unat (pde s' d 0) div 4096 < 65536"
    using s'(10) s(8) free_frame_page [OF s(1), of "page_base (pde s' d 0)"] unfolding idx
    by (auto simp: unat_page_base u32_eq_iff_unat)
  ultimately show ?thesis using s'(1-3,5-7) s(3,5) idx by (simp add: booting_def)
qed

lemma vmm_init_ok:
  assumes "vm_ok s" and two: "2 \<le> card (free_frames (pm s))"
  obtains s' where "vmm_init s = Some s'" "vm_ok s'" "dir_ok s' (kernel_dir s')"
    "aspace s' (kernel_dir s') = identity_upto 1024"
    "cr3 s' = kernel_dir s'" "current_dir s' = kernel_dir s'" "paging_on s'"
    "\<And>i. i < 1024 \<Longrightarrow> i \<noteq> 0 \<Longrightarrow> pde s' (kernel_dir s') i = 0"
    "card (free_frames (pm s)) \<le> card (free_frames (pm s')) + 2"
    "unat (kernel_dir s') div 4096 < 65536" "unat (pde s' (kernel_dir s') 0) div 4096 < 65536"
proof -
  let ?n = "card (free_frames (pm s))"
  have ne: "free_frames (pm s) \<noteq> {}" using two by auto
  obtain d s1 where d: "frame_alloc_vm s = Some (d, s1\<lparr>pmem := pmem s\<rparr>)"
    "memset32 d 0 1024 (s1\<lparr>pmem := pmem s\<rparr>) = Some s1"
    "d \<in> free_frames (pm s)" "zero_dir s1 d" "vm_ok s1" "free_frames (pm s1) = free_frames (pm s) - {d}"
    by (rule new_table [OF assms(1) ne]) blast
  let ?s1 = "s1\<lparr>kernel_dir := d\<rparr>"
  have d0: "d \<noteq> 0" using d(4) by (simp add: zero_dir_def in_use_def)
  have s1: "memset32 d 0 1024 (s1\<lparr>pmem := pmem s, kernel_dir := d\<rparr>) = Some ?s1"
    using d(2) d0 by (cases s1) (simp add: memset32_table)
  have "card (free_frames (pm s1)) = ?n - 1" using d(3,6) by simp
  moreover have "dir_ok ?s1 d" "aspace ?s1 d = identity_upto 0"
    using zero_dir_ok [OF d(4)] zero_dir_aspace [OF d(4)] dir_ok_same [of ?s1 s1 d]
      aspace_cong [of ?s1 s1 d]
    by (simp_all add: identity_upto_def fun_eq_iff)
  ultimately have "booting d ?n 0 ?s1" using d(4,5) two by (simp add: booting_def vm_ok_def zero_dir_def)
  then have "\<exists>t. for_range 0 1024 (\<lambda>k s. let addr = of_nat k * PAGE_SIZE in
      vmm_map (kernel_dir s) addr addr (PAGE_PRESENT OR PAGE_WRITE) s) ?s1 = Some t \<and> booting d ?n 1024 t"
    unfolding Let_def using two by (intro for_range_inv) (auto intro: booting_step)
  then obtain t where t: "for_range 0 1024 (\<lambda>k s. let addr = of_nat k * PAGE_SIZE in
      vmm_map (kernel_dir s) addr addr (PAGE_PRESENT OR PAGE_WRITE) s) ?s1 = Some t" "booting d ?n 1024 t"
    by blast
  let ?s' = "(vmm_switch (kernel_dir t) t)\<lparr>paging_on := True\<rparr>"
  have "vmm_init s = Some ?s'"
    using d(1) s1 t(1) by (simp add: vmm_init_def Let_def)
  moreover have "vm_ok ?s'" "dir_ok ?s' (kernel_dir ?s')" "aspace ?s' (kernel_dir ?s') = identity_upto 1024"
    using t(2) dir_ok_same [of ?s' t d] aspace_cong [of ?s' t d]
    by (simp_all add: booting_def vm_ok_def vmm_switch_def)
  ultimately show thesis
    using t(2) free_frame_page [OF assms(1) d(3)]
    by (intro that [of ?s']) (simp_all add: vmm_switch_def booting_def)
qed

section \<open>Creating a directory\<close>

lemma of_nat_index [simp]: "i < 1024 \<Longrightarrow> (of_nat i :: u32) < 1024"
  by (simp add: word_less_nat_alt word_nat)

lemma unat_of_nat_index: "i < 1024 \<Longrightarrow> unat (of_nat i :: u32) = i"
  by (simp add: word_nat)

text \<open>Entering a table in a free slot of a directory keeps the invariant.\<close>

lemma dir_ok_install:
  assumes ok: "dir_ok s pd" and i: "i < 1024" and e: "present e \<Longrightarrow> in_use s' (page_base e)"
    "present e \<Longrightarrow> page_base e \<noteq> pd"
    "\<And>j. j < 1024 \<Longrightarrow> present (pde s pd j) \<Longrightarrow> present e \<Longrightarrow> page_base (pde s pd j) = page_base e \<Longrightarrow> j = i"
    and pdes: "\<And>j. j < 1024 \<Longrightarrow> pde s' pd j = (if j = i then e else pde s pd j)"
    and free: "free_frames (pm s') \<subseteq> free_frames (pm s)"
  shows "dir_ok s' pd"
proof -
  note D = dir_okD [OF ok]
  show ?thesis unfolding dir_ok_def
  proof (intro conjI allI impI)
    show "in_use s' pd" using D(1-3) free by (auto simp: in_use_def)
    show "in_use s' (page_base (pde s' pd j))" if "j < 1024" "present (pde s' pd j)" for j
    proof (cases "j = i")
      case True
      with that pdes [OF that(1)] e(1) show ?thesis by simp
    next
      case False
      with that pdes [OF that(1)] D(4,5) [OF that(1)] free show ?thesis
        by (simp add: in_use_def) blast
    qed
    show "page_base (pde s' pd j) \<noteq> pd" if "j < 1024" "present (pde s' pd j)" for j
      using that e(2) pdes [OF that(1)] D(6) [OF that(1)] by (cases "j = i") simp_all
    show "j = k" if "j < 1024" "k < 1024" "present (pde s' pd j)" "present (pde s' pd k)"
      "page_base (pde s' pd j) = page_base (pde s' pd k)" for j k
    proof -
      note pj = pdes [OF that(1)] and pk = pdes [OF that(2)]
      consider "j = i" "k = i" | "j = i" "k \<noteq> i" | "j \<noteq> i" "k = i" | "j \<noteq> i" "k \<noteq> i" by blast
      then show ?thesis
      proof cases
        case 1 then show ?thesis by simp
      next
        case 2
        with that pj pk have "k = i" by (intro e(3) [OF that(2)]) simp_all
        with 2 show ?thesis by simp
      next
        case 3
        with that pj pk have "j = i" by (intro e(3) [OF that(1)]) simp_all
        with 3 show ?thesis by simp
      next
        case 4
        with that pj pk show ?thesis using D(7) [OF that(1,2)] by simp
      qed
    qed
  qed
qed

definition creating :: "vm \<Rightarrow> u32 \<Rightarrow> nat \<Rightarrow> vm \<Rightarrow> bool" where
  "creating s pd k t \<longleftrightarrow> pm t = pm s \<and> kernel_dir t = kernel_dir s
     \<and> (\<forall>i<1024. pde t pd i = (if 768 \<le> i \<and> unat i < k then pde s (kernel_dir s) i else 0))
     \<and> (\<forall>b j. page_aligned b \<longrightarrow> b \<noteq> pd \<longrightarrow> j < 1024 \<longrightarrow> pmem t (entry_at b j) = pmem s (entry_at b j))"

lemma creating_step:
  assumes "creating s pd k t" and "768 \<le> k" and "k < 1024" and "page_aligned pd" and "pd \<noteq> 0"
    and "page_aligned (kernel_dir s)" and "kernel_dir s \<noteq> 0" and "kernel_dir s \<noteq> pd"
  shows "\<exists>t'. do { e \<leftarrow> get_entry (kernel_dir t) (of_nat k) t; set_entry pd (of_nat k) e t } = Some t'
    \<and> creating s pd (Suc k) t'"
proof -
  let ?t = "t\<lparr>pmem := (pmem t)(entry_at pd (of_nat k) := pde s (kernel_dir s) (of_nat k))\<rparr>"
  have k: "unat (of_nat k :: u32) = k" "(of_nat k :: u32) < 1024"
    using assms(3) by (simp_all add: unat_of_nat_index)
  have "pde t (kernel_dir s) (of_nat k) = pde s (kernel_dir s) (of_nat k)"
    using assms k by (simp add: creating_def)
  then have "do { e \<leftarrow> get_entry (kernel_dir t) (of_nat k) t; set_entry pd (of_nat k) e t } = Some ?t"
    using assms by (simp add: creating_def)
  moreover have "creating s pd (Suc k) ?t"
  proof -
    have k768: "768 \<le> (of_nat k :: u32)" using assms(2) k(1) by (simp add: word_le_nat_alt)
    have at_k: "unat i < Suc k \<longleftrightarrow> unat i < k \<or> i = of_nat k" for i :: u32
      using k(1) u32_eq_of_nat [of i k] by (auto simp: less_Suc_eq)
    show ?thesis unfolding creating_def
    proof (intro conjI allI impI)
      show "pde ?t pd i = (if 768 \<le> i \<and> unat i < Suc k then pde s (kernel_dir s) i else 0)"
        if "i < 1024" for i
        using that assms(1,4) k k768 by (simp add: creating_def at_k)
      show "pmem ?t (entry_at b j) = pmem s (entry_at b j)"
        if "page_aligned b" "b \<noteq> pd" "j < 1024" for b j
        using that assms(1,4) k(2) by (simp add: creating_def)
    qed (use assms(1) in \<open>simp_all add: creating_def\<close>)
  qed
  ultimately show ?thesis by blast
qed

lemma create_directory_some:
  assumes ok: "vm_ok s" "dir_ok s (kernel_dir s)" and ne: "free_frames (pm s) \<noteq> {}"
  obtains pd s' where "vmm_create_directory s = Some (pd, s')" "pd \<in> free_frames (pm s)" "vm_ok s'"
    "dir_ok s' pd" "free_frames (pm s') = free_frames (pm s) - {pd}" "kernel_dir s' = kernel_dir s"
    "\<And>i. i < 1024 \<Longrightarrow> pde s' pd i = (if 768 \<le> i then pde s (kernel_dir s) i else 0)"
    "\<And>b j. page_aligned b \<Longrightarrow> b \<noteq> pd \<Longrightarrow> j < 1024 \<Longrightarrow> pmem s' (entry_at b j) = pmem s (entry_at b j)"
    "aspace s' pd = (\<lambda>v. if 768 \<le> pd_index v then aspace s (kernel_dir s) v else None)"
proof -
  let ?kd = "kernel_dir s"
  note K = dir_okD [OF ok(2)]
  obtain pd s1 where d: "frame_alloc_vm s = Some (pd, s1\<lparr>pmem := pmem s\<rparr>)"
    "memset32 pd 0 1024 (s1\<lparr>pmem := pmem s\<rparr>) = Some s1"
    "pd \<in> free_frames (pm s)" "zero_dir s1 pd" "vm_ok s1" "free_frames (pm s1) = free_frames (pm s) - {pd}"
    "kernel_dir s1 = ?kd"
    "\<And>b j. page_aligned b \<Longrightarrow> b \<noteq> pd \<Longrightarrow> j < 1024 \<Longrightarrow> pmem s1 (entry_at b j) = pmem s (entry_at b j)"
    by (rule new_table [OF ok(1) ne]) blast
  note fresh = dir_ok_fresh [OF ok(2) d(3)]
  have al: "page_aligned pd" "pd \<noteq> 0" using d(4) by (auto simp: zero_dir_def in_use_def)
  let ?body = "\<lambda>i s. do { e \<leftarrow> get_entry (kernel_dir s) (of_nat i) s; set_entry pd (of_nat i) e s }"
  have kd: "pde s1 ?kd i = pde s ?kd i" if "i < 1024" for i using d(8) K(1) fresh(1) that by simp
  have c0: "creating s1 pd 768 s1"
    using d(4) by (auto simp: creating_def zero_dir_def word_le_nat_alt)
  have "\<exists>t. for_range 768 1024 ?body s1 = Some t \<and> creating s1 pd 1024 t"
    using c0 creating_step [OF _ _ _ al] K(1,2) fresh(1) d(7)
    by (intro for_range_inv [where P = "creating s1 pd"]) auto
  then obtain t where t: "for_range 768 1024 ?body s1 = Some t" "creating s1 pd 1024 t" by blast
  have pm: "pm t = pm s1" "kernel_dir t = ?kd" using t(2) d(7) by (simp_all add: creating_def)
  have pde_t: "pde t pd i = (if 768 \<le> i then pde s ?kd i else 0)" if "i < 1024" for i
    using that t(2) kd [OF that] d(7) by (auto simp: creating_def word_less_nat_alt)
  have mem_t: "pmem t (entry_at b j) = pmem s (entry_at b j)"
    if "page_aligned b" "b \<noteq> pd" "j < 1024" for b j
    using that t(2) d(8) by (simp add: creating_def)
  have run: "vmm_create_directory s = Some (pd, t)"
    using d(1,2) t(1) by (simp add: vmm_create_directory_def)
  have dok: "dir_ok t pd" unfolding dir_ok_def
  proof (intro conjI allI impI)
    show "in_use t pd" using al d(6) pm by (simp add: in_use_def)
    show "in_use t (page_base (pde t pd i))" if "i < 1024" "present (pde t pd i)" for i
      using that K(4,5) [of i] d(6) pm(1) by (simp add: pde_t in_use_def split: if_splits)
    show "page_base (pde t pd i) \<noteq> pd" if "i < 1024" "present (pde t pd i)" for i
      using that fresh(2) [of i] by (simp add: pde_t split: if_splits)
    show "i = j" if "i < 1024" "j < 1024" "present (pde t pd i)" "present (pde t pd j)"
      "page_base (pde t pd i) = page_base (pde t pd j)" for i j
      using that K(7) [of i j] by (simp add: pde_t split: if_splits)
  qed
  have asp: "aspace t pd = (\<lambda>v. if 768 \<le> pd_index v then aspace s ?kd v else None)"
  proof
    fix v show "aspace t pd v = (if 768 \<le> pd_index v then aspace s ?kd v else None)"
      using fresh(2) [of "pd_index v"]
      by (cases "present (pde s ?kd (pd_index v))") (simp_all add: aspace_def Let_def pde_t mem_t)
  qed
  show thesis
    by (rule that [OF run d(3) _ dok _ pm(2) pde_t mem_t asp]) (use d pm in \<open>auto simp: vm_ok_def\<close>)
qed


section \<open>Cloning a directory\<close>

definition cow :: "u32 \<Rightarrow> u32" where
  "cow e = (e AND NOT PAGE_WRITE) OR PAGE_COW"

lemma bit_flags:
  "bit PAGE_PRESENT n \<longleftrightarrow> n = 0" "bit PAGE_WRITE n \<longleftrightarrow> n = 1"
  "bit PAGE_USER n \<longleftrightarrow> n = 2" "bit PAGE_COW n \<longleftrightarrow> n = 9"
proof -
  have e: "PAGE_PRESENT = 2 ^ 0" "PAGE_WRITE = 2 ^ 1" "PAGE_USER = 2 ^ 2" "PAGE_COW = 2 ^ 9"
    by (simp_all add: flag_defs)
  have bit: "bit (2 ^ m :: u32) n \<longleftrightarrow> n = m" if "m < 32" for m
    using that by (auto simp: bit_exp_iff)
  show "bit PAGE_PRESENT n \<longleftrightarrow> n = 0" unfolding e by (rule bit) simp
  show "bit PAGE_WRITE n \<longleftrightarrow> n = 1" unfolding e by (rule bit) simp
  show "bit PAGE_USER n \<longleftrightarrow> n = 2" unfolding e by (rule bit) simp
  show "bit PAGE_COW n \<longleftrightarrow> n = 9" unfolding e by (rule bit) simp
qed

lemma present_bit: "present e \<longleftrightarrow> bit e 0"
proof -
  have "e AND PAGE_PRESENT = of_bool (odd e)" by (simp add: PAGE_PRESENT_def and_one_eq odd_iff_mod_2_eq_one)
  then show ?thesis by (simp add: present_def bit_0)
qed

lemma present_cow [simp]: "present (cow e) = present e"
  unfolding present_bit cow_def bit_or_iff bit_and_iff bit_not_iff bit_flags by auto

lemma page_base_cow [simp]: "page_base (cow e) = page_base e"
  by (rule bit_eqI)
     (unfold bit_page_base cow_def bit_or_iff bit_and_iff bit_not_iff bit_flags, auto)

lemma cow_not_writable [simp]: "cow e AND PAGE_WRITE = 0"
  by (rule bit_eqI)
     (unfold cow_def bit_or_iff bit_and_iff bit_not_iff bit_flags bit_0_eq, auto)

lemma clone_pte_eq:
  assumes "page_aligned src" "page_aligned dst" "src \<noteq> 0" "dst \<noteq> 0" "src \<noteq> dst" and "j < 1024"
  shows "clone_pte src dst j s =
    Some (let e = pmem s (entry_at src (of_nat j)) in
      if present e
      then s\<lparr>pmem := (pmem s)(entry_at src (of_nat j) := cow e, entry_at dst (of_nat j) := cow e)\<rparr>
      else s)"
  using assms by (simp add: clone_pte_def Let_def cow_def)

definition cloning_pt :: "u32 \<Rightarrow> u32 \<Rightarrow> vm \<Rightarrow> nat \<Rightarrow> vm \<Rightarrow> bool" where
  "cloning_pt src dst s k t \<longleftrightarrow> pm t = pm s \<and> kernel_dir t = kernel_dir s
     \<and> (\<forall>j<1024. let e = pmem s (entry_at src j) in
          pmem t (entry_at src j) = (if unat j < k \<and> present e then cow e else e) \<and>
          pmem t (entry_at dst j) = (if unat j < k \<and> present e then cow e else pmem s (entry_at dst j)))
     \<and> (\<forall>b j. page_aligned b \<longrightarrow> b \<noteq> src \<longrightarrow> b \<noteq> dst \<longrightarrow> j < 1024 \<longrightarrow>
          pmem t (entry_at b j) = pmem s (entry_at b j))"

lemma cloning_pt_step:
  assumes al: "page_aligned src" "page_aligned dst" "src \<noteq> 0" "dst \<noteq> 0" "src \<noteq> dst"
    and k: "k < 1024" and P: "cloning_pt src dst s k t"
  shows "\<exists>t'. clone_pte src dst k t = Some t' \<and> cloning_pt src dst s (Suc k) t'"
proof -
  let ?k = "of_nat k :: u32"
  have k': "unat ?k = k" "?k < 1024" using k by (simp_all add: unat_of_nat_index)
  have at_k: "unat j < Suc k \<longleftrightarrow> unat j < k \<or> j = ?k" for j :: u32
    using k'(1) u32_eq_of_nat [of j k] by (auto simp: less_Suc_eq)
  have ek: "pmem t (entry_at src ?k) = pmem s (entry_at src ?k)"
    using P k' by (simp add: cloning_pt_def Let_def)
  define t' where "t' = (let e = pmem t (entry_at src ?k) in
    if present e then t\<lparr>pmem := (pmem t)(entry_at src ?k := cow e, entry_at dst ?k := cow e)\<rparr> else t)"
  have mem: "pmem t' (entry_at b j) =
      (if j = ?k \<and> (b = src \<or> b = dst) \<and> present (pmem s (entry_at src ?k))
       then cow (pmem s (entry_at src ?k)) else pmem t (entry_at b j))"
    if "page_aligned b" "j < 1024" for b j
    using that al k'(2) by (simp add: t'_def Let_def ek)
  have "cloning_pt src dst s (Suc k) t'" unfolding cloning_pt_def Let_def
  proof (intro conjI allI impI)
    show "pm t' = pm s" "kernel_dir t' = kernel_dir s"
      using P by (simp_all add: t'_def Let_def cloning_pt_def)
    show "pmem t' (entry_at src j) = (if unat j < Suc k \<and> present (pmem s (entry_at src j))
        then cow (pmem s (entry_at src j)) else pmem s (entry_at src j))" if "j < 1024" for j
      using that P al by (cases "j = ?k") (simp_all add: mem at_k cloning_pt_def Let_def)
    show "pmem t' (entry_at dst j) = (if unat j < Suc k \<and> present (pmem s (entry_at src j))
        then cow (pmem s (entry_at src j)) else pmem s (entry_at dst j))" if "j < 1024" for j
      using that P al by (cases "j = ?k") (simp_all add: mem at_k cloning_pt_def Let_def)
    show "pmem t' (entry_at b j) = pmem s (entry_at b j)"
      if "page_aligned b" "b \<noteq> src" "b \<noteq> dst" "j < 1024" for b j
      using that P by (simp add: mem cloning_pt_def Let_def)
  qed
  moreover have "clone_pte src dst k t = Some t'"
    using clone_pte_eq [OF al k] by (simp add: t'_def)
  ultimately show ?thesis by blast
qed

lemma clone_ptes:
  assumes al: "page_aligned src" "page_aligned dst" "src \<noteq> 0" "dst \<noteq> 0" "src \<noteq> dst"
  obtains t where "for_range 0 1024 (clone_pte src dst) s = Some t" "pm t = pm s"
    "kernel_dir t = kernel_dir s"
    "\<And>j. j < 1024 \<Longrightarrow> pmem t (entry_at src j) =
       (let e = pmem s (entry_at src j) in if present e then cow e else e)"
    "\<And>j. j < 1024 \<Longrightarrow> pmem t (entry_at dst j) =
       (let e = pmem s (entry_at src j) in if present e then cow e else pmem s (entry_at dst j))"
    "\<And>b j. page_aligned b \<Longrightarrow> b \<noteq> src \<Longrightarrow> b \<noteq> dst \<Longrightarrow> j < 1024 \<Longrightarrow>
       pmem t (entry_at b j) = pmem s (entry_at b j)"
proof -
  have "cloning_pt src dst s 0 s" by (simp add: cloning_pt_def Let_def)
  then have "\<exists>t. for_range 0 1024 (clone_pte src dst) s = Some t \<and> cloning_pt src dst s 1024 t"
    using cloning_pt_step [OF al] by (intro for_range_inv) auto
  then obtain t where t: "for_range 0 1024 (clone_pte src dst) s = Some t" "cloning_pt src dst s 1024 t"
    by blast
  from t(2) show thesis
    by (intro that [OF t(1)]) (simp_all add: cloning_pt_def Let_def word_less_nat_alt)
qed

text \<open>
  The state between two iterations of the outer loop, for a source directory that shares the
  upper quarter with the kernel directory: below \<open>k\<close> both directories have the copy-on-write
  entries, and no user table of the new directory is a table of the source.
\<close>

definition user_entries :: "vm \<Rightarrow> u32 \<Rightarrow> nat \<Rightarrow> nat set" where
  "user_entries s pd k = {i. k \<le> i \<and> i < 768 \<and> present (pde s pd (of_nat i))}"

definition cloning :: "vm \<Rightarrow> u32 \<Rightarrow> u32 \<Rightarrow> nat \<Rightarrow> vm \<Rightarrow> bool" where
  "cloning s src dst k t \<longleftrightarrow> vm_ok t \<and> dir_ok t src \<and> dir_ok t dst \<and> dst \<noteq> src
     \<and> kernel_dir t = kernel_dir s
     \<and> (\<forall>i<1024. pde t src i = pde s src i)
     \<and> (\<forall>i<1024. 768 \<le> i \<longrightarrow> pde t dst i = pde s src i)
     \<and> (\<forall>i<768. k \<le> unat i \<longrightarrow> pde t dst i = 0)
     \<and> (\<forall>i<768. present (pde t dst i) \<longrightarrow> page_base (pde t dst i) \<in> free_frames (pm s))
     \<and> (\<forall>i<768. present (pde t dst i) \<longrightarrow> page_base (pde t dst i) \<noteq> src \<and>
          (\<forall>j<1024. present (pde t src j) \<longrightarrow> page_base (pde t dst i) \<noteq> page_base (pde t src j)))
     \<and> (\<forall>j<1024. present (pde t src j) \<longrightarrow> page_base (pde t src j) \<noteq> dst)
     \<and> aspace t src = (\<lambda>v. if unat (pd_index v) < k then map_option cow (aspace s src v) else aspace s src v)
     \<and> aspace t dst = (\<lambda>v. if unat (pd_index v) < k then map_option cow (aspace s src v)
                          else if 768 \<le> pd_index v then aspace s src v else None)
     \<and> card (user_entries s src k) \<le> card (free_frames (pm t))
     \<and> free_frames (pm t) \<subseteq> free_frames (pm s)"


lemma user_entries_step:
  assumes "k < 768"
  shows "user_entries s pd k = (if present (pde s pd (of_nat k))
    then insert k (user_entries s pd (Suc k)) else user_entries s pd (Suc k))"
  using assms by (auto simp: user_entries_def le_less Suc_le_eq)

lemma finite_user_entries [simp]: "finite (user_entries s pd k)"
  by (rule finite_subset [of _ "{..<768}"]) (auto simp: user_entries_def)

text \<open>One iteration that clones the table of entry \<open>i\<close>, as a change of the two directories.\<close>

lemma clone_pde_table:
  assumes ok: "vm_ok t" "dir_ok t src" "dir_ok t dst" "dst \<noteq> src" and k: "k < 1024"
    and pr: "present (pde t src (of_nat k))" and ne: "free_frames (pm t) \<noteq> {}"
    and free_slot: "\<not> present (pde t dst (of_nat k))"
    and sep: "\<And>j. j < 1024 \<Longrightarrow> present (pde t dst j) \<Longrightarrow> page_base (pde t dst j) \<noteq> src"
      "\<And>j. j < 1024 \<Longrightarrow> present (pde t dst j) \<Longrightarrow> j \<noteq> of_nat k \<Longrightarrow>
         page_base (pde t dst j) \<noteq> page_base (pde t src (of_nat k))"
      "\<And>j. j < 1024 \<Longrightarrow> present (pde t src j) \<Longrightarrow> page_base (pde t src j) \<noteq> dst"
  obtains t' a where "clone_pde src dst k t = Some t'" "vm_ok t'" "dir_ok t' src" "dir_ok t' dst"
    "kernel_dir t' = kernel_dir t" "a \<in> free_frames (pm t)"
    "free_frames (pm t') = free_frames (pm t) - {a}"
    "\<And>j. j < 1024 \<Longrightarrow> pde t' src j = pde t src j"
    "\<And>j. j < 1024 \<Longrightarrow> j \<noteq> of_nat k \<Longrightarrow> pde t' dst j = pde t dst j"
    "page_base (pde t' dst (of_nat k)) = a"
    "aspace t' src = (\<lambda>v. if pd_index v = of_nat k then map_option cow (aspace t src v) else aspace t src v)"
    "aspace t' dst = (\<lambda>v. if pd_index v = of_nat k then map_option cow (aspace t src v) else aspace t dst v)"
proof -
  let ?k = "of_nat k :: u32"
  let ?e = "pde t src ?k"
  let ?spt = "page_base ?e"
  note S = dir_okD [OF ok(2)] and T = dir_okD [OF ok(3)]
  have k': "?k < 1024" using k by simp
  obtain a s1 where a: "frame_alloc_vm t = Some (a, s1\<lparr>pmem := pmem t\<rparr>)"
    "memset32 a 0 1024 (s1\<lparr>pmem := pmem t\<rparr>) = Some s1" "a \<in> free_frames (pm t)" "zero_dir s1 a"
    "vm_ok s1" "free_frames (pm s1) = free_frames (pm t) - {a}" "kernel_dir s1 = kernel_dir t"
    "\<And>b j. page_aligned b \<Longrightarrow> b \<noteq> a \<Longrightarrow> j < 1024 \<Longrightarrow> pmem s1 (entry_at b j) = pmem t (entry_at b j)"
    by (rule new_table [OF ok(1) ne]) blast
  note fs = dir_ok_fresh [OF ok(2) a(3)] and ft = dir_ok_fresh [OF ok(3) a(3)]
  have al: "page_aligned a" "a \<noteq> 0" "\<And>j. j < 1024 \<Longrightarrow> pmem s1 (entry_at a j) = 0"
    using a(4) by (simp_all add: zero_dir_def in_use_def)
  have spt: "?spt \<noteq> 0" "?spt \<noteq> src" "?spt \<noteq> a" "?spt \<noteq> dst"
    using S(4,6) [OF k' pr] fs(2) [OF k' pr] sep(3) [OF k' pr] by simp_all
  obtain t2 where t2: "for_range 0 1024 (clone_pte ?spt a) s1 = Some t2" "pm t2 = pm s1"
    "kernel_dir t2 = kernel_dir s1"
    "\<And>j. j < 1024 \<Longrightarrow> pmem t2 (entry_at ?spt j) =
       (let e = pmem s1 (entry_at ?spt j) in if present e then cow e else e)"
    "\<And>j. j < 1024 \<Longrightarrow> pmem t2 (entry_at a j) =
       (let e = pmem s1 (entry_at ?spt j) in if present e then cow e else pmem s1 (entry_at a j))"
    "\<And>b j. page_aligned b \<Longrightarrow> b \<noteq> ?spt \<Longrightarrow> b \<noteq> a \<Longrightarrow> j < 1024 \<Longrightarrow>
       pmem t2 (entry_at b j) = pmem s1 (entry_at b j)"
    by (rule clone_ptes [OF page_aligned_base al(1) spt(1) al(2) spt(3)]) blast
  let ?e' = "a OR (?e AND 0xFFF)"
  define t3 where "t3 = t2\<lparr>pmem := (pmem t2)(entry_at dst ?k := ?e')\<rparr>"
  have "present ?e'"
    using pr unfolding present_bit bit_or_iff bit_and_iff bit_low12 by simp
  moreover have "page_base ?e' = a"
    by (rule page_base_entry [OF al(1)]) (simp add: and.assoc)
  ultimately have e': "present ?e'" "page_base ?e' = a" .
  have src2: "pde t2 src j = pde t src j" if "j < 1024" for j
    using t2(6) [OF S(1)] a(8) [OF S(1)] spt(2) fs(1) that by simp
  have t3: "pm t3 = pm s1" "kernel_dir t3 = kernel_dir t"
    using t2(2,3) a(7) by (simp_all add: t3_def)
  have src3: "pde t3 src j = pde t src j" if "j < 1024" for j
    using src2 that S(1) T(1) k' ok(4) by (simp add: t3_def)
  have dst3: "pde t3 dst j = (if j = ?k then ?e' else pde t dst j)" if "j < 1024" for j
    using that T(1) k' t2(6) [OF T(1)] a(8) [OF T(1)] spt(4) ft(1) by (simp add: t3_def)
  have spt3: "pmem t3 (entry_at ?spt j) = (let e = pmem t (entry_at ?spt j) in if present e then cow e else e)"
    if "j < 1024" for j
    using that T(1) k' t2(4) a(8) spt by (simp add: t3_def)
  have new3: "pmem t3 (entry_at a j) = (let e = pmem t (entry_at ?spt j) in if present e then cow e else 0)"
    if "j < 1024" for j
    using that al T(1) k' t2(5) a(8) spt ft(1) by (simp add: t3_def Let_def)
  have other3: "pmem t3 (entry_at b j) = pmem t (entry_at b j)"
    if "page_aligned b" "b \<noteq> dst" "b \<noteq> ?spt" "b \<noteq> a" "j < 1024" for b j
    using that T(1) k' t2(6) a(8) by (simp add: t3_def)
  have run: "clone_pde src dst k t = Some t3"
    using a(1,2) pr S(2) T(2) t2(1) src2 [OF k'] by (simp add: clone_pde_def Let_def t3_def)
  have sub: "free_frames (pm t3) \<subseteq> free_frames (pm t)" using a(6) t3 by auto
  have dsrc: "dir_ok t3 src" by (rule dir_ok_cong [OF ok(2) sub src3])
  have ddst: "dir_ok t3 dst"
  proof (rule dir_ok_install [OF ok(3) k' _ _ _ dst3 sub])
    show "in_use t3 (page_base ?e')" using al(1,2) a(6) t3 e' by (simp add: in_use_def)
    show "page_base ?e' \<noteq> dst" using e' ft(1) by simp
    show "j = ?k" if "j < 1024" "present (pde t dst j)" "page_base (pde t dst j) = page_base ?e'" for j
      using that ft(2) [of j] e' by simp
  qed
  have asrc: "aspace t3 src v = (if pd_index v = ?k then map_option cow (aspace t src v) else aspace t src v)" for v
  proof (cases "pd_index v = ?k")
    case True
    then show ?thesis using pr by (simp add: aspace_def Let_def src3 [OF k'] spt3)
  next
    case False
    show ?thesis
    proof (cases "present (pde t src (pd_index v))")
      case pv: True
      then have "page_base (pde t src (pd_index v)) \<noteq> ?spt"
        using S(7) [OF index_bounds(1) k' pv pr] False by simp
      with pv False sep(3) [OF _ pv] fs(2) [OF _ pv] show ?thesis
        by (simp add: aspace_def Let_def src3 other3)
    next
      case np: False
      with False show ?thesis by (simp add: aspace_def Let_def src3)
    qed
  qed
  have adst: "aspace t3 dst v = (if pd_index v = ?k then map_option cow (aspace t src v) else aspace t dst v)" for v
  proof (cases "pd_index v = ?k")
    case True
    then show ?thesis using pr e' by (simp add: aspace_def Let_def dst3 [OF k'] new3)
  next
    case False
    show ?thesis
    proof (cases "present (pde t dst (pd_index v))")
      case pv: True
      with False sep(2) [OF _ pv] T(6) [OF _ pv] ft(2) [OF _ pv] show ?thesis
        by (simp add: aspace_def Let_def dst3 other3)
    next
      case np: False
      with False show ?thesis by (simp add: aspace_def Let_def dst3)
    qed
  qed
  show thesis
  proof (rule that [OF run _ dsrc ddst t3(2) a(3) _ src3])
    show "vm_ok t3" "free_frames (pm t3) = free_frames (pm t) - {a}"
      using a(5,6) by (simp_all add: vm_ok_def t3)
    show "pde t3 dst j = pde t dst j" if "j < 1024" "j \<noteq> ?k" for j using dst3 that by simp
    show "page_base (pde t3 dst ?k) = a" using dst3 [OF k'] e' by simp
  qed (use asrc adst in \<open>auto simp: fun_eq_iff\<close>)
qed


lemma cloningD:
  assumes "cloning s src dst k t"
  shows "vm_ok t" "dir_ok t src" "dir_ok t dst" "dst \<noteq> src" "kernel_dir t = kernel_dir s"
    and "\<And>i. i < 1024 \<Longrightarrow> pde t src i = pde s src i"
    and "\<And>i. i < 1024 \<Longrightarrow> 768 \<le> i \<Longrightarrow> pde t dst i = pde s src i"
    and "\<And>i. i < 768 \<Longrightarrow> k \<le> unat i \<Longrightarrow> pde t dst i = 0"
    and "\<And>i. i < 768 \<Longrightarrow> present (pde t dst i) \<Longrightarrow> page_base (pde t dst i) \<noteq> src"
    and "\<And>i j. i < 768 \<Longrightarrow> j < 1024 \<Longrightarrow> present (pde t dst i) \<Longrightarrow> present (pde t src j) \<Longrightarrow>
      page_base (pde t dst i) \<noteq> page_base (pde t src j)"
    and "\<And>j. j < 1024 \<Longrightarrow> present (pde t src j) \<Longrightarrow> page_base (pde t src j) \<noteq> dst"
    and "aspace t src = (\<lambda>v. if unat (pd_index v) < k then map_option cow (aspace s src v) else aspace s src v)"
    and "aspace t dst = (\<lambda>v. if unat (pd_index v) < k then map_option cow (aspace s src v)
                          else if 768 \<le> pd_index v then aspace s src v else None)"
    and "card (user_entries s src k) \<le> card (free_frames (pm t))"
    and "free_frames (pm t) \<subseteq> free_frames (pm s)"
    and "\<And>i. i < 768 \<Longrightarrow> present (pde t dst i) \<Longrightarrow> page_base (pde t dst i) \<in> free_frames (pm s)"
  using assms unfolding cloning_def by blast+

lemma cloning_step:
  assumes C: "cloning s src dst k t" and k: "k < 768"
  shows "\<exists>t'. clone_pde src dst k t = Some t' \<and> cloning s src dst (Suc k) t'"
proof -
  let ?k = "of_nat k :: u32"
  note D = cloningD [OF C]
  have k': "unat ?k = k" "?k < 1024" "?k < 768"
    using k by (simp_all add: unat_of_nat_index word_less_nat_alt)
  have at_k: "unat i < Suc k \<longleftrightarrow> unat i < k \<or> i = ?k" for i :: u32
    using k'(1) u32_eq_of_nat [of i k] by (auto simp: less_Suc_eq)
  have le_k: "Suc k \<le> unat i \<longleftrightarrow> k \<le> unat i \<and> i \<noteq> ?k" for i :: u32
    using at_k [of i] by auto
  have user: "i < 768 \<Longrightarrow> i < 1024" for i :: u32 by (simp add: word_less_nat_alt)
  show ?thesis
  proof (cases "present (pde t src ?k)")
    case False
    then have "clone_pde src dst k t = Some t"
      using dir_okD(2) [OF D(2)] by (simp add: clone_pde_def)
    moreover have "cloning s src dst (Suc k) t" unfolding cloning_def
    proof (intro conjI allI impI)
      have none: "aspace s src v = None" if "pd_index v = ?k" for v
        using False D(6) [OF k'(2)] that by (simp add: aspace_def)
      show "aspace t src = (\<lambda>v. if unat (pd_index v) < Suc k then map_option cow (aspace s src v)
          else aspace s src v)"
        unfolding D(12) at_k using none by (auto simp: fun_eq_iff)
      show "aspace t dst = (\<lambda>v. if unat (pd_index v) < Suc k then map_option cow (aspace s src v)
          else if 768 \<le> pd_index v then aspace s src v else None)"
        unfolding D(13) at_k using none k'(3) by (auto simp: fun_eq_iff)
      show "card (user_entries s src (Suc k)) \<le> card (free_frames (pm t))"
        using D(14) False D(6) [OF k'(2)] k by (simp add: user_entries_step)
    qed (use D in \<open>simp_all add: le_k\<close>)
    ultimately show ?thesis by blast
  next
    case True
    have in_s: "present (pde s src ?k)" using True D(6) [OF k'(2)] by simp
    have card: "card (user_entries s src k) = Suc (card (user_entries s src (Suc k)))"
      using in_s k by (simp add: user_entries_step) (simp add: user_entries_def)
    then have ne: "free_frames (pm t) \<noteq> {}" using D(14) by auto
    have slot: "\<not> present (pde t dst ?k)" using D(8) [OF k'(3)] k'(1) by simp
    have sep1: "page_base (pde t dst j) \<noteq> src" if "j < 1024" "present (pde t dst j)" for j
      using that D(9) [of j] D(7) [of j] D(6) [of j] dir_okD(6) [OF D(2), of j]
      by (cases "j < 768") (simp_all add: not_less)
    have sep2: "page_base (pde t dst j) \<noteq> page_base (pde t src ?k)"
      if "j < 1024" "present (pde t dst j)" "j \<noteq> ?k" for j
      using that D(10) [OF _ k'(2) _ True, of j] D(7) [of j] D(6) [of j]
        dir_okD(7) [OF D(2) that(1) k'(2) _ True]
      by (cases "j < 768") (simp_all add: not_less)
    obtain t' a where t': "clone_pde src dst k t = Some t'" "vm_ok t'" "dir_ok t' src" "dir_ok t' dst"
      "kernel_dir t' = kernel_dir t" "a \<in> free_frames (pm t)"
      "free_frames (pm t') = free_frames (pm t) - {a}"
      "\<And>j. j < 1024 \<Longrightarrow> pde t' src j = pde t src j"
      "\<And>j. j < 1024 \<Longrightarrow> j \<noteq> ?k \<Longrightarrow> pde t' dst j = pde t dst j"
      "page_base (pde t' dst ?k) = a"
      "aspace t' src = (\<lambda>v. if pd_index v = ?k then map_option cow (aspace t src v) else aspace t src v)"
      "aspace t' dst = (\<lambda>v. if pd_index v = ?k then map_option cow (aspace t src v) else aspace t dst v)"
      using clone_pde_table [OF D(1-4) _ True ne slot sep1 sep2 D(11)] k by auto
    note fresh = dir_ok_fresh [OF D(2) t'(6)]
    have "cloning s src dst (Suc k) t'" unfolding cloning_def
    proof (intro conjI allI impI)
      show "pde t' src i = pde s src i" if "i < 1024" for i using t'(8) D(6) that by simp
      show "pde t' dst i = pde s src i" if "i < 1024" "768 \<le> i" for i
        using t'(9) D(7) that k'(3) by (cases "i = ?k") simp_all
      show "pde t' dst i = 0" if "i < 768" "Suc k \<le> unat i" for i
        using t'(9) D(8) that user by (simp add: le_k)
      show "page_base (pde t' dst i) \<in> free_frames (pm s)" if "i < 768" "present (pde t' dst i)" for i
        using t'(6,9,10) D(15,16) that user by (cases "i = ?k") auto
      show "page_base (pde t' dst i) \<noteq> src" if "i < 768" "present (pde t' dst i)" for i
        using t'(9,10) D(9) that user fresh(1) by (cases "i = ?k") simp_all
      show "page_base (pde t' dst i) \<noteq> page_base (pde t' src j)"
        if "i < 768" "present (pde t' dst i)" "j < 1024" "present (pde t' src j)" for i j
        using t'(8,9,10) D(10) [of i j] that user fresh(2) [of j] by (cases "i = ?k") simp_all
      show "page_base (pde t' src j) \<noteq> dst" if "j < 1024" "present (pde t' src j)" for j
        using t'(8) D(11) that by simp
      show "aspace t' src = (\<lambda>v. if unat (pd_index v) < Suc k then map_option cow (aspace s src v)
          else aspace s src v)"
        unfolding t'(11) D(12) at_k using k'(1) by (auto simp: fun_eq_iff)
      show "aspace t' dst = (\<lambda>v. if unat (pd_index v) < Suc k then map_option cow (aspace s src v)
          else if 768 \<le> pd_index v then aspace s src v else None)"
        unfolding t'(12) D(12,13) at_k using k'(1) by (auto simp: fun_eq_iff)
      show "card (user_entries s src (Suc k)) \<le> card (free_frames (pm t'))"
        using D(14) card t'(6,7) by simp
      show "free_frames (pm t') \<subseteq> free_frames (pm s)" using D(15) t'(7) by auto
    qed (use t' D in simp_all)
    with t'(1) show ?thesis by blast
  qed
qed

lemma vmm_clone_some:
  assumes ok: "vm_ok s" "dir_ok s src" "dir_ok s (kernel_dir s)"
    and share: "\<And>i. i < 1024 \<Longrightarrow> 768 \<le> i \<Longrightarrow> pde s src i = pde s (kernel_dir s) i"
    and room: "card (user_entries s src 0) < card (free_frames (pm s))"
  obtains dst t where "vmm_clone src s = Some (dst, t)" "cloning s src dst 768 t"
    "dst \<in> free_frames (pm s)"
proof -
  have ne: "free_frames (pm s) \<noteq> {}" using room by auto
  obtain dst s1 where d: "vmm_create_directory s = Some (dst, s1)" "dst \<in> free_frames (pm s)"
    "vm_ok s1" "dir_ok s1 dst" "free_frames (pm s1) = free_frames (pm s) - {dst}"
    "kernel_dir s1 = kernel_dir s"
    "\<And>i. i < 1024 \<Longrightarrow> pde s1 dst i = (if 768 \<le> i then pde s (kernel_dir s) i else 0)"
    "\<And>b j. page_aligned b \<Longrightarrow> b \<noteq> dst \<Longrightarrow> j < 1024 \<Longrightarrow> pmem s1 (entry_at b j) = pmem s (entry_at b j)"
    "aspace s1 dst = (\<lambda>v. if 768 \<le> pd_index v then aspace s (kernel_dir s) v else None)"
    by (rule create_directory_some [OF ok(1,3) ne]) blast
  note fresh = dir_ok_fresh [OF ok(2) d(2)] and K = dir_okD [OF ok(2)]
  have user: "i < 768 \<Longrightarrow> i < 1024 \<and> \<not> 768 \<le> i" for i :: u32
    by (simp add: word_less_nat_alt word_le_nat_alt)
  have src: "dir_ok s1 src" "aspace s1 src = aspace s src"
    using dir_frame [OF ok(2), of s1] d(5,8) K(1) fresh by auto
  have same: "pde s1 src i = pde s src i" if "i < 1024" for i using d(8) K(1) fresh(1) that by simp
  have upper: "aspace s (kernel_dir s) v = aspace s src v" if "768 \<le> pd_index v" for v
    using share that by (simp add: aspace_def)
  have "cloning s src dst 0 s1" unfolding cloning_def
  proof (intro conjI allI impI)
    show "aspace s1 dst = (\<lambda>v. if unat (pd_index v) < 0 then map_option cow (aspace s src v)
        else if 768 \<le> pd_index v then aspace s src v else None)"
      unfolding d(9) using upper by (auto simp: fun_eq_iff)
    show "card (user_entries s src 0) \<le> card (free_frames (pm s1))" using room d(2,5) by simp
    show "page_base (pde s1 dst i) \<in> free_frames (pm s)" if "i < 768" "present (pde s1 dst i)" for i
      using that d(7) user by simp
    show "page_base (pde s1 dst i) \<noteq> src" if "i < 768" "present (pde s1 dst i)" for i
      using that d(7) user by simp
    show "page_base (pde s1 dst i) \<noteq> page_base (pde s1 src j)"
      if "i < 768" "present (pde s1 dst i)" "j < 1024" "present (pde s1 src j)" for i j
      using that d(7) user by simp
  qed (use d src same share fresh user in \<open>auto\<close>)
  then have "\<exists>t. for_range 0 768 (clone_pde src dst) s1 = Some t \<and> cloning s src dst 768 t"
    using cloning_step by (intro for_range_inv) auto
  with d(1,2) show thesis by (auto simp: vmm_clone_def intro: that)
qed


section \<open>Destroying a directory\<close>

definition bitmap_ok :: "vm \<Rightarrow> bool" where
  "bitmap_ok s \<longleftrightarrow> length (bitmap (pm s)) = BITMAP_LEN"

definition page_no :: "u32 \<Rightarrow> nat" where
  "page_no a = unat a div 4096"

lemma page_no_base [simp]: "page_no (page_base a) = page_no a"
  by (simp add: page_no_def unat_page_base)

lemma frame_free_page:
  assumes "bitmap_ok s" and "page_no a < 65536"
  obtains t where "frame_free_vm a s = Some t" "bitmap_ok t" "pmem t = pmem s" "kernel_dir t = kernel_dir s"
    "\<And>m. m < 65536 \<Longrightarrow> page_used (pm t) m \<longleftrightarrow> m \<noteq> page_no a \<and> page_used (pm s) m"
proof -
  obtain q where "pmm_free a (pm s) = Some q" "length (bitmap q) = BITMAP_LEN"
    "\<And>m. m < 65536 \<Longrightarrow> page_used q m \<longleftrightarrow> m \<noteq> page_no a \<and> page_used (pm s) m"
    using pmm_free_page [of "pm s" a] assms unfolding bitmap_ok_def page_no_def by metis
  then show thesis
    by (intro that [of "s\<lparr>pm := q\<rparr>"]) (simp_all add: frame_free_vm_def bitmap_ok_def)
qed

text \<open>
  \<open>freeing s F t\<close>: \<open>t\<close> is \<open>s\<close> with exactly the pages of \<open>F\<close> given back.
\<close>

definition freeing :: "vm \<Rightarrow> (nat \<Rightarrow> bool) \<Rightarrow> vm \<Rightarrow> bool" where
  "freeing s F t \<longleftrightarrow> bitmap_ok t \<and> pmem t = pmem s \<and> kernel_dir t = kernel_dir s
     \<and> (\<forall>m<65536. page_used (pm t) m \<longleftrightarrow> page_used (pm s) m \<and> \<not> F m)"

lemma freeing_one:
  assumes "freeing s F t" and "page_no a < 65536"
  shows "\<exists>t'. frame_free_vm a t = Some t' \<and> freeing s (\<lambda>m. F m \<or> m = page_no a) t'"
proof -
  from assms(1) have "bitmap_ok t" by (simp add: freeing_def)
  then obtain t' where "frame_free_vm a t = Some t'" "bitmap_ok t'" "pmem t' = pmem t"
    "kernel_dir t' = kernel_dir t"
    "\<And>m. m < 65536 \<Longrightarrow> page_used (pm t') m \<longleftrightarrow> m \<noteq> page_no a \<and> page_used (pm t) m"
    using assms(2) by (rule frame_free_page) blast
  with assms(1) show ?thesis by (auto simp: freeing_def)
qed

lemma freeing_cong: "(\<And>m. F m = G m) \<Longrightarrow> freeing s F t = freeing s G t"
  by (simp add: freeing_def)

definition table_pages :: "vm \<Rightarrow> u32 \<Rightarrow> nat \<Rightarrow> nat \<Rightarrow> bool" where
  "table_pages s pt k m \<longleftrightarrow> (\<exists>j<k. let e = pmem s (entry_at pt (of_nat j)) in present e \<and> m = page_no e)"

lemma table_pages_Suc: "table_pages s pt (Suc k) m \<longleftrightarrow> table_pages s pt k m
    \<or> (let e = pmem s (entry_at pt (of_nat k)) in present e \<and> m = page_no e)"
  by (auto simp: table_pages_def less_Suc_eq Let_def)

lemma destroy_table_freeing:
  assumes "freeing s F t" and "pt \<noteq> 0"
    and "\<And>j. j < 1024 \<Longrightarrow> present (pmem s (entry_at pt j)) \<Longrightarrow> page_no (pmem s (entry_at pt j)) < 65536"
  shows "\<exists>t'. destroy_table pt t = Some t' \<and> freeing s (\<lambda>m. F m \<or> table_pages s pt 1024 m) t'"
  unfolding destroy_table_def
proof (rule for_range_inv [where P = "\<lambda>k. freeing s (\<lambda>m. F m \<or> table_pages s pt k m)"])
  show "freeing s (\<lambda>m. F m \<or> table_pages s pt 0 m) t"
    using assms(1) by (simp add: table_pages_def)
next
  fix k u assume k: "k < (1024 :: nat)" and P: "freeing s (\<lambda>m. F m \<or> table_pages s pt k m) u"
  let ?e = "pmem s (entry_at pt (of_nat k))"
  have mem: "pmem u = pmem s" using P by (simp add: freeing_def)
  show "\<exists>t'. do { e \<leftarrow> get_entry pt (of_nat k) u; if present e
      then do { e \<leftarrow> get_entry pt (of_nat k) u; frame_free_vm (page_base e) u } else Some u } = Some t'
      \<and> freeing s (\<lambda>m. F m \<or> table_pages s pt (Suc k) m) t'"
  proof (cases "present ?e")
    case True
    then have "page_no (page_base ?e) < 65536" using assms(3) k by simp
    from freeing_one [OF P this] True assms(2) show ?thesis
      by (simp add: mem table_pages_Suc Let_def disj_assoc)
  next
    case False
    with P assms(2) show ?thesis by (simp add: mem table_pages_Suc Let_def)
  qed
qed simp

definition dir_pages :: "vm \<Rightarrow> u32 \<Rightarrow> nat \<Rightarrow> nat \<Rightarrow> bool" where
  "dir_pages s pd k m \<longleftrightarrow> (\<exists>i<k. let e = pde s pd (of_nat i) in
     present e \<and> (m = page_no e \<or> table_pages s (page_base e) 1024 m))"

lemma dir_pages_Suc: "dir_pages s pd (Suc k) m \<longleftrightarrow> dir_pages s pd k m
    \<or> (let e = pde s pd (of_nat k) in present e \<and> (m = page_no e \<or> table_pages s (page_base e) 1024 m))"
  by (auto simp: dir_pages_def less_Suc_eq Let_def)

text \<open>All frames a directory refers to are frames the bitmap has a bit for.\<close>

definition in_bitmap :: "vm \<Rightarrow> u32 \<Rightarrow> bool" where
  "in_bitmap s pd \<longleftrightarrow> page_no pd < 65536
     \<and> (\<forall>i<1024. present (pde s pd i) \<longrightarrow> page_no (pde s pd i) < 65536)
     \<and> (\<forall>v e. aspace s pd v = Some e \<longrightarrow> page_no e < 65536)"

lemma index_surj:
  assumes "i < 1024" and "j < 1024"
  obtains v where "pd_index v = i" and "pt_index v = j"
proof -
  have i: "unat i < 1024" and j: "unat j < 1024"
    using assms by (simp_all add: word_less_nat_alt)
  define v :: u32 where "v = of_nat (unat i * 4194304 + unat j * 4096)"
  have v: "unat v = unat i * 4194304 + unat j * 4096"
    unfolding v_def by (rule unat_of_nat_small) (use i j in simp)
  have "unat v div 4194304 = unat i" using j by (simp add: v)
  then have pd: "pd_index v = i" by (simp add: pd_index_def u32_eq_iff_unat word_nat)
  have "unat v div 4096 = unat i * 1024 + unat j" by (simp add: v)
  then have "unat v div 4096 mod 1024 = unat j" using j by simp
  moreover have "pt_index v = take_bit 10 (drop_bit 12 v)"
    by (simp add: pt_index_def take_bit_eq_mask mask_eq_exp_minus_1)
  ultimately have "pt_index v = j"
    by (simp add: u32_eq_iff_unat unsigned_take_bit_eq word_nat take_bit_nat_def)
  with pd show thesis by (rule that)
qed

lemma vmm_destroy_freeing:
  assumes bm: "bitmap_ok s" and ok: "dir_ok s pd" and inb: "in_bitmap s pd"
  shows "\<exists>t. vmm_destroy_directory pd s = Some t
    \<and> freeing s (\<lambda>m. dir_pages s pd 768 m \<or> m = page_no pd) t"
proof -
  note D = dir_okD [OF ok]
  let ?body = "\<lambda>i s. do { e \<leftarrow> get_entry pd (of_nat i) s;
      if \<not> present e then Some s
      else do { let pt = page_base e; s \<leftarrow> destroy_table pt s; frame_free_vm pt s } }"
  have step: "\<exists>u'. ?body k u = Some u' \<and> freeing s (dir_pages s pd (Suc k)) u'"
    if k: "k < 768" and P: "freeing s (dir_pages s pd k) u" for k u
  proof -
    let ?k = "of_nat k :: u32"
    let ?e = "pde s pd ?k"
    have k': "?k < 1024" using k by simp
    have mem: "pmem u = pmem s" using P by (simp add: freeing_def)
    show ?thesis
    proof (cases "present ?e")
      case True
      have ptes: "page_no (pmem s (entry_at (page_base ?e) j)) < 65536"
        if j: "j < 1024" "present (pmem s (entry_at (page_base ?e) j))" for j
      proof -
        obtain v where "pd_index v = ?k" "pt_index v = j" by (rule index_surj [OF k' j(1)])
        with True j have "aspace s pd v = Some (pmem s (entry_at (page_base ?e) j))"
          by (simp add: aspace_def)
        with inb show ?thesis by (auto simp: in_bitmap_def)
      qed
      obtain u1 where u1: "destroy_table (page_base ?e) u = Some u1"
        "freeing s (\<lambda>m. dir_pages s pd k m \<or> table_pages s (page_base ?e) 1024 m) u1"
        using destroy_table_freeing [OF P D(4) [OF k' True] ptes] by blast
      have "page_no (page_base ?e) < 65536" using inb k' True by (simp add: in_bitmap_def)
      then obtain u2 where "frame_free_vm (page_base ?e) u1 = Some u2"
        "freeing s (\<lambda>m. (dir_pages s pd k m \<or> table_pages s (page_base ?e) 1024 m) \<or> m = page_no (page_base ?e)) u2"
        using freeing_one [OF u1(2)] by blast
      moreover have "freeing s (\<lambda>m. (dir_pages s pd k m \<or> table_pages s (page_base ?e) 1024 m)
          \<or> m = page_no (page_base ?e)) u2 = freeing s (dir_pages s pd (Suc k)) u2"
        using True by (intro freeing_cong) (auto simp: dir_pages_Suc Let_def)
      ultimately show ?thesis using True D(2) u1(1) by (simp add: mem Let_def)
    next
      case False
      then have "freeing s (dir_pages s pd (Suc k)) u"
        using P by (simp add: freeing_def dir_pages_Suc Let_def)
      with False D(2) show ?thesis by (simp add: mem)
    qed
  qed
  have "freeing s (dir_pages s pd 0) s" using bm by (simp add: freeing_def dir_pages_def)
  then have "\<exists>u. for_range 0 768 ?body s = Some u \<and> freeing s (dir_pages s pd 768) u"
    using step by (intro for_range_inv) auto
  then obtain u where u: "for_range 0 768 ?body s = Some u" "freeing s (dir_pages s pd 768) u" by blast
  have "page_no pd < 65536" using inb by (simp add: in_bitmap_def)
  from freeing_one [OF u(2) this] u(1) show ?thesis by (simp add: vmm_destroy_directory_def)
qed

lemma aspace_dir_pages:
  assumes "aspace s pd v = Some e" and "pd_index v < 768"
  shows "dir_pages s pd 768 (page_no e)"
proof -
  let ?i = "unat (pd_index v)" and ?j = "unat (pt_index v)"
  have "?i < 768" using assms(2) by (simp add: word_less_nat_alt)
  moreover have "?j < 1024" using index_bounds(2) [of v] by (simp add: word_less_nat_alt)
  ultimately show ?thesis
    using assms(1) unfolding dir_pages_def table_pages_def
    by (intro exI [of _ ?i]) (auto simp: aspace_def Let_def split: if_splits intro: exI [of _ ?j])
qed


section \<open>The interface of the kernel address space\<close>

text \<open>
  What the heap relies on to grow: a fresh frame, and a mapping of one page of kernel
  memory. The abstraction is the lookup of a virtual address (the frame it is mapped to) and
  the number of frames that are left; each of the two operations takes at most one.
\<close>

locale kernel_space =
  fixes fresh :: "'v \<Rightarrow> (u32 \<times> 'v) option"
    and map_page :: "u32 \<Rightarrow> u32 \<Rightarrow> 'v \<Rightarrow> 'v option"
    and lookup :: "'v \<Rightarrow> u32 \<Rightarrow> u32 option"
    and avail :: "'v \<Rightarrow> nat"
    and ok :: "'v \<Rightarrow> bool"
  assumes fresh_ok: "ok v \<Longrightarrow> 0 < avail v \<Longrightarrow> \<exists>a w. fresh v = Some (a, w) \<and> a \<noteq> 0
      \<and> page_aligned a \<and> ok w \<and> avail v \<le> Suc (avail w) \<and> lookup w = lookup v"
    and map_ok: "ok v \<Longrightarrow> 0 < avail v \<Longrightarrow> \<exists>w. map_page va pa v = Some w \<and> ok w
      \<and> avail v \<le> Suc (avail w)
      \<and> lookup w = (\<lambda>x. if same_page x va then Some (page_base pa) else lookup v x)"
begin

text \<open>Mapping \<open>n\<close> pages from \<open>base\<close> on, each to a fresh frame, needs at most \<open>2 * n\<close> frames.\<close>

lemma map_pages:
  assumes "ok v" and "2 * n \<le> avail v"
  shows "\<exists>w. for_range 0 n (\<lambda>i v. do { (a, v) \<leftarrow> fresh v; map_page (base + of_nat i * PAGE_SIZE) a v }) v
      = Some w \<and> ok w \<and> avail v \<le> avail w + 2 * n
    \<and> (\<forall>x. (\<exists>i<n. same_page x (base + of_nat i * PAGE_SIZE)) \<longrightarrow> (\<exists>f. lookup w x = Some f \<and> f \<noteq> 0))
    \<and> (\<forall>x. (\<forall>i<n. \<not> same_page x (base + of_nat i * PAGE_SIZE)) \<longrightarrow> lookup w x = lookup v x)"
proof -
  let ?va = "\<lambda>i. base + of_nat i * PAGE_SIZE"
  let ?P = "\<lambda>k w. ok w \<and> avail v \<le> avail w + 2 * k
    \<and> (\<forall>x. (\<exists>i<k. same_page x (?va i)) \<longrightarrow> (\<exists>f. lookup w x = Some f \<and> f \<noteq> 0))
    \<and> (\<forall>x. (\<forall>i<k. \<not> same_page x (?va i)) \<longrightarrow> lookup w x = lookup v x)"
  have step: "\<exists>t'. do { (a, u) \<leftarrow> fresh u; map_page (?va k) a u } = Some t' \<and> ?P (Suc k) t'"
    if k: "k < n" and P: "?P k u" for k u
  proof -
    from P k assms(2) have "0 < avail u" by linarith
    with P obtain a w where w: "fresh u = Some (a, w)" "ok w" "avail u \<le> Suc (avail w)"
      "lookup w = lookup u" "a \<noteq> 0" "page_aligned a" using fresh_ok by blast
    from P k assms(2) w(3) have "0 < avail w" by linarith
    have "page_base a = a" using w(6) by (simp add: page_aligned_iff)
    from \<open>0 < avail w\<close> w(2) obtain z where z: "map_page (?va k) a w = Some z" "ok z" "avail w \<le> Suc (avail z)"
      "lookup z = (\<lambda>x. if same_page x (?va k) then Some (page_base a) else lookup w x)"
      using map_ok by blast
    have "avail v \<le> avail z + 2 * Suc k" using P w(3) z(3) by simp
    with P w z \<open>page_base a = a\<close> show ?thesis by (auto simp: less_Suc_eq)
  qed
  have "?P 0 v" using assms(1) by simp
  then have "\<exists>t. for_range 0 n (\<lambda>i v. do { (a, v) \<leftarrow> fresh v; map_page (?va i) a v }) v = Some t \<and> ?P n t"
    using step by (intro for_range_inv) auto
  then show ?thesis by blast
qed

end

definition kernel_map :: "u32 \<Rightarrow> u32 \<Rightarrow> vm \<Rightarrow> vm option" where
  "kernel_map va pa s = vmm_map (vmm_get_kernel_directory s) va pa (PAGE_PRESENT OR PAGE_WRITE) s"

definition kernel_lookup :: "vm \<Rightarrow> u32 \<Rightarrow> u32 option" where
  "kernel_lookup s v = map_option page_base (aspace s (kernel_dir s) v)"

definition frames_left :: "vm \<Rightarrow> nat" where
  "frames_left s = card (free_frames (pm s))"

definition kernel_ok :: "vm \<Rightarrow> bool" where
  "kernel_ok s \<longleftrightarrow> vm_ok s \<and> dir_ok s (kernel_dir s)"

lemma rw_flags [simp]: "(PAGE_PRESENT OR PAGE_WRITE) AND 0xFFF = PAGE_PRESENT OR PAGE_WRITE"
  by (simp add: flag_defs)

lemma frames_left_pos: "0 < frames_left s \<longleftrightarrow> free_frames (pm s) \<noteq> {}"
  by (auto simp: frames_left_def card_gt_0_iff)

interpretation kvm: kernel_space frame_alloc_vm kernel_map kernel_lookup frames_left kernel_ok
proof (unfold_locales, goal_cases)
  case (1 s)
  then have ok: "vm_ok s" "dir_ok s (kernel_dir s)" "free_frames (pm s) \<noteq> {}"
    by (simp_all add: kernel_ok_def frames_left_pos)
  obtain a t where t: "frame_alloc_vm s = Some (a, t)" "a \<in> free_frames (pm s)" "in_use t a"
    "free_frames (pm t) = free_frames (pm s) - {a}" "vm_ok t" "pmem t = pmem s" "kernel_dir t = kernel_dir s"
    by (rule frame_alloc_vm_some [OF ok(1,3)]) blast
  have "dir_ok t (kernel_dir t)"
    unfolding t(7) by (rule dir_ok_cong [OF ok(2)]) (use t in auto)
  moreover have "frames_left s \<le> Suc (frames_left t)"
    using t(2,4) by (simp add: frames_left_def)
  moreover have "kernel_lookup t = kernel_lookup s"
    using aspace_cong [OF t(6)] by (simp add: kernel_lookup_def t(7) fun_eq_iff)
  ultimately show ?case using t by (auto simp: kernel_ok_def in_use_def)
next
  case (2 s va pa)
  then have ok: "vm_ok s" "dir_ok s (kernel_dir s)"
    and room: "present (pde s (kernel_dir s) (pd_index va)) \<or> free_frames (pm s) \<noteq> {}"
    by (simp_all add: kernel_ok_def frames_left_pos)
  obtain t where t: "vmm_map (kernel_dir s) va pa (PAGE_PRESENT OR PAGE_WRITE) s = Some t" "vm_ok t"
    "dir_ok t (kernel_dir s)" "kernel_dir t = kernel_dir s"
    "aspace t (kernel_dir s) = (\<lambda>w. if same_page w va then Some (pte_for pa (PAGE_PRESENT OR PAGE_WRITE))
       else aspace s (kernel_dir s) w)"
    "\<exists>f. free_frames (pm s) \<subseteq> insert f (free_frames (pm t))"
    by (rule vmm_map_some [OF ok room]) blast
  from t(6) obtain f where "free_frames (pm s) \<subseteq> insert f (free_frames (pm t))" by blast
  then have "card (free_frames (pm s)) \<le> card (insert f (free_frames (pm t)))"
    by (intro card_mono) auto
  also have "\<dots> \<le> Suc (card (free_frames (pm t)))" by (simp add: card_insert_if)
  finally have "frames_left s \<le> Suc (frames_left t)" by (simp add: frames_left_def)
  moreover have "kernel_lookup t = (\<lambda>x. if same_page x va then Some (page_base pa) else kernel_lookup s x)"
    using t(5) by (auto simp: kernel_lookup_def t(4) fun_eq_iff)
  ultimately show ?case
    using t by (auto simp: kernel_ok_def kernel_map_def vmm_get_kernel_directory_def)
qed

section \<open>A booted machine for the witnesses\<close>

definition boot_vm :: vm where
  "boot_vm = the (vmm_init \<lparr>pm = boot_pmm, pmem = (\<lambda>_. 0), kernel_dir = 0, current_dir = 0,
     cr3 = 0, paging_on = False\<rparr>)"

lemma boot_frames_card: "704 \<le> card (free_frames boot_pmm)"
proof -
  let ?f = "\<lambda>k. of_nat (4096 * k) :: u32"
  have un: "unat (?f k) = 4096 * k" if "k < 1024" for k
    using that by (intro unat_of_nat_small) simp
  have "inj_on ?f {320..<1024}"
  proof (rule inj_onI)
    fix x y assume "x \<in> {320..<1024}" "y \<in> {320..<1024}" "?f x = ?f y"
    then show "x = y" using un [of x] un [of y] by simp
  qed
  then have "704 = card (?f ` {320..<1024})" by (simp add: card_image)
  also have "\<dots> \<le> card (free_frames boot_pmm)"
  proof (rule card_mono [OF finite_free_frames], rule image_subsetI)
    fix k assume k: "k \<in> {320..<1024 :: nat}"
    then have "unat (?f k) = 4096 * k" by (intro un) simp
    with k show "?f k \<in> free_frames boot_pmm"
      by (simp only: boot_pmm(4) mem_Collect_eq page_aligned_def) simp
  qed
  finally show ?thesis .
qed

abbreviation cold_vm :: vm where
  "cold_vm \<equiv> \<lparr>pm = boot_pmm, pmem = (\<lambda>_. 0), kernel_dir = 0, current_dir = 0, cr3 = 0, paging_on = False\<rparr>"

lemma cold_vm: "vm_ok cold_vm" "2 \<le> card (free_frames (pm cold_vm))"
  using boot_pmm(2) boot_frames_card by (simp_all add: vm_ok_def)

lemma boot_vm:
  shows "vmm_init cold_vm = Some boot_vm" and "vm_ok boot_vm" and "dir_ok boot_vm (kernel_dir boot_vm)"
    and "aspace boot_vm (kernel_dir boot_vm) = identity_upto 1024"
    and "702 \<le> card (free_frames (pm boot_vm))"
    and "card (user_entries boot_vm (kernel_dir boot_vm) 0) < card (free_frames (pm boot_vm))"
    and "in_bitmap boot_vm (kernel_dir boot_vm)"
proof -
  obtain s where s: "vmm_init cold_vm = Some s" "vm_ok s" "dir_ok s (kernel_dir s)"
    "aspace s (kernel_dir s) = identity_upto 1024"
    "\<And>i. i < 1024 \<Longrightarrow> i \<noteq> 0 \<Longrightarrow> pde s (kernel_dir s) i = 0"
    "card (free_frames (pm cold_vm)) \<le> card (free_frames (pm s)) + 2"
    "unat (kernel_dir s) div 4096 < 65536" "unat (pde s (kernel_dir s) 0) div 4096 < 65536"
    by (rule vmm_init_ok [OF cold_vm]) blast
  then have eq: "boot_vm = s" by (simp add: boot_vm_def)
  have "user_entries s (kernel_dir s) 0 \<subseteq> {0}"
  proof
    fix i assume "i \<in> user_entries s (kernel_dir s) 0"
    then have i: "i < 768" "present (pde s (kernel_dir s) (of_nat i))" by (simp_all add: user_entries_def)
    then have "(of_nat i :: u32) = 0" using s(5) [of "of_nat i"] by (cases "(of_nat i :: u32) = 0") auto
    then have "unat (of_nat i :: u32) = 0" by simp
    with i(1) show "i \<in> {0}" by (simp add: unat_of_nat_index)
  qed
  then have "card (user_entries s (kernel_dir s) 0) \<le> 1"
    using card_mono [of "{0}" "user_entries s (kernel_dir s) 0"] by simp
  moreover have "in_bitmap s (kernel_dir s)"
  proof -
    have "page_no (pde s (kernel_dir s) i) < 65536" if "i < 1024" for i
      using s(5,8) that by (cases "i = 0") (simp_all add: page_no_def)
    moreover have "page_no e < 65536" if "identity_upto 1024 v = Some e" for v e
    proof -
      from that have v: "unat v < 4194304" "e = pte_for v (PAGE_PRESENT OR PAGE_WRITE)"
        by (simp_all add: identity_upto_def split: if_splits)
      then have "page_no e = page_no v" using page_no_base [of e] by simp
      with v(1) show ?thesis by (simp add: page_no_def)
    qed
    ultimately show ?thesis using s(4,7) by (simp add: in_bitmap_def page_no_def)
  qed
  ultimately show "vmm_init cold_vm = Some boot_vm" "vm_ok boot_vm"
    "dir_ok boot_vm (kernel_dir boot_vm)" "aspace boot_vm (kernel_dir boot_vm) = identity_upto 1024"
    "702 \<le> card (free_frames (pm boot_vm))"
    "card (user_entries boot_vm (kernel_dir boot_vm) 0) < card (free_frames (pm boot_vm))"
    "in_bitmap boot_vm (kernel_dir boot_vm)"
    using s boot_frames_card unfolding eq by simp_all
qed

lemma boot_vm_room: "free_frames (pm boot_vm) \<noteq> {}"
  using boot_vm(5) by auto


section \<open>Properties\<close>





text \<open>
  \<^verbatim>\<open>vmm_unmap\<close> removes exactly one page from the address space and frees nothing.
\<close>

theorem vmm_unmap_removes_page:
  assumes "dir_ok s pd"
  shows "\<exists>t. vmm_unmap pd virt s = Some t \<and> dir_ok t pd \<and> pm t = pm s
    \<and> aspace t pd = (\<lambda>w. if same_page w virt then None else aspace s pd w)"
  using vmm_unmap_some [OF assms] by metis

theorem vmm_unmap_removes_page_witness:
  "\<exists>t. vmm_unmap (kernel_dir boot_vm) 0x3000 boot_vm = Some t
    \<and> aspace t (kernel_dir boot_vm) 0x3FFF = None"
proof -
  have "same_page 0x3FFF 0x3000" by (simp add: same_page_unat)
  with vmm_unmap_removes_page [OF boot_vm(3), of "0x3000"] show ?thesis by auto
qed

text \<open>
  \<^verbatim>\<open>vmm_get_physical\<close> does not look at the present bit of the page-table entry: for a
  page that has just been unmapped it answers the offset of the address within the page, as
  if the page were mapped to frame 0, not the 0 it answers when the table is missing.
\<close>

theorem vmm_get_physical_of_unmapped_page:
  assumes "dir_ok s pd" and "present (pde s pd (pd_index virt))"
  shows "\<exists>t. vmm_unmap pd virt s = Some t \<and> aspace t pd virt = None
    \<and> vmm_get_physical pd virt t = Some (virt AND 0xFFF)"
proof -
  obtain t where t: "vmm_unmap pd virt s = Some t" "dir_ok t pd"
    "aspace t pd = (\<lambda>w. if same_page w virt then None else aspace s pd w)"
    "\<And>i. i < 1024 \<Longrightarrow> pde t pd i = pde s pd i"
    "present (pde s pd (pd_index virt)) \<Longrightarrow>
       pmem t (entry_at (page_base (pde s pd (pd_index virt))) (pt_index virt)) = 0"
    by (rule vmm_unmap_some [OF assms(1)]) blast
  have "page_base 0 = 0" by (simp add: page_base_def)
  with t assms(2) have "vmm_get_physical pd virt t = Some (virt AND 0xFFF)"
    by (simp add: vmm_get_physical_total)
  moreover have "aspace t pd virt = None" using t(3) by (simp add: same_page_def)
  ultimately show ?thesis using t(1) by blast
qed

lemma boot_vm_low_table: "present (pde boot_vm (kernel_dir boot_vm) 0)"
proof -
  have "aspace boot_vm (kernel_dir boot_vm) 0 \<noteq> None" by (simp add: boot_vm(4) identity_upto_def)
  moreover have "pd_index 0 = 0" by (simp add: pd_index_def)
  ultimately show ?thesis by (auto simp: aspace_def Let_def split: if_splits)
qed

theorem vmm_get_physical_of_unmapped_page_witness:
  "\<exists>t. vmm_unmap (kernel_dir boot_vm) 0x3ABC boot_vm = Some t
    \<and> vmm_get_physical (kernel_dir boot_vm) 0x3ABC t = Some 0xABC"
proof -
  have "pd_index 0x3ABC = 0" by (simp add: pd_index_def)
  then have "present (pde boot_vm (kernel_dir boot_vm) (pd_index 0x3ABC))"
    using boot_vm_low_table by simp
  from vmm_get_physical_of_unmapped_page [OF boot_vm(3) this] show ?thesis by auto
qed

text \<open>
  C7. \<^verbatim>\<open>vmm_clone\<close>, given frames for the new directory and its tables, gives parent and child
  the same user pages, mapped to the same frames, none of them writable and all marked
  copy-on-write; the kernel quarter is shared as it is, and nothing else is mapped.
\<close>

theorem vmm_clone_copy_on_write:
  assumes "vm_ok s" and "dir_ok s src" and "dir_ok s (kernel_dir s)"
    and "\<forall>i<1024. 768 \<le> i \<longrightarrow> pde s src i = pde s (kernel_dir s) i"
    and "card (user_entries s src 0) < card (free_frames (pm s))"
  shows "\<exists>dst t. vmm_clone src s = Some (dst, t) \<and> vm_ok t \<and> dir_ok t src \<and> dir_ok t dst \<and> dst \<noteq> src
    \<and> (\<forall>v. aspace t src v = (if pd_index v < 768 then map_option cow (aspace s src v) else aspace s src v))
    \<and> aspace t dst = aspace t src"
proof -
  obtain dst t where t: "vmm_clone src s = Some (dst, t)" "cloning s src dst 768 t"
    using vmm_clone_some [OF assms(1-3) _ assms(5)] assms(4) by blast
  note D = cloningD [OF t(2)]
  have user: "unat (pd_index v) < 768 \<longleftrightarrow> pd_index v < 768" for v by (simp add: word_less_nat_alt)
  have "aspace t dst = aspace t src"
    unfolding D(12,13) user by (auto simp: fun_eq_iff not_less)
  moreover have "\<forall>v. aspace t src v
      = (if pd_index v < 768 then map_option cow (aspace s src v) else aspace s src v)"
    unfolding D(12) user by simp
  ultimately show ?thesis using t(1) D(1-4) by blast
qed

theorem vmm_clone_copy_on_write_witness:
  "\<exists>dst t. vmm_clone (kernel_dir boot_vm) boot_vm = Some (dst, t)
    \<and> aspace t dst 0x100000 = Some (cow (pte_for 0x100000 (PAGE_PRESENT OR PAGE_WRITE)))
    \<and> aspace t (kernel_dir boot_vm) 0x100000 = aspace t dst 0x100000"
proof -
  have "pd_index 0x100000 < 768" by (simp add: pd_index_def)
  moreover have "aspace boot_vm (kernel_dir boot_vm) 0x100000
      = Some (pte_for 0x100000 (PAGE_PRESENT OR PAGE_WRITE))"
    by (simp add: boot_vm(4) identity_upto_def)
  ultimately show ?thesis
    using vmm_clone_copy_on_write [OF boot_vm(2,3,3) _ boot_vm(6)] by auto
qed

lemma in_bitmap_clone:
  assumes "cloning s src dst 768 t" and "in_bitmap s src" and "vm_ok s" and "dst \<in> free_frames (pm s)"
  shows "in_bitmap t dst"
proof -
  note D = cloningD [OF assms(1)]
  have user: "\<not> unat i < 768 \<Longrightarrow> 768 \<le> i" "unat i < 768 \<Longrightarrow> i < 768" for i :: u32
    by (simp_all add: word_le_nat_alt word_less_nat_alt)
  have fr: "page_no a < 65536" if "a \<in> free_frames (pm s)" for a
    using assms(3) that free_framesD(3) [of "pm s" a] pmm_invD(2) [of "pm s"]
    by (auto simp: vm_ok_def page_no_def)
  have old: "page_no e < 65536" if "aspace s src v = Some e" for v e
    using assms(2) that by (auto simp: in_bitmap_def)
  have no_cow: "page_no (cow e) = page_no e" for e
    using page_no_base [of "cow e"] page_no_base [of e] by simp
  show ?thesis unfolding in_bitmap_def
  proof (intro conjI allI impI)
    show "page_no dst < 65536" by (rule fr [OF assms(4)])
    show "page_no (pde t dst i) < 65536" if "i < 1024" "present (pde t dst i)" for i
    proof (cases "unat i < 768")
      case True
      then have "page_base (pde t dst i) \<in> free_frames (pm s)" using D(16) [OF user(2)] that by simp
      from fr [OF this] show ?thesis by simp
    next
      case False
      then have "pde t dst i = pde s src i" using D(7) that user(1) by blast
      with that assms(2) show ?thesis by (simp add: in_bitmap_def)
    qed
    show "page_no e < 65536" if "aspace t dst v = Some e" for v e
      using that unfolding D(13) by (auto split: if_splits simp: no_cow dest: old)
  qed
qed

text \<open>
  C23. Frames shared by \<^verbatim>\<open>vmm_clone\<close> have no reference count: destroying the clone gives the
  frames of every user page back to the allocator while the original directory still maps
  them, so they can be handed out a second time.
\<close>

theorem destroy_clone_frees_shared_frames:
  assumes "vm_ok s" and "dir_ok s src" and "dir_ok s (kernel_dir s)"
    and "\<forall>i<1024. 768 \<le> i \<longrightarrow> pde s src i = pde s (kernel_dir s) i"
    and "card (user_entries s src 0) < card (free_frames (pm s))" and "in_bitmap s src"
  shows "\<exists>dst t u. vmm_clone src s = Some (dst, t) \<and> vmm_destroy_directory dst t = Some u
    \<and> (\<forall>v e. pd_index v < 768 \<longrightarrow> aspace s src v = Some e \<longrightarrow>
         aspace u src v = Some (cow e) \<and> \<not> page_used (pm u) (page_no (cow e)))"
proof -
  obtain dst t where t: "vmm_clone src s = Some (dst, t)" "cloning s src dst 768 t"
    "dst \<in> free_frames (pm s)"
    using vmm_clone_some [OF assms(1-3) _ assms(5)] assms(4) by blast
  note D = cloningD [OF t(2)]
  have inb: "in_bitmap t dst" by (rule in_bitmap_clone [OF t(2) assms(6,1) t(3)])
  have "bitmap_ok t" using D(1) pmm_invD(1) by (simp add: vm_ok_def bitmap_ok_def)
  then obtain u where u: "vmm_destroy_directory dst t = Some u"
    "freeing t (\<lambda>m. dir_pages t dst 768 m \<or> m = page_no dst) u"
    using vmm_destroy_freeing [OF _ D(3) inb] by blast
  have "aspace u src v = Some (cow e) \<and> \<not> page_used (pm u) (page_no (cow e))"
    if v: "pd_index v < 768" "aspace s src v = Some e" for v e
  proof -
    have lt: "unat (pd_index v) < 768" using v(1) by (simp add: word_less_nat_alt)
    have "aspace t src v = Some (cow e)" "aspace t dst v = Some (cow e)"
      using v lt unfolding D(12,13) by simp_all
    moreover from this(2) inb have "page_no (cow e) < 65536" by (auto simp: in_bitmap_def)
    moreover have "aspace u src = aspace t src"
      using u(2) by (intro aspace_cong) (simp add: freeing_def)
    ultimately show ?thesis
      using u(2) aspace_dir_pages [of t dst v "cow e"] v(1) by (simp add: freeing_def)
  qed
  with t(1) u(1) show ?thesis by blast
qed

theorem destroy_clone_frees_shared_frames_witness:
  "\<exists>dst t u e. vmm_clone (kernel_dir boot_vm) boot_vm = Some (dst, t)
    \<and> vmm_destroy_directory dst t = Some u
    \<and> aspace u (kernel_dir boot_vm) 0x200000 = Some e \<and> page_base e = 0x200000
    \<and> \<not> page_used (pm u) 0x200"
proof -
  let ?e = "pte_for 0x200000 (PAGE_PRESENT OR PAGE_WRITE)"
  have "pd_index 0x200000 < 768" by (simp add: pd_index_def)
  moreover have "aspace boot_vm (kernel_dir boot_vm) 0x200000 = Some ?e"
    by (simp add: boot_vm(4) identity_upto_def)
  moreover have "page_base 0x200000 = 0x200000" by (simp add: page_base_def)
  moreover from this have "page_no (cow ?e) = 0x200"
    using page_no_base [of "cow ?e"] by (simp add: page_no_def)
  ultimately show ?thesis
    using destroy_clone_frees_shared_frames [OF boot_vm(2,3,3) _ boot_vm(6,7)] by fastforce
qed

text \<open>
  A directory that \<^verbatim>\<open>vmm_create_directory\<close> makes shares exactly the kernel quarter
  (entries 768 to 1023) of the kernel directory. Right after \<^verbatim>\<open>vmm_init\<close> that quarter is empty,
  since the kernel runs at 1 MB: the new directory maps nothing at all, not even the kernel
  that would have to run on it.
\<close>

theorem vmm_create_directory_after_boot:
  assumes "vm_ok s" and "3 \<le> card (free_frames (pm s))"
  shows "\<exists>t d u. vmm_init s = Some t \<and> vmm_create_directory t = Some (d, u)
    \<and> dir_ok u d \<and> (\<forall>v. aspace u d v = None)"
proof -
  from assms(2) have two: "2 \<le> card (free_frames (pm s))" by simp
  obtain t where t: "vmm_init s = Some t" "vm_ok t" "dir_ok t (kernel_dir t)"
    "\<And>i. i < 1024 \<Longrightarrow> i \<noteq> 0 \<Longrightarrow> pde t (kernel_dir t) i = 0"
    "card (free_frames (pm s)) \<le> card (free_frames (pm t)) + 2"
    by (rule vmm_init_ok [OF assms(1) two]) blast
  have ne: "free_frames (pm t) \<noteq> {}" using t(5) assms(2) by auto
  obtain d u where u: "vmm_create_directory t = Some (d, u)" "dir_ok u d"
    "\<And>i. i < 1024 \<Longrightarrow> pde u d i = (if 768 \<le> i then pde t (kernel_dir t) i else 0)"
    by (rule create_directory_some [OF t(2,3) ne]) blast
  have "pde u d i = 0" if "i < 1024" for i
    using u(3) [OF that] t(4) [OF that] by (cases "i = 0") auto
  then have "aspace u d v = None" for v by (simp add: aspace_def)
  with t(1) u(1,2) show ?thesis by blast
qed

theorem vmm_create_directory_after_boot_witness:
  "\<exists>t d u. vmm_init cold_vm = Some t \<and> vmm_create_directory t = Some (d, u)
    \<and> aspace u d 0x100000 = None"
proof -
  have "3 \<le> card (free_frames (pm cold_vm))" using boot_frames_card by simp
  from vmm_create_directory_after_boot [OF cold_vm(1) this] show ?thesis by blast
qed

end
