(* ===== verification/Bytes.thy ===== *)
theory Bytes
  imports Prelude
begin

text \<open>
  Byte memory, as the CPU has it: a 32-bit access at an address touches four bytes, the low
  one first. The lemmas are the laws of reading after writing that the heap rests on, stated
  for accesses that do not run over the end of the address space.
\<close>

type_synonym bytes = "u32 \<Rightarrow> u8"

definition rd32 :: "bytes \<Rightarrow> u32 \<Rightarrow> u32" where
  "rd32 m a = ucast (m a) OR push_bit 8 (ucast (m (a + 1))) OR push_bit 16 (ucast (m (a + 2)))
     OR push_bit 24 (ucast (m (a + 3)))"

definition wr32 :: "bytes \<Rightarrow> u32 \<Rightarrow> u32 \<Rightarrow> bytes" where
  "wr32 m a v = m(a := ucast v, a + 1 := ucast (drop_bit 8 v), a + 2 := ucast (drop_bit 16 v),
     a + 3 := ucast (drop_bit 24 v))"

lemma word_split4:
  "(ucast (ucast v :: u8) OR push_bit 8 (ucast (ucast (drop_bit 8 v) :: u8))
     OR push_bit 16 (ucast (ucast (drop_bit 16 v) :: u8))
     OR push_bit 24 (ucast (ucast (drop_bit 24 v) :: u8)) :: u32) = v"
proof (rule bit_eqI)
  fix n assume "possible_bit TYPE(u32) n"
  then have "n < 32" by simp
  then consider "n < 8" | "8 \<le> n" "n < 16" | "16 \<le> n" "n < 24" | "24 \<le> n" "n < 32" by linarith
  then show "bit (ucast (ucast v :: u8) OR push_bit 8 (ucast (ucast (drop_bit 8 v) :: u8))
     OR push_bit 16 (ucast (ucast (drop_bit 16 v) :: u8))
     OR push_bit 24 (ucast (ucast (drop_bit 24 v) :: u8)) :: u32) n = bit v n"
    by cases (auto simp: bit_simps)
qed

lemma rd32_wr32_same [simp]: "rd32 (wr32 m a v) a = v"
proof -
  have "a + 1 \<noteq> a" "a + 2 \<noteq> a" "a + 3 \<noteq> a" "a + 2 \<noteq> a + 1" "a + 3 \<noteq> a + 1" "a + 3 \<noteq> a + 2"
    by simp_all
  then show ?thesis by (simp add: rd32_def wr32_def word_split4)
qed

lemma wr32_byte:
  assumes "unat a + 4 \<le> 4294967296" and "unat c < unat a \<or> unat a + 4 \<le> unat c"
  shows "wr32 m a v c = m c"
proof -
  have "unat (a + 1) = unat a + 1" "unat (a + 2) = unat a + 2" "unat (a + 3) = unat a + 3"
    using assms(1) by (simp_all add: unat_add_small)
  with assms(2) show ?thesis by (auto simp: wr32_def u32_eq_iff_unat)
qed

lemma rd32_cong:
  assumes "unat a + 4 \<le> 4294967296"
    and "\<And>c. unat a \<le> unat c \<Longrightarrow> unat c < unat a + 4 \<Longrightarrow> m' c = m c"
  shows "rd32 m' a = rd32 m a"
proof -
  have "unat (a + 1) = unat a + 1" "unat (a + 2) = unat a + 2" "unat (a + 3) = unat a + 3"
    using assms(1) by (simp_all add: unat_add_small)
  then show ?thesis by (simp add: rd32_def assms(2))
qed

lemma rd32_wr32_other:
  assumes "unat a + 4 \<le> 4294967296" "unat b + 4 \<le> 4294967296"
    and "unat a + 4 \<le> unat b \<or> unat b + 4 \<le> unat a"
  shows "rd32 (wr32 m a v) b = rd32 m b"
  by (rule rd32_cong [OF assms(2)], rule wr32_byte [OF assms(1)]) (use assms(3) in auto)

end
