(* ===== verification/Heap.thy ===== *)
theory Heap
  imports Vmm Bytes
begin

text \<open>
  The kernel heap, \<^verbatim>\<open>mm/heap.c\<close>: a first-fit allocator over a doubly linked list of blocks
  that tile the range from \<open>HEAP_START\<close> to \<open>heap_brk\<close>. The memory is bytes, the block headers
  are the words the code reads and writes in it; an access faults (\<open>None\<close>) when the kernel
  directory does not map its page to a frame. The abstraction \<open>blocks\<close> is the list of sizes
  and free flags in address order; every operation is proved to be its counterpart on that
  list. The interface \<open>allocator\<close> states what the clients rely on.
\<close>

section \<open>State and memory access\<close>

record heap =
  hvm :: vm
  hmem :: bytes
  heap_head :: u32
  heap_brk :: u32

definition HEAP_START :: u32 where "HEAP_START = 0x01000000"
definition HEAP_MAGIC :: u32 where "HEAP_MAGIC = 0xCAFEBABE"

text \<open>The members of \<^verbatim>\<open>struct block_header\<close> and their offsets.\<close>

datatype hfield = Magic | Size | Free | Next | Prev

fun off :: "hfield \<Rightarrow> u32" where
  "off Magic = 0"
| "off Size = 4"
| "off Free = 8"
| "off Next = 12"
| "off Prev = 16"

definition HDR :: u32 where "HDR = 20"

text \<open>
  A page that \<^verbatim>\<open>heap_expand\<close> mapped to the NULL that \<^verbatim>\<open>pmm_alloc\<close> gave has no frame of its own.
\<close>

definition backed :: "heap \<Rightarrow> u32 \<Rightarrow> bool" where
  "backed s a = (case kernel_lookup (hvm s) a of None \<Rightarrow> False | Some f \<Rightarrow> f \<noteq> 0)"

definition get_field :: "hfield \<Rightarrow> u32 \<Rightarrow> heap \<Rightarrow> u32 option" where
  "get_field f h s =
     (if h \<noteq> 0 \<and> backed s (h + off f) \<and> backed s (h + off f + 3)
      then Some (rd32 (hmem s) (h + off f)) else None)"

definition put_field :: "hfield \<Rightarrow> u32 \<Rightarrow> u32 \<Rightarrow> heap \<Rightarrow> heap option" where
  "put_field f h v s =
     (if h \<noteq> 0 \<and> backed s (h + off f) \<and> backed s (h + off f + 3)
      then Some (s\<lparr>hmem := wr32 (hmem s) (h + off f) v\<rparr>) else None)"

definition get_byte :: "u32 \<Rightarrow> heap \<Rightarrow> u8 option" where
  "get_byte a s = (if a \<noteq> 0 \<and> backed s a then Some (hmem s a) else None)"

definition put_byte :: "u32 \<Rightarrow> u8 \<Rightarrow> heap \<Rightarrow> heap option" where
  "put_byte a v s = (if a \<noteq> 0 \<and> backed s a then Some (s\<lparr>hmem := (hmem s)(a := v)\<rparr>) else None)"

section \<open>Operations\<close>

definition heap_expand :: "u32 \<Rightarrow> heap \<Rightarrow> heap option" where
  "heap_expand nbytes s =
     (let needed = (nbytes + PAGE_SIZE - 1) AND NOT (PAGE_SIZE - 1) in do {
        v \<leftarrow> for_range 0 (unat needed div 4096) (\<lambda>i v. do {
               (phys, v) \<leftarrow> frame_alloc_vm v;
               kernel_map (heap_brk s + of_nat i * PAGE_SIZE) phys v }) (hvm s);
        Some (s\<lparr>hvm := v, heap_brk := heap_brk s + needed\<rparr>)
      })"

definition heap_init :: "heap \<Rightarrow> heap option" where
  "heap_init s = do {
     s \<leftarrow> heap_expand PAGE_SIZE s;
     let s = s\<lparr>heap_head := HEAP_START\<rparr>;
     s \<leftarrow> put_field Magic (heap_head s) HEAP_MAGIC s;
     s \<leftarrow> put_field Size (heap_head s) (PAGE_SIZE - HDR) s;
     s \<leftarrow> put_field Free (heap_head s) 1 s;
     s \<leftarrow> put_field Next (heap_head s) 0 s;
     put_field Prev (heap_head s) 0 s
   }"

text \<open>\<^verbatim>\<open>p && p->free\<close>\<close>

definition is_free :: "u32 \<Rightarrow> heap \<Rightarrow> bool option" where
  "is_free p s = (if p = 0 then Some False else do { f \<leftarrow> get_field Free p s; Some (f \<noteq> 0) })"

text \<open>\<^verbatim>\<open>if (p) p->prev = b\<close>\<close>

definition set_prev :: "u32 \<Rightarrow> u32 \<Rightarrow> heap \<Rightarrow> heap option" where
  "set_prev p b s = (if p = 0 then Some s else put_field Prev p b s)"

definition coalesce_next :: "u32 \<Rightarrow> heap \<Rightarrow> heap option" where
  "coalesce_next b s = do {
     n \<leftarrow> get_field Next b s;
     fr \<leftarrow> is_free n s;
     if fr then do {
       bs \<leftarrow> get_field Size b s;
       ns \<leftarrow> get_field Size n s;
       s \<leftarrow> put_field Size b (bs + (HDR + ns)) s;
       n \<leftarrow> get_field Next b s;
       nn \<leftarrow> get_field Next n s;
       s \<leftarrow> put_field Next b nn s;
       set_prev nn b s
     } else Some s
   }"

definition coalesce_prev :: "u32 \<Rightarrow> heap \<Rightarrow> heap option" where
  "coalesce_prev b s = do {
     p \<leftarrow> get_field Prev b s;
     fr \<leftarrow> is_free p s;
     if fr then do {
       ps \<leftarrow> get_field Size p s;
       bs \<leftarrow> get_field Size b s;
       s \<leftarrow> put_field Size p (ps + (HDR + bs)) s;
       n \<leftarrow> get_field Next b s;
       s \<leftarrow> put_field Next p n s;
       n \<leftarrow> get_field Next b s;
       set_prev n p s
     } else Some s
   }"

definition coalesce :: "u32 \<Rightarrow> heap \<Rightarrow> heap option" where
  "coalesce b s = do { s \<leftarrow> coalesce_next b s; coalesce_prev b s }"

text \<open>The search of \<^verbatim>\<open>kmalloc\<close>: the first block that is free and large enough, or NULL.\<close>

partial_function (option) first_fit :: "u32 \<Rightarrow> u32 \<Rightarrow> heap \<Rightarrow> u32 option" where
  "first_fit req cur s =
     (if cur = 0 then Some 0 else do {
        fr \<leftarrow> get_field Free cur s;
        fits \<leftarrow> (if fr \<noteq> 0 then do { csz \<leftarrow> get_field Size cur s; Some (req \<le> csz) }
                 else Some False);
        if fits then Some cur
        else do { n \<leftarrow> get_field Next cur s; first_fit req n s }
      })"

text \<open>The body for a block that fits: split it when the rest can hold a block, and take it.\<close>

definition take_block :: "u32 \<Rightarrow> u32 \<Rightarrow> heap \<Rightarrow> (u32 \<times> heap) option" where
  "take_block cur req s = do {
     csz \<leftarrow> get_field Size cur s;
     s \<leftarrow> (if req + HDR + 8 \<le> csz then do {
              let split = cur + HDR + req;
              s \<leftarrow> put_field Magic split HEAP_MAGIC s;
              csz \<leftarrow> get_field Size cur s;
              s \<leftarrow> put_field Size split (csz - req - HDR) s;
              s \<leftarrow> put_field Free split 1 s;
              n \<leftarrow> get_field Next cur s;
              s \<leftarrow> put_field Next split n s;
              s \<leftarrow> put_field Prev split cur s;
              n \<leftarrow> get_field Next cur s;
              s \<leftarrow> set_prev n split s;
              s \<leftarrow> put_field Next cur split s;
              put_field Size cur req s
            } else Some s);
     s \<leftarrow> put_field Free cur 0 s;
     Some (cur + HDR, s)
   }"

partial_function (option) last_block :: "u32 \<Rightarrow> heap \<Rightarrow> u32 option" where
  "last_block b s = do {
     n \<leftarrow> get_field Next b s;
     if n \<noteq> 0 then last_block n s else Some b
   }"

text \<open>The growth of the list by one block of fresh pages.\<close>

definition grow :: "u32 \<Rightarrow> heap \<Rightarrow> heap option" where
  "grow req s =
     (let expand = req + HDR + PAGE_SIZE; old_brk = heap_brk s in do {
        s \<leftarrow> heap_expand expand s;
        let newb = old_brk;
        s \<leftarrow> put_field Magic newb HEAP_MAGIC s;
        s \<leftarrow> put_field Size newb (heap_brk s - old_brk - HDR) s;
        s \<leftarrow> put_field Free newb 1 s;
        s \<leftarrow> put_field Next newb 0 s;
        s \<leftarrow> put_field Prev newb 0 s;
        last \<leftarrow> last_block (heap_head s) s;
        s \<leftarrow> put_field Next last newb s;
        s \<leftarrow> put_field Prev newb last s;
        coalesce newb s
      })"

partial_function (option) kmalloc :: "u32 \<Rightarrow> heap \<Rightarrow> (u32 \<times> heap) option" where
  "kmalloc n s =
     (if n = 0 then Some (0, s)
      else do {
        let req = (n + 7) AND NOT 7;
        cur \<leftarrow> first_fit req (heap_head s) s;
        if cur \<noteq> 0 then take_block cur req s
        else do { s \<leftarrow> grow req s; kmalloc req s }
      })"

definition kmalloc_aligned :: "u32 \<Rightarrow> u32 \<Rightarrow> heap \<Rightarrow> (u32 \<times> heap) option" where
  "kmalloc_aligned sz align s = do {
     (ptr, s) \<leftarrow> kmalloc (sz + align) s;
     Some ((ptr + align - 1) AND NOT (align - 1), s)
   }"

definition kfree :: "u32 \<Rightarrow> heap \<Rightarrow> heap option" where
  "kfree ptr s =
     (if ptr = 0 then Some s
      else let hdr = ptr - HDR in do {
        mg \<leftarrow> get_field Magic hdr s;
        if mg \<noteq> HEAP_MAGIC then Some s
        else do { s \<leftarrow> put_field Free hdr 1 s; coalesce hdr s }
      })"

text \<open>The copy loop reads \<^verbatim>\<open>hdr->size\<close> again in every round.\<close>

partial_function (option) copy_block :: "u32 \<Rightarrow> u32 \<Rightarrow> u32 \<Rightarrow> u32 \<Rightarrow> heap \<Rightarrow> heap option" where
  "copy_block i hdr dst src s = do {
     n \<leftarrow> get_field Size hdr s;
     if i < n then do {
       b \<leftarrow> get_byte (src + i) s;
       s \<leftarrow> put_byte (dst + i) b s;
       copy_block (i + 1) hdr dst src s
     } else Some s
   }"

definition krealloc :: "u32 \<Rightarrow> u32 \<Rightarrow> heap \<Rightarrow> (u32 \<times> heap) option" where
  "krealloc ptr new_size s =
     (if ptr = 0 then kmalloc new_size s
      else let hdr = ptr - HDR in do {
        sz \<leftarrow> get_field Size hdr s;
        if new_size \<le> sz then Some (ptr, s)
        else do {
          (newp, s) \<leftarrow> kmalloc new_size s;
          if newp = 0 then Some (0, s)
          else do {
            s \<leftarrow> copy_block 0 hdr newp ptr s;
            s \<leftarrow> kfree ptr s;
            Some (newp, s)
          }
        }
      })"

section \<open>Fields of a header in memory\<close>

definition rdf :: "bytes \<Rightarrow> u32 \<Rightarrow> hfield \<Rightarrow> u32" where
  "rdf m h f = rd32 m (h + off f)"

definition wrf :: "u32 \<Rightarrow> hfield \<Rightarrow> u32 \<Rightarrow> bytes \<Rightarrow> bytes" where
  "wrf h f v m = wr32 m (h + off f) v"

lemma off_bounds: "unat (off f) \<le> 16" "off f = off g \<longleftrightarrow> f = g"
  "f \<noteq> g \<Longrightarrow> unat (off f) + 4 \<le> unat (off g) \<or> unat (off g) + 4 \<le> unat (off f)"
  by (cases f; cases g; simp)+

lemma unat_off: "unat h + 20 \<le> 4294967296 \<Longrightarrow> unat (h + off f) = unat h + unat (off f)"
  using off_bounds(1) [of f] by (intro unat_add_small) simp

lemma rdf_wrf:
  assumes "unat h + 20 \<le> 4294967296" and "unat g + 20 \<le> 4294967296"
    and "g = h \<or> unat h + 20 \<le> unat g \<or> unat g + 20 \<le> unat h"
  shows "rdf (wrf h f v m) g e = (if g = h \<and> e = f then v else rdf m g e)"
proof (cases "g = h \<and> e = f")
  case False
  have "unat (h + off f) + 4 \<le> unat (g + off e) \<or> unat (g + off e) + 4 \<le> unat (h + off f)"
    using False assms off_bounds(1) [of e] off_bounds(1) [of f] off_bounds(3) [of e f]
    by (auto simp: unat_off)
  then have "rd32 (wr32 m (h + off f) v) (g + off e) = rd32 m (g + off e)"
    using assms off_bounds(1) [of e] off_bounds(1) [of f]
    by (intro rd32_wr32_other) (auto simp: unat_off)
  with False show ?thesis by (auto simp: rdf_def wrf_def)
qed (simp add: rdf_def wrf_def)

lemma rdf_wrf_same [simp]:
  "unat h + 20 \<le> 4294967296 \<Longrightarrow> rdf (wrf h f v m) h e = (if e = f then v else rdf m h e)"
  by (simp add: rdf_wrf)

lemma wrf_byte:
  assumes "unat h + 20 \<le> 4294967296" and "unat c < unat h \<or> unat h + 20 \<le> unat c"
  shows "wrf h f v m c = m c"
  unfolding wrf_def using assms off_bounds(1) [of f] by (intro wr32_byte) (auto simp: unat_off)

lemma rdf_cong:
  assumes "unat h + 20 \<le> 4294967296"
    and "\<And>c. unat h \<le> unat c \<Longrightarrow> unat c < unat h + 20 \<Longrightarrow> m' c = m c"
  shows "rdf m' h f = rdf m h f"
  unfolding rdf_def using assms off_bounds(1) [of f] by (intro rd32_cong) (auto simp: unat_off)

definition hdr_backed :: "heap \<Rightarrow> u32 \<Rightarrow> bool" where
  "hdr_backed s h \<longleftrightarrow> h \<noteq> 0 \<and> unat h + 20 \<le> 4294967296
     \<and> (\<forall>c. unat h \<le> unat c \<longrightarrow> unat c < unat h + 20 \<longrightarrow> backed s c)"

lemma backed_mem [simp]:
  "backed (s\<lparr>hmem := m\<rparr>) = backed s" "hdr_backed (s\<lparr>hmem := m\<rparr>) = hdr_backed s"
  by (simp_all add: backed_def hdr_backed_def fun_eq_iff)

lemma hdr_backedD:
  assumes "hdr_backed s h"
  shows "h \<noteq> 0" "unat h + 20 \<le> 4294967296" "backed s (h + off f)" "backed s (h + off f + 3)"
proof -
  from assms show h: "h \<noteq> 0" "unat h + 20 \<le> 4294967296" by (simp_all add: hdr_backed_def)
  have o: "unat (h + off f) = unat h + unat (off f)" by (rule unat_off [OF h(2)])
  then have "unat (h + off f + 3) = unat h + unat (off f) + 3"
    using h(2) off_bounds(1) [of f] by (simp add: unat_add_small)
  with o assms off_bounds(1) [of f] show "backed s (h + off f)" "backed s (h + off f + 3)"
    by (simp_all add: hdr_backed_def)
qed

lemma get_field_ok [simp]: "hdr_backed s h \<Longrightarrow> get_field f h s = Some (rdf (hmem s) h f)"
  by (simp add: get_field_def hdr_backedD rdf_def)

lemma put_field_ok [simp]: "hdr_backed s h \<Longrightarrow> put_field f h v s = Some (s\<lparr>hmem := wrf h f v (hmem s)\<rparr>)"
  by (simp add: put_field_def hdr_backedD wrf_def)

section \<open>The list of blocks in memory\<close>

type_synonym blk = "nat \<times> bool"

text \<open>The address with a given number.\<close>

definition adr :: "nat \<Rightarrow> u32" where
  "adr n = of_nat n"

lemma unat_adr [simp]: "n < 4294967296 \<Longrightarrow> unat (adr n) = n"
  by (simp add: adr_def unat_of_nat_small)

lemma adr_nz: "0 < n \<Longrightarrow> n < 4294967296 \<Longrightarrow> adr n \<noteq> 0"
  using unat_adr [of n] by force

lemma adr_unat: "adr (unat a) = a"
  by (simp add: adr_def)

definition span :: "blk list \<Rightarrow> nat" where
  "span bs = sum_list (map (\<lambda>b. 20 + fst b) bs)"

lemma span_simps [simp]: "span [] = 0" "span (b # bs) = 20 + fst b + span bs" "span (xs @ ys) = span xs + span ys"
  by (simp_all add: span_def)

definition header :: "bytes \<Rightarrow> nat \<Rightarrow> blk \<Rightarrow> u32 \<Rightarrow> u32 \<Rightarrow> bool" where
  "header m a b n p \<longleftrightarrow> (let h = adr a in rdf m h Magic = HEAP_MAGIC \<and> rdf m h Size = of_nat (fst b)
     \<and> rdf m h Free = (if snd b then 1 else 0) \<and> rdf m h Next = n \<and> rdf m h Prev = p)"

text \<open>
  The blocks \<open>bs\<close> lie back to back from address \<open>a\<close> on, linked both ways; \<open>p\<close> is the block
  before the first one, \<open>z\<close> the block after the last one.
\<close>

fun seg :: "bytes \<Rightarrow> u32 \<Rightarrow> nat \<Rightarrow> blk list \<Rightarrow> u32 \<Rightarrow> bool" where
  "seg m p a [] z \<longleftrightarrow> True"
| "seg m p a (b # bs) z \<longleftrightarrow>
     header m a b (if bs = [] then z else adr (a + (20 + fst b))) p
     \<and> seg m (adr a) (a + (20 + fst b)) bs z"

fun last_hd :: "u32 \<Rightarrow> nat \<Rightarrow> blk list \<Rightarrow> u32" where
  "last_hd p a [] = p"
| "last_hd p a (b # bs) = last_hd (adr a) (a + (20 + fst b)) bs"

lemma last_hd_snoc [simp]: "last_hd p a (xs @ [b]) = adr (a + span xs)"
  by (induction xs arbitrary: p a) (simp_all add: add.assoc)

lemma seg_append: "seg m p a (xs @ ys) z \<longleftrightarrow>
    seg m p a xs (if ys = [] then z else adr (a + span xs)) \<and> seg m (last_hd p a xs) (a + span xs) ys z"
  by (induction xs arbitrary: p a) (auto simp: add.assoc)

lemma header_cong:
  assumes "a + 20 \<le> 4294967296"
    and "\<And>c. a \<le> unat c \<Longrightarrow> unat c < a + 20 \<Longrightarrow> m' c = m c"
  shows "header m' a b n p = header m a b n p"
proof -
  have "unat (adr a) = a" using assms(1) by simp
  then have "rdf m' (adr a) f = rdf m (adr a) f" for f
    using assms by (intro rdf_cong) simp_all
  then show ?thesis by (simp add: header_def)
qed

lemma seg_cong:
  assumes "a + span bs \<le> 4294967296"
    and "\<And>c. a \<le> unat c \<Longrightarrow> unat c < a + span bs \<Longrightarrow> m' c = m c"
  shows "seg m' p a bs z = seg m p a bs z"
  using assms
proof (induction bs arbitrary: p a)
  case (Cons b bs)
  have "header m' a b n p = header m a b n p" for n
    using Cons.prems by (intro header_cong) auto
  moreover have "seg m' (adr a) (a + (20 + fst b)) bs z = seg m (adr a) (a + (20 + fst b)) bs z"
    using Cons.prems by (intro Cons.IH) auto
  ultimately show ?case by simp
qed simp

text \<open>The payloads of the blocks in use, by the address of their first byte.\<close>

fun live_at :: "nat \<Rightarrow> blk list \<Rightarrow> nat \<Rightarrow> nat option" where
  "live_at a [] q = None"
| "live_at a (b # bs) q = (if q = a + 20 \<and> \<not> snd b then Some (fst b) else live_at (a + (20 + fst b)) bs q)"

lemma live_at_range: "live_at a bs q = Some k \<Longrightarrow> a + 20 \<le> q \<and> q + k \<le> a + span bs"
  by (induction bs arbitrary: a) (force split: if_splits)+

lemma live_at_append: "live_at a (xs @ ys) q =
    (case live_at a xs q of None \<Rightarrow> live_at (a + span xs) ys q | Some k \<Rightarrow> Some k)"
  by (induction xs arbitrary: a) (auto simp: add.assoc split: option.split)

lemma live_at_before: "q < a + 20 \<Longrightarrow> live_at a bs q = None"
  using live_at_range [of a bs q] by (cases "live_at a bs q") auto

lemma live_at_after: "a + span bs < q \<Longrightarrow> live_at a bs q = None"
  using live_at_range [of a bs q] by (cases "live_at a bs q") auto

lemma live_at_hdr:
  assumes "live_at a (xs @ b # ys) q = Some k"
  shows "q + k \<le> a + span xs \<or> a + span xs + 20 \<le> q"
proof (cases "live_at a xs q")
  case None
  with assms have "live_at (a + span xs) (b # ys) q = Some k" by (simp add: live_at_append)
  from live_at_range [OF this] show ?thesis by simp
next
  case (Some l)
  with assms live_at_range [OF Some] show ?thesis by (simp add: live_at_append)
qed

lemma live_at_split:
  assumes "live_at a bs q = Some k"
  obtains xs ys where "bs = xs @ (k, False) # ys" "q = a + span xs + 20"
proof -
  have "\<exists>xs ys. bs = xs @ (k, False) # ys \<and> q = a + span xs + 20"
    using assms
  proof (induction bs arbitrary: a)
    case (Cons b bs)
    show ?case
    proof (cases "q = a + 20 \<and> \<not> snd b")
      case True
      with Cons.prems show ?thesis by (intro exI [of _ "[]"] exI [of _ bs]) (cases b, auto)
    next
      case False
      with Cons.prems have "live_at (a + (20 + fst b)) bs q = Some k" by auto
      from Cons.IH [OF this] obtain xs ys where "bs = xs @ (k, False) # ys"
        "q = a + (20 + fst b) + span xs + 20" by blast
      then show ?thesis by (intro exI [of _ "b # xs"] exI [of _ ys]) simp
    qed
  qed simp
  then show thesis using that by blast
qed

text \<open>A segment whose first block gets a new predecessor.\<close>

lemma seg_new_prev:
  assumes "seg m p0 a bs z" and "a + span bs \<le> 4294967296"
    and "\<And>f. bs \<noteq> [] \<Longrightarrow> rdf m' (adr a) f = (if f = Prev then p else rdf m (adr a) f)"
    and "\<And>c. a + 20 \<le> unat c \<Longrightarrow> unat c < a + span bs \<Longrightarrow> m' c = m c"
  shows "seg m' p a bs z"
proof (cases bs)
  case (Cons b bs')
  have "seg m' (adr a) (a + (20 + fst b)) bs' z = seg m (adr a) (a + (20 + fst b)) bs' z"
    using assms(2,4) Cons by (intro seg_cong) auto
  with assms(1,3) Cons show ?thesis by (auto simp: header_def Let_def)
qed simp

section \<open>The two changes of the list: merging two blocks and carving one\<close>

definition merged :: "u32 \<Rightarrow> u32 \<Rightarrow> u32 \<Rightarrow> bytes \<Rightarrow> bytes" where
  "merged b n nn m =
     (let m1 = wrf b Size (rdf m b Size + (HDR + rdf m n Size)) m; m2 = wrf b Next nn m1
      in if nn = 0 then m2 else wrf nn Prev b m2)"

text \<open>\<open>keeps m m' P\<close>: the two memories agree on the payloads that \<open>P\<close> lists.\<close>

definition keeps :: "bytes \<Rightarrow> bytes \<Rightarrow> (nat \<Rightarrow> nat option) \<Rightarrow> bool" where
  "keeps m m' P \<longleftrightarrow> (\<forall>q k c. P q = Some k \<longrightarrow> q \<le> unat c \<longrightarrow> unat c < q + k \<longrightarrow> m' c = m c)"

lemma keepsI: "(\<And>q k c. P q = Some k \<Longrightarrow> q \<le> unat c \<Longrightarrow> unat c < q + k \<Longrightarrow> m' c = m c) \<Longrightarrow> keeps m m' P"
  by (simp add: keeps_def)

lemma keeps_refl [simp]: "keeps m m P"
  by (simp add: keeps_def)

lemma keeps_trans: "keeps m m1 P \<Longrightarrow> keeps m1 m2 P \<Longrightarrow> keeps m m2 P"
  by (simp add: keeps_def)

lemma keeps_sub: "keeps m m' Q \<Longrightarrow> (\<And>q k. P q = Some k \<Longrightarrow> Q q = Some k) \<Longrightarrow> keeps m m' P"
  by (auto simp: keeps_def)

lemma merged_seg:
  assumes seg: "seg m p a (xs @ x # y # ys) 0" and lim: "a + span (xs @ x # y # ys) \<le> 4294967296"
    and B: "b = adr (a + span xs)" and N: "n = adr (a + span xs + (20 + fst x))"
    and NN: "nn = (if ys = [] then 0 else adr (a + span xs + (20 + fst x) + (20 + fst y)))"
  shows "seg (merged b n nn m) p a (xs @ (fst x + (20 + fst y), snd x) # ys) 0"
    and "keeps m (merged b n nn m) (live_at a (xs @ x # y # ys))"
proof -
  let ?b = "a + span xs" and ?n = "a + span xs + (20 + fst x)"
  let ?e = "a + span xs + (20 + fst x) + (20 + fst y)"
  let ?m = "merged b n nn m"
  have ub: "unat b = ?b" unfolding B by (rule unat_adr) (use lim in simp)
  have un: "unat n = ?n" unfolding N by (rule unat_adr) (use lim in simp)
  have ue: "ys \<noteq> [] \<Longrightarrow> unat nn = ?e" "ys \<noteq> [] \<Longrightarrow> nn \<noteq> 0" "ys = [] \<Longrightarrow> nn = 0"
  proof -
    assume "ys \<noteq> []"
    then have "0 < span ys" by (cases ys) auto
    then have lt: "?e < 4294967296" and pos: "0 < ?e" using lim by simp_all
    have nn: "nn = adr ?e" using \<open>ys \<noteq> []\<close> by (simp add: NN)
    show "unat nn = ?e" unfolding nn by (rule unat_adr [OF lt])
    show "nn \<noteq> 0" unfolding nn by (rule adr_nz [OF pos lt])
  qed (simp add: NN)
  have len: "ys \<noteq> [] \<Longrightarrow> 20 \<le> span ys" by (cases ys) auto
  from seg have S: "seg m p a xs b" "header m ?b x n (last_hd p a xs)"
      "header m ?n y nn b" "seg m n ?e ys 0"
    by (simp_all add: seg_append B N NN add.assoc cong: if_cong)
  have byte: "?m c = m c" if "unat c < ?b \<or> ?b + 20 \<le> unat c" "ys = [] \<or> unat c < ?e \<or> ?e + 20 \<le> unat c" for c
  proof (cases "ys = []")
    case True
    with that(1) lim ub ue(3) show ?thesis by (auto simp: merged_def Let_def wrf_byte)
  next
    case False
    with that lim ub ue(1) [OF False] ue(2) [OF False] len [OF False] show ?thesis
      by (auto simp: merged_def Let_def wrf_byte)
  qed
  have bf: "rdf ?m b f = (if f = Size then rdf m b Size + (HDR + rdf m n Size)
      else if f = Next then nn else rdf m b f)" for f
  proof (cases "ys = []")
    case True
    with lim ub ue(3) show ?thesis by (auto simp: merged_def Let_def rdf_wrf)
  next
    case False
    with lim ub ue(1) [OF False] ue(2) [OF False] len [OF False] show ?thesis
      by (auto simp: merged_def Let_def rdf_wrf)
  qed
  have hb: "header ?m ?b (fst x + (20 + fst y), snd x) nn (last_hd p a xs)"
    using S(2,3) bf unfolding B [symmetric] N [symmetric] header_def Let_def
    by (simp add: B [symmetric] N [symmetric] HDR_def)
  have hx: "seg ?m p a xs b"
    using S(1) seg_cong [of a xs ?m m p b] byte lim by simp
  have hy: "seg ?m b ?e ys 0"
  proof (rule seg_new_prev [OF S(4)])
    show "?e + span ys \<le> 4294967296" using lim by simp
    show "rdf ?m (adr ?e) f = (if f = Prev then b else rdf m (adr ?e) f)" if "ys \<noteq> []" for f
    proof -
      have "adr ?e = nn" using that by (simp add: NN)
      then show ?thesis
        using lim ub ue(1) [OF that] ue(2) [OF that] len [OF that]
        by (auto simp: merged_def Let_def rdf_wrf)
    qed
  qed (use byte in auto)
  show "seg ?m p a (xs @ (fst x + (20 + fst y), snd x) # ys) 0"
    using hx hb hy B by (auto simp: seg_append NN add.assoc split: if_splits)
  show "keeps m ?m (live_at a (xs @ x # y # ys))"
  proof (rule keepsI)
    fix q k and c :: u32
    assume q: "live_at a (xs @ x # y # ys) q = Some k" "q \<le> unat c" "unat c < q + k"
    have "unat c < ?b \<or> ?b + 20 \<le> unat c" using live_at_hdr [OF q(1)] q(2,3) by auto
    moreover have "ys = [] \<or> unat c < ?e \<or> ?e + 20 \<le> unat c"
    proof (cases ys)
      case (Cons z zs)
      with q(1) have "live_at a ((xs @ [x, y]) @ z # zs) q = Some k" by simp
      from live_at_hdr [OF this] q(2,3) show ?thesis by auto
    qed simp
    ultimately show "?m c = m c" by (rule byte)
  qed
qed

text \<open>Setting the flag of one block.\<close>

lemma flag_seg:
  assumes seg: "seg m p a (xs @ (k, f) # ys) 0" and lim: "a + span (xs @ (k, f) # ys) \<le> 4294967296"
    and C: "c = adr (a + span xs)" and v: "v = (if f' then 1 else 0)"
  shows "seg (wrf c Free v m) p a (xs @ (k, f') # ys) 0"
    and "keeps m (wrf c Free v m) (live_at a (xs @ (k, f) # ys))"
proof -
  let ?m = "wrf c Free v m" and ?c = "a + span xs" and ?e = "a + span xs + (20 + k)"
  have uc: "unat c = ?c" unfolding C by (rule unat_adr) (use lim in simp)
  from seg have S: "seg m p a xs c" "header m ?c (k, f) (if ys = [] then 0 else adr ?e) (last_hd p a xs)"
      "seg m c ?e ys 0"
    by (simp_all add: seg_append C add.assoc cong: if_cong)
  have byte: "?m b = m b" if "unat b < ?c \<or> ?c + 20 \<le> unat b" for b
    using that lim uc by (intro wrf_byte) auto
  have cf: "rdf ?m c e = (if e = Free then v else rdf m c e)" for e
    using lim uc by simp
  have "header ?m ?c (k, f') (if ys = [] then 0 else adr ?e) (last_hd p a xs)"
    using S(2) cf v unfolding C [symmetric] header_def Let_def by simp
  moreover have "seg ?m p a xs c"
    using S(1) seg_cong [of a xs ?m m p c] byte lim by simp
  moreover have "seg ?m c ?e ys 0"
    using S(3) seg_cong [of ?e ys ?m m c 0] byte lim by simp
  ultimately show "seg ?m p a (xs @ (k, f') # ys) 0"
    by (simp add: seg_append C add.assoc cong: if_cong)
  show "keeps m ?m (live_at a (xs @ (k, f) # ys))"
  proof (rule keepsI)
    fix q l and b :: u32
    assume "live_at a (xs @ (k, f) # ys) q = Some l" "q \<le> unat b" "unat b < q + l"
    from live_at_hdr [OF this(1)] this(2,3) show "?m b = m b" by (intro byte) auto
  qed
qed

text \<open>The split of \<^verbatim>\<open>kmalloc\<close>: block \<open>c\<close> keeps \<open>k\<close> bytes, the rest is a new free block.\<close>

definition carved :: "u32 \<Rightarrow> u32 \<Rightarrow> bytes \<Rightarrow> bytes" where
  "carved c k m =
     (let sp = c + HDR + k; nn = rdf m c Next;
          m5 = wrf sp Prev c (wrf sp Next nn (wrf sp Free 1
                 (wrf sp Size (rdf m c Size - k - HDR) (wrf sp Magic HEAP_MAGIC m))));
          m6 = (if nn = 0 then m5 else wrf nn Prev sp m5)
      in wrf c Size k (wrf c Next sp m6))"

lemma carved_seg:
  assumes seg: "seg m p a (xs @ (sz, f) # ys) 0" and lim: "a + span (xs @ (sz, f) # ys) \<le> 4294967296"
    and C: "c = adr (a + span xs)" and k: "unat k + 28 \<le> sz"
  shows "seg (carved c k m) p a (xs @ (unat k, f) # (sz - unat k - 20, True) # ys) 0"
    and "keeps m (carved c k m) (live_at a (xs @ (sz, True) # ys))"
proof -
  let ?c = "a + span xs" and ?e = "a + span xs + (20 + sz)"
  define s where "s = ?c + (20 + unat k)"
  define nn where "nn = rdf m c Next"
  define sp where "sp = c + HDR + k"
  let ?m = "carved c k m"
  have uc: "unat c = ?c" unfolding C by (rule unat_adr) (use lim in simp)
  have szlt: "sz < 4294967296" using lim by simp
  from seg have S: "seg m p a xs c" "header m ?c (sz, f) (if ys = [] then 0 else adr ?e) (last_hd p a xs)"
      "seg m c ?e ys 0"
    by (simp_all add: seg_append C add.assoc cong: if_cong)
  have "unat (c + HDR) = ?c + 20" using uc lim k by (simp add: HDR_def unat_add_small)
  then have us: "unat sp = s" using lim k by (simp add: s_def sp_def unat_add_small)
  then have sp: "sp = adr s" by (metis adr_unat)
  have hc: "rdf m c Magic = HEAP_MAGIC" "rdf m c Size = of_nat sz" "rdf m c Free = (if f then 1 else 0)"
    "nn = (if ys = [] then 0 else adr ?e)" "rdf m c Prev = last_hd p a xs"
    using S(2) unfolding header_def C [symmetric] by (simp_all add: Let_def nn_def)
  have rest: "rdf m c Size - k - HDR = of_nat (sz - unat k - 20)"
  proof (rule u32_eq_of_nat)
    have "k \<le> rdf m c Size" using hc(2) k szlt by (simp add: word_le_nat_alt unat_of_nat_small)
    then have "unat (rdf m c Size - k) = sz - unat k"
      using hc(2) szlt by (simp add: unat_sub_small unat_of_nat_small)
    then show "unat (rdf m c Size - k - HDR) = sz - unat k - 20"
      using k by (simp add: HDR_def unat_sub_small word_le_nat_alt)
  qed
  have M: "?m = wrf c Size k (wrf c Next sp
      (let m5 = wrf sp Prev c (wrf sp Next nn (wrf sp Free 1
         (wrf sp Size (of_nat (sz - unat k - 20)) (wrf sp Magic HEAP_MAGIC m))))
       in if nn = 0 then m5 else wrf nn Prev sp m5))"
    unfolding carved_def rest Let_def nn_def sp_def ..
  have lims: "?c + 20 \<le> s" "s + 20 \<le> ?e" "?e \<le> 4294967296" using lim k by (simp_all add: s_def)
  have F: "rdf ?m c g = (if g = Size then k else if g = Next then sp else rdf m c g)
      \<and> rdf ?m sp g = (case g of Magic \<Rightarrow> HEAP_MAGIC | Size \<Rightarrow> of_nat (sz - unat k - 20) | Free \<Rightarrow> 1
           | Next \<Rightarrow> nn | Prev \<Rightarrow> c)
      \<and> (ys \<noteq> [] \<longrightarrow> rdf ?m (adr ?e) g = (if g = Prev then sp else rdf m (adr ?e) g))
      \<and> (\<forall>b. (unat b < ?c \<or> ?c + 20 \<le> unat b) \<longrightarrow> (unat b < s \<or> s + 20 \<le> unat b)
            \<longrightarrow> (ys = [] \<or> unat b < ?e \<or> ?e + 20 \<le> unat b) \<longrightarrow> ?m b = m b)" for g
  proof (cases "ys = []")
    case True
    have "nn = 0" using hc(4) True by simp
    with True show ?thesis
      using uc us lims unfolding M by (cases g) (auto simp: rdf_wrf wrf_byte)
  next
    case False
    then have "20 \<le> span ys" by (cases ys) auto
    then have e: "?e + 20 \<le> 4294967296" using lim by simp
    then have ue: "unat (adr ?e) = ?e" by simp
    have nz: "nn = adr ?e" using hc(4) False by simp
    have "adr ?e \<noteq> 0" by (rule adr_nz) (use e in simp_all)
    with False nz e ue show ?thesis
      using uc us lims unfolding M by (cases g) (auto simp: rdf_wrf wrf_byte)
  qed
  have byte: "?m b = m b" if "unat b < ?c \<or> ?c + 20 \<le> unat b" "unat b < s \<or> s + 20 \<le> unat b"
    "ys = [] \<or> unat b < ?e \<or> ?e + 20 \<le> unat b" for b
    using F that by blast
  have "seg ?m p a xs c"
    using S(1) seg_cong [of a xs ?m m p c] byte lims by simp
  moreover have "header ?m ?c (unat k, f) (adr s) (last_hd p a xs)"
    using hc F unfolding header_def C [symmetric] Let_def sp by simp
  moreover have "header ?m s (sz - unat k - 20, True) nn c"
    using F unfolding header_def sp [symmetric] Let_def by simp
  moreover have "seg ?m (adr s) ?e ys 0"
  proof (rule seg_new_prev [OF S(3)])
    show "?e + span ys \<le> 4294967296" using lim by simp
    show "rdf ?m (adr ?e) g = (if g = Prev then adr s else rdf m (adr ?e) g)" if "ys \<noteq> []" for g
      using F that sp by simp
    show "?m b = m b" if "?e + 20 \<le> unat b" "unat b < ?e + span ys" for b
      using that lims by (intro byte) auto
  qed
  moreover have e: "s + (20 + (sz - unat k - 20)) = ?e" using k by (simp add: s_def)
  ultimately have "seg ?m (last_hd p a xs) ?c ((unat k, f) # (sz - unat k - 20, True) # ys) 0"
    by (simp only: seg.simps fst_conv s_def [symmetric] e hc(4) list.distinct if_False C [symmetric])
  with \<open>seg ?m p a xs c\<close> show "seg ?m p a (xs @ (unat k, f) # (sz - unat k - 20, True) # ys) 0"
    unfolding seg_append by (simp only: C list.distinct if_False simp_thms)
  show "keeps m ?m (live_at a (xs @ (sz, True) # ys))"
  proof (rule keepsI)
    fix q l and b :: u32
    assume q: "live_at a (xs @ (sz, True) # ys) q = Some l" "q \<le> unat b" "unat b < q + l"
    have out: "q + l \<le> ?c \<or> ?e + 20 \<le> q"
    proof (cases "live_at a xs q")
      case None
      with q(1) have "live_at ?e ys q = Some l" by (simp add: live_at_append add.assoc)
      from live_at_range [OF this] show ?thesis by simp
    next
      case (Some l')
      with q(1) live_at_range [OF Some] show ?thesis by (simp add: live_at_append)
    qed
    with q(2,3) lims show "?m b = m b" by (intro byte) auto
  qed
qed

section \<open>The heap invariant\<close>

abbreviation HS :: nat where "HS \<equiv> 16777216"

function walk :: "bytes \<Rightarrow> nat \<Rightarrow> nat \<Rightarrow> blk list" where
  "walk m a e =
     (if a < e
      then (unat (rdf m (adr a) Size), rdf m (adr a) Free \<noteq> 0)
           # walk m (a + (20 + unat (rdf m (adr a) Size))) e
      else [])"
  by pat_completeness auto
termination by (relation "measure (\<lambda>(m, a, e). e - a)") auto

declare walk.simps [simp del]

definition blocks :: "heap \<Rightarrow> blk list" where
  "blocks s = walk (hmem s) HS (unat (heap_brk s))"

fun separated :: "blk list \<Rightarrow> bool" where
  "separated [] = True"
| "separated [x] = True"
| "separated (x # y # zs) = (\<not> (snd x \<and> snd y) \<and> separated (y # zs))"

text \<open>
  \<open>tiled s bs\<close>: the range up to \<open>heap_brk\<close> is mapped and holds exactly the blocks \<open>bs\<close>;
  \<open>heap_ok\<close>: moreover no two neighbours are free.
\<close>

definition tiled :: "heap \<Rightarrow> blk list \<Rightarrow> bool" where
  "tiled s bs \<longleftrightarrow> kernel_ok (hvm s) \<and> heap_head s = HEAP_START \<and> page_aligned (heap_brk s)
     \<and> (\<forall>c. HS \<le> unat c \<longrightarrow> unat c < unat (heap_brk s) \<longrightarrow> backed s c)
     \<and> bs \<noteq> [] \<and> HS + span bs = unat (heap_brk s) \<and> seg (hmem s) 0 HS bs 0"

definition heap_ok :: "heap \<Rightarrow> bool" where
  "heap_ok s \<longleftrightarrow> tiled s (blocks s) \<and> separated (blocks s)"

lemma walk_seg:
  assumes "seg m p a bs z" and "a + span bs \<le> 4294967296"
  shows "walk m a (a + span bs) = bs"
  using assms
proof (induction bs arbitrary: p a)
  case Nil
  then show ?case by (simp add: walk.simps)
next
  case (Cons b bs)
  have "fst b < 4294967296" using Cons.prems(2) by simp
  then have b: "unat (rdf m (adr a) Size) = fst b" "rdf m (adr a) Free \<noteq> 0 \<longleftrightarrow> snd b"
    using Cons.prems(1) by (simp_all add: header_def Let_def unat_of_nat_small)
  have "seg m (adr a) (a + (20 + fst b)) bs z" using Cons.prems(1) by simp
  then have "walk m (a + (20 + fst b)) (a + (20 + fst b) + span bs) = bs"
    using Cons.prems(2) by (intro Cons.IH) simp_all
  with b show ?case by (subst walk.simps) (simp add: add.assoc)
qed

lemma tiledD:
  assumes "tiled s bs"
  shows "HS + span bs < 4294967296" "unat (heap_brk s) = HS + span bs" "seg (hmem s) 0 HS bs 0"
    "heap_head s = HEAP_START" "kernel_ok (hvm s)" "bs \<noteq> []" "page_aligned (heap_brk s)"
    "\<And>c. HS \<le> unat c \<Longrightarrow> unat c < HS + span bs \<Longrightarrow> backed s c"
  using assms unat_u32_lt [of "heap_brk s"] unfolding tiled_def by (simp_all del: unat_u32_lt)

lemma tiled_blocks: "tiled s bs \<Longrightarrow> blocks s = bs"
  using tiledD [of s bs] walk_seg [of "hmem s" 0 HS bs 0] by (simp add: blocks_def)

lemma heap_okI: "tiled s bs \<Longrightarrow> separated bs \<Longrightarrow> heap_ok s"
  by (simp add: heap_ok_def tiled_blocks)

lemma tiled_mem:
  assumes "tiled s bs" and "seg m 0 HS bs' 0" and "span bs' = span bs" and "bs' \<noteq> []"
  shows "tiled (s\<lparr>hmem := m\<rparr>) bs'"
  using assms by (simp add: tiled_def)

text \<open>The part of it that the list operations need, which says nothing of \<open>heap_brk\<close>.\<close>

definition linked :: "heap \<Rightarrow> blk list \<Rightarrow> bool" where
  "linked s bs \<longleftrightarrow> HS + span bs < 4294967296
     \<and> (\<forall>c. HS \<le> unat c \<longrightarrow> unat c < HS + span bs \<longrightarrow> backed s c) \<and> seg (hmem s) 0 HS bs 0"

lemma tiled_linked: "tiled s bs \<Longrightarrow> linked s bs"
  using tiledD [of s bs] by (simp add: linked_def)

lemma linked_hdr:
  assumes "linked s (xs @ b # ys)"
  shows "hdr_backed s (adr (HS + span xs))"
proof -
  have T: "HS + span (xs @ b # ys) < 4294967296"
    "\<And>c. HS \<le> unat c \<Longrightarrow> unat c < HS + span (xs @ b # ys) \<Longrightarrow> backed s c"
    using assms unfolding linked_def by blast+
  have "unat (adr (HS + span xs)) = HS + span xs" by (rule unat_adr) (use T(1) in simp)
  moreover have "adr (HS + span xs) \<noteq> 0" by (rule adr_nz) (use T(1) in simp_all)
  ultimately show ?thesis using T by (simp add: hdr_backed_def)
qed

lemma linked_fields:
  assumes "linked s (xs @ b # ys)" and "a = adr (HS + span xs)"
  shows "rdf (hmem s) a Magic = HEAP_MAGIC" "rdf (hmem s) a Size = of_nat (fst b)"
    "rdf (hmem s) a Free = (if snd b then 1 else 0)"
    "rdf (hmem s) a Next = (if ys = [] then 0 else adr (HS + span xs + (20 + fst b)))"
    "rdf (hmem s) a Prev = last_hd 0 HS xs"
  using assms by (simp_all add: linked_def seg_append header_def Let_def cong: if_cong)

lemmas tiled_hdr = linked_hdr [OF tiled_linked]
lemmas tiled_fields = linked_fields [OF tiled_linked]

lemma HEAP_START_adr: "HEAP_START = adr HS"
  by (simp add: HEAP_START_def adr_def)

lemma last_hd_last: "xs \<noteq> [] \<Longrightarrow> last_hd p a xs = adr (a + span (butlast xs))"
  using last_hd_snoc [of p a "butlast xs" "last xs"] by simp

section \<open>Coalescing\<close>

fun merge_next :: "blk \<Rightarrow> blk list \<Rightarrow> blk list" where
  "merge_next x ((k, True) # ys) = (fst x + (20 + k), snd x) # ys"
| "merge_next x ys = x # ys"

definition merge_prev :: "blk list \<Rightarrow> blk \<Rightarrow> blk list \<Rightarrow> blk list" where
  "merge_prev xs x ys =
     (if xs \<noteq> [] \<and> snd (last xs) then butlast xs @ (fst (last xs) + (20 + fst x), True) # ys
      else xs @ x # ys)"

lemma tiled_merge:
  assumes T: "tiled s (xs @ x # y # ys)" and b: "b = adr (HS + span xs)"
    and n: "n = adr (HS + span xs + (20 + fst x))" and nn: "nn = rdf (hmem s) n Next"
  obtains m where "m = merged b n nn (hmem s)" "tiled (s\<lparr>hmem := m\<rparr>) (xs @ (fst x + (20 + fst y), snd x) # ys)"
    "keeps (hmem s) m (live_at HS (xs @ x # y # ys))"
    "hdr_backed s b" "hdr_backed s n" "nn \<noteq> 0 \<Longrightarrow> hdr_backed s nn"
    "unat b + 20 \<le> unat n" "nn \<noteq> 0 \<Longrightarrow> unat n + 20 \<le> unat nn"
proof -
  note D = tiledD [OF T]
  have T': "tiled s ((xs @ [x]) @ y # ys)" using T by simp
  have nn': "nn = (if ys = [] then 0 else adr (HS + span xs + (20 + fst x) + (20 + fst y)))"
    using tiled_fields(4) [OF T', of n] n nn by (simp add: add.assoc cong: if_cong)
  have u: "unat b = HS + span xs" "unat n = HS + span xs + (20 + fst x)"
    unfolding b n by (rule unat_adr; use D(1) in simp)+
  show thesis
  proof (rule that [OF refl])
    show "tiled (s\<lparr>hmem := merged b n nn (hmem s)\<rparr>) (xs @ (fst x + (20 + fst y), snd x) # ys)"
      by (rule tiled_mem [OF T]) (use merged_seg(1) [OF D(3) _ b n nn'] D(1) in simp_all)
    show "keeps (hmem s) (merged b n nn (hmem s)) (live_at HS (xs @ x # y # ys))"
      using merged_seg(2) [OF D(3) _ b n nn'] D(1) by simp
    show "hdr_backed s b" unfolding b by (rule tiled_hdr [OF T])
    show "hdr_backed s n" unfolding n using tiled_hdr [OF T'] by (simp add: add.assoc)
    show "hdr_backed s nn" if nz: "nn \<noteq> 0"
    proof (cases ys)
      case (Cons z zs)
      have "tiled s ((xs @ [x, y]) @ z # zs)" using T Cons by simp
      from tiled_hdr [OF this] nn' Cons show ?thesis by (simp add: add.assoc)
    qed (use nz nn' in simp)
    show "unat b + 20 \<le> unat n" by (simp add: u)
    show "unat n + 20 \<le> unat nn" if "nn \<noteq> 0"
    proof -
      have ne: "ys \<noteq> []" using that nn' by auto
      then have "20 \<le> span ys" by (cases ys) auto
      then have "unat nn = HS + span xs + (20 + fst x) + (20 + fst y)"
        using nn' ne D(1) by (simp del: unat_adr add: unat_adr)
      then show ?thesis by (simp add: u)
    qed
  qed
qed

lemma hmem_self [simp]: "s\<lparr>hmem := hmem s\<rparr> = s"
  by simp

lemma coalesce_next_some:
  assumes T: "tiled s (xs @ x # ys)" and b: "b = adr (HS + span xs)"
  obtains m where "coalesce_next b s = Some (s\<lparr>hmem := m\<rparr>)"
    "tiled (s\<lparr>hmem := m\<rparr>) (xs @ merge_next x ys)" "keeps (hmem s) m (live_at HS (xs @ x # ys))"
proof -
  note F = tiled_fields [OF T b]
  have hb: "hdr_backed s b" unfolding b by (rule tiled_hdr [OF T])
  show thesis
  proof (cases "ys = [] \<or> \<not> snd (hd ys)")
    case True
    have "merge_next x ys = x # ys" using True by (cases "(x, ys)" rule: merge_next.cases) auto
    moreover have "coalesce_next b s = Some s"
    proof (cases ys)
      case Nil
      with F(4) hb show ?thesis by (simp add: coalesce_next_def is_free_def)
    next
      case (Cons y zs)
      have T': "tiled s ((xs @ [x]) @ y # zs)" using T Cons by simp
      let ?n = "adr (HS + span xs + (20 + fst x))"
      have "hdr_backed s ?n" using tiled_hdr [OF T'] by (simp add: add.assoc)
      moreover have "rdf (hmem s) ?n Free = 0"
        using tiled_fields(3) [OF T', of ?n] True Cons by (simp add: add.assoc)
      ultimately show ?thesis
        using F(4) hb Cons hdr_backedD(1) [of s ?n] by (simp add: coalesce_next_def is_free_def)
    qed
    ultimately show thesis using T by (intro that [of "hmem s"]) simp_all
  next
    case False
    then obtain k zs where ys: "ys = (k, True) # zs" by (cases ys) auto
    define n where "n = adr (HS + span xs + (20 + fst x))"
    define nn where "nn = rdf (hmem s) n Next"
    have T2: "tiled s (xs @ x # (k, True) # zs)" using T ys by simp
    obtain m where m: "m = merged b n nn (hmem s)"
      "tiled (s\<lparr>hmem := m\<rparr>) (xs @ (fst x + (20 + fst (k, True)), snd x) # zs)"
      "keeps (hmem s) m (live_at HS (xs @ x # (k, True) # zs))"
      "hdr_backed s n" "nn \<noteq> 0 \<Longrightarrow> hdr_backed s nn"
      "unat b + 20 \<le> unat n" "nn \<noteq> 0 \<Longrightarrow> unat n + 20 \<le> unat nn"
      by (rule tiled_merge [OF T2 b n_def nn_def]) blast
    have T': "tiled s ((xs @ [x]) @ (k, True) # zs)" using T2 by simp
    have fr: "rdf (hmem s) n Free = 1" using tiled_fields(3) [OF T', of n] by (simp add: n_def add.assoc)
    have nx: "rdf (hmem s) b Next = n" using F(4) ys by (simp add: n_def)
    have "coalesce_next b s = Some (s\<lparr>hmem := m\<rparr>)"
      using hb m(4-6) hdr_backedD(1,2) [OF m(4)] hdr_backedD(2) [OF hb] fr nx
      by (simp add: coalesce_next_def is_free_def set_prev_def m(1) merged_def Let_def rdf_wrf nn_def)
    with m(2,3) show thesis by (intro that [of m]) (simp_all add: ys)
  qed
qed

lemma coalesce_prev_some:
  assumes T: "tiled s (xs @ x # ys)" and b: "b = adr (HS + span xs)"
  obtains m where "coalesce_prev b s = Some (s\<lparr>hmem := m\<rparr>)"
    "tiled (s\<lparr>hmem := m\<rparr>) (merge_prev xs x ys)" "keeps (hmem s) m (live_at HS (xs @ x # ys))"
proof -
  note F = tiled_fields [OF T b]
  have hb: "hdr_backed s b" unfolding b by (rule tiled_hdr [OF T])
  show thesis
  proof (cases xs rule: rev_cases)
    case Nil
    with F(5) hb T show thesis
      by (intro that [of "hmem s"]) (simp_all add: coalesce_prev_def is_free_def merge_prev_def)
  next
    case (snoc us w)
    define p where "p = adr (HS + span us)"
    have T2: "tiled s (us @ w # x # ys)" using T snoc by simp
    have hp: "hdr_backed s p" unfolding p_def by (rule tiled_hdr [OF T2])
    have pr: "rdf (hmem s) b Prev = p" using F(5) snoc by (simp add: p_def)
    have fr: "rdf (hmem s) p Free = (if snd w then 1 else 0)"
      by (rule tiled_fields(3) [OF T2 p_def])
    show thesis
    proof (cases "snd w")
      case False
      with pr fr hp hb hdr_backedD(1) [OF hp] T snoc show thesis
        by (intro that [of "hmem s"]) (simp_all add: coalesce_prev_def is_free_def merge_prev_def)
    next
      case True
      define nn where "nn = rdf (hmem s) b Next"
      have b': "b = adr (HS + span us + (20 + fst w))" using b snoc by (simp add: add.assoc)
      obtain m where m: "m = merged p b nn (hmem s)"
        "tiled (s\<lparr>hmem := m\<rparr>) (us @ (fst w + (20 + fst x), snd w) # ys)"
        "keeps (hmem s) m (live_at HS (us @ w # x # ys))"
        "nn \<noteq> 0 \<Longrightarrow> hdr_backed s nn" "unat p + 20 \<le> unat b" "nn \<noteq> 0 \<Longrightarrow> unat b + 20 \<le> unat nn"
        by (rule tiled_merge [OF T2 p_def b' nn_def]) blast
      have "b \<noteq> p" using m(5) by auto
      then have "coalesce_prev b s = Some (s\<lparr>hmem := m\<rparr>)"
        using hb hp m(4,5) hdr_backedD(1,2) [OF hp] hdr_backedD(2) [OF hb] fr pr True
        by (simp add: coalesce_prev_def is_free_def set_prev_def m(1) merged_def Let_def rdf_wrf nn_def)
      with m(2,3) True snoc show thesis by (intro that [of m]) (simp_all add: merge_prev_def)
    qed
  qed
qed

text \<open>What a release makes of the list: the block joined with its free neighbours.\<close>

definition joined :: "blk list \<Rightarrow> blk \<Rightarrow> blk list \<Rightarrow> blk list" where
  "joined xs x ys = merge_prev xs (hd (merge_next x ys)) (tl (merge_next x ys))"

lemma merge_next_Cons:
  obtains l zs where "merge_next (k, f) ys = (l, f) # zs"
  by (cases "((k, f), ys)" rule: merge_next.cases) auto

lemma live_at_merge_next:
  "live_at a (xs @ merge_next (k, True) ys) = live_at a (xs @ (k, True) # ys)"
proof -
  have "live_at b (merge_next (k, True) ys) q = live_at b ((k, True) # ys) q" for b q
    by (cases "((k, True), ys)" rule: merge_next.cases) (auto simp: add.assoc)
  then show ?thesis by (simp only: live_at_append fun_eq_iff simp_thms)
qed

lemma live_at_merge_prev:
  "live_at a (merge_prev xs (k, True) ys) q = live_at a (xs @ (k, True) # ys) q"
proof (cases xs rule: rev_cases)
  case (snoc us w)
  then show ?thesis
    by (cases w) (auto simp: merge_prev_def live_at_append add.assoc split: option.split)
qed (simp add: merge_prev_def)

lemma live_at_joined: "live_at a (joined xs (k, True) ys) = live_at a (xs @ (k, True) # ys)"
proof -
  obtain l zs where l: "merge_next (k, True) ys = (l, True) # zs" by (rule merge_next_Cons)
  then have "live_at a (joined xs (k, True) ys) = live_at a (xs @ merge_next (k, True) ys)"
    by (simp add: joined_def live_at_merge_prev fun_eq_iff)
  then show ?thesis by (simp only: live_at_merge_next)
qed

lemma coalesce_some:
  assumes T: "tiled s (xs @ (k, True) # ys)" and b: "b = adr (HS + span xs)"
  obtains m where "coalesce b s = Some (s\<lparr>hmem := m\<rparr>)"
    "tiled (s\<lparr>hmem := m\<rparr>) (joined xs (k, True) ys)" "keeps (hmem s) m (live_at HS (xs @ (k, True) # ys))"
proof -
  obtain m1 where m1: "coalesce_next b s = Some (s\<lparr>hmem := m1\<rparr>)"
    "tiled (s\<lparr>hmem := m1\<rparr>) (xs @ merge_next (k, True) ys)"
    "keeps (hmem s) m1 (live_at HS (xs @ (k, True) # ys))"
    by (rule coalesce_next_some [OF T b]) blast
  obtain l zs where l: "merge_next (k, True) ys = (l, True) # zs" by (rule merge_next_Cons)
  have T1: "tiled (s\<lparr>hmem := m1\<rparr>) (xs @ (l, True) # zs)" using m1(2) l by simp
  obtain m2 where m2: "coalesce_prev b (s\<lparr>hmem := m1\<rparr>) = Some (s\<lparr>hmem := m1\<rparr>\<lparr>hmem := m2\<rparr>)"
    "tiled (s\<lparr>hmem := m1\<rparr>\<lparr>hmem := m2\<rparr>) (merge_prev xs (l, True) zs)"
    "keeps (hmem (s\<lparr>hmem := m1\<rparr>)) m2 (live_at HS (xs @ (l, True) # zs))"
    by (rule coalesce_prev_some [OF T1 b]) blast
  have "live_at HS (xs @ (l, True) # zs) = live_at HS (xs @ (k, True) # ys)"
    using live_at_merge_next [of HS xs k ys] l by simp
  with m1(3) m2(3) have "keeps (hmem s) m2 (live_at HS (xs @ (k, True) # ys))"
    by (auto intro: keeps_trans)
  moreover have "joined xs (k, True) ys = merge_prev xs (l, True) zs" by (simp add: joined_def l)
  ultimately show thesis using m1(1) m2(1,2) by (intro that [of m2]) (simp_all add: coalesce_def)
qed

text \<open>The only neighbours a release may join are those of the released block.\<close>

lemma separated_append:
  "separated (xs @ ys) \<longleftrightarrow> separated xs \<and> separated ys
    \<and> (xs \<noteq> [] \<longrightarrow> ys \<noteq> [] \<longrightarrow> \<not> (snd (last xs) \<and> snd (hd ys)))"
proof (induction xs rule: separated.induct)
  case (2 x)
  then show ?case by (cases ys) auto
qed auto

lemma separated_tl: "separated (x # ys) \<Longrightarrow> separated ys"
  by (cases ys) auto

lemma separated_Cons: "separated (x # ys) \<longleftrightarrow> separated ys \<and> (ys \<noteq> [] \<longrightarrow> \<not> (snd x \<and> snd (hd ys)))"
  by (cases ys) auto

lemma joined_separated:
  assumes "separated (xs @ [(j, False)])" and "separated ((j, False) # ys)"
  shows "separated (joined xs (k, True) ys)"
proof -
  obtain l zs where l: "merge_next (k, True) ys = (l, True) # zs" by (rule merge_next_Cons)
  have "separated (merge_next (k, True) ys)"
    using assms(2) by (cases "((k, True), ys)" rule: merge_next.cases) (auto simp: separated_Cons)
  then have z: "separated zs" "zs \<noteq> [] \<Longrightarrow> \<not> snd (hd zs)" by (auto simp: l separated_Cons)
  show ?thesis
  proof (cases xs rule: rev_cases)
    case Nil
    with z show ?thesis by (simp add: joined_def l merge_prev_def separated_Cons)
  next
    case (snoc us w)
    with assms(1) z show ?thesis
      by (auto simp: joined_def l merge_prev_def separated_append separated_Cons)
  qed
qed

section \<open>Freeing\<close>

definition live :: "heap \<Rightarrow> u32 \<Rightarrow> nat option" where
  "live s p = live_at HS (blocks s) (unat p)"

lemma live_at_free:
  "live_at a (xs @ (k, True) # ys) = (live_at a (xs @ (k, False) # ys))(a + span xs + 20 := None)"
proof
  fix q
  have "live_at a xs (a + span xs + 20) = None" by (rule live_at_after) simp
  moreover have "live_at (a + span xs + (20 + k)) ys (a + span xs + 20) = None"
    by (rule live_at_before) simp
  ultimately show "live_at a (xs @ (k, True) # ys) q
      = ((live_at a (xs @ (k, False) # ys))(a + span xs + 20 := None)) q"
    by (auto simp: live_at_append split: option.split)
qed

lemma live_at_carve:
  "live_at a (xs @ (k, False) # (r, True) # ys)
    = (live_at a (xs @ (k + (20 + r), True) # ys))(a + span xs + 20 \<mapsto> k)"
proof
  fix q
  have "live_at a xs (a + span xs + 20) = None" by (rule live_at_after) simp
  moreover have "live_at (a + span xs + (20 + (k + (20 + r)))) ys (a + span xs + 20) = None"
    by (rule live_at_before) simp
  ultimately show "live_at a (xs @ (k, False) # (r, True) # ys) q
      = ((live_at a (xs @ (k + (20 + r), True) # ys))(a + span xs + 20 \<mapsto> k)) q"
    by (auto simp: live_at_append add.assoc split: option.split)
qed

lemma live_at_take:
  "live_at a (xs @ (k, False) # ys) = (live_at a (xs @ (k, True) # ys))(a + span xs + 20 \<mapsto> k)"
proof
  fix q
  have "live_at a xs (a + span xs + 20) = None" by (rule live_at_after) simp
  then show "live_at a (xs @ (k, False) # ys) q
      = ((live_at a (xs @ (k, True) # ys))(a + span xs + 20 \<mapsto> k)) q"
    by (auto simp: live_at_append split: option.split)
qed

lemma heap_okD: "heap_ok s \<Longrightarrow> tiled s (blocks s)" "heap_ok s \<Longrightarrow> separated (blocks s)"
  by (simp_all add: heap_ok_def)

lemma live_split:
  assumes "heap_ok s" and "live s p = Some k"
  obtains xs ys where "blocks s = xs @ (k, False) # ys" "p = adr (HS + span xs) + HDR"
    "unat p = HS + span xs + 20" "HS + span xs + 20 + k < 4294967296"
proof -
  from assms(2) obtain xs ys where b: "blocks s = xs @ (k, False) # ys" "unat p = HS + span xs + 20"
    unfolding live_def by (rule live_at_split)
  have T: "tiled s (xs @ (k, False) # ys)" using heap_okD(1) [OF assms(1)] b(1) by simp
  note D = tiledD(1) [OF T]
  have "unat (adr (HS + span xs)) = HS + span xs" by (rule unat_adr) (use D in simp)
  then have "unat (adr (HS + span xs) + HDR) = unat p"
    using D b(2) by (simp add: HDR_def unat_add_small)
  then have "p = adr (HS + span xs) + HDR" by (simp add: u32_eq_iff_unat)
  moreover have "HS + span xs + 20 + k < 4294967296" using D by simp
  ultimately show thesis using b by (intro that)
qed

lemma kfree_some:
  assumes ok: "heap_ok s" and p: "live s p = Some k" and bs: "blocks s = xs @ (k, False) # ys"
    and a: "p = adr (HS + span xs) + HDR" "unat p = HS + span xs + 20"
  obtains m where "kfree p s = Some (s\<lparr>hmem := m\<rparr>)" "heap_ok (s\<lparr>hmem := m\<rparr>)"
    "blocks (s\<lparr>hmem := m\<rparr>) = joined xs (k, True) ys"
    "live (s\<lparr>hmem := m\<rparr>) = (live s)(p := None)"
    "keeps (hmem s) m (live_at HS (xs @ (k, True) # ys))"
proof -
  define b where "b = adr (HS + span xs)"
  have T: "tiled s (xs @ (k, False) # ys)" using heap_okD(1) [OF ok] bs by simp
  note D = tiledD [OF T]
  have pb: "p - HDR = b" by (simp add: a(1) b_def)
  have hb: "hdr_backed s b" unfolding b_def by (rule tiled_hdr [OF T])
  define m0 where "m0 = wrf b Free 1 (hmem s)"
  have T0: "tiled (s\<lparr>hmem := m0\<rparr>) (xs @ (k, True) # ys)"
    by (rule tiled_mem [OF T]) (use flag_seg(1) [OF D(3) _ b_def, of 1 True] D(1) in \<open>simp_all add: m0_def\<close>)
  obtain m where m: "coalesce b (s\<lparr>hmem := m0\<rparr>) = Some (s\<lparr>hmem := m0\<rparr>\<lparr>hmem := m\<rparr>)"
    "tiled (s\<lparr>hmem := m0\<rparr>\<lparr>hmem := m\<rparr>) (joined xs (k, True) ys)"
    "keeps (hmem (s\<lparr>hmem := m0\<rparr>)) m (live_at HS (xs @ (k, True) # ys))"
    by (rule coalesce_some [OF T0 b_def]) blast
  have p0: "p \<noteq> 0" using a(2) by auto
  have "kfree p s = Some (s\<lparr>hmem := m\<rparr>)"
    using m(1) hb p0 tiled_fields(1) [OF T b_def]
    by (simp add: kfree_def Let_def pb m0_def)
  moreover have bl: "blocks (s\<lparr>hmem := m\<rparr>) = joined xs (k, True) ys"
    using tiled_blocks [OF m(2)] by simp
  moreover have "heap_ok (s\<lparr>hmem := m\<rparr>)"
  proof (rule heap_okI)
    show "separated (joined xs (k, True) ys)"
      using heap_okD(2) [OF ok] unfolding bs
      by (intro joined_separated [where j = k]) (simp_all add: separated_append)
  qed (use m(2) in simp)
  moreover have "live (s\<lparr>hmem := m\<rparr>) = (live s)(p := None)"
    using a(2) unfolding live_def bl live_at_joined live_at_free bs fun_upd_def
    by (simp add: fun_eq_iff u32_eq_iff_unat)
  moreover have "keeps (hmem s) m (live_at HS (xs @ (k, True) # ys))"
  proof -
    have "keeps (hmem s) m0 (live_at HS (xs @ (k, True) # ys))"
      unfolding m0_def
    proof (rule keeps_sub)
      show "keeps (hmem s) (wrf b Free 1 (hmem s)) (live_at HS (xs @ (k, False) # ys))"
        using flag_seg(2) [OF D(3) _ b_def, of 1 True] D(1) by simp
      show "live_at HS (xs @ (k, False) # ys) q = Some l"
        if "live_at HS (xs @ (k, True) # ys) q = Some l" for q l
        using that unfolding live_at_free by (simp split: if_splits)
    qed
    with m(3) show ?thesis by (auto intro: keeps_trans)
  qed
  ultimately show thesis by (intro that)
qed

section \<open>Searching\<close>

definition fits :: "nat \<Rightarrow> blk \<Rightarrow> bool" where
  "fits k b \<longleftrightarrow> snd b \<and> k \<le> fst b"

lemma first_fit_step:
  assumes T: "tiled s (us @ b # ys)"
  shows "first_fit req (adr (HS + span us)) s =
    (if fits (unat req) b then Some (adr (HS + span us))
     else first_fit req (if ys = [] then 0 else adr (HS + span (us @ [b]))) s)"
proof -
  note F = tiled_fields [OF T refl]
  have hb: "hdr_backed s (adr (HS + span us))" by (rule tiled_hdr [OF T])
  have "fst b < 4294967296" using tiledD(1) [OF T] by simp
  then have le: "req \<le> of_nat (fst b) \<longleftrightarrow> unat req \<le> fst b"
    by (simp add: word_le_nat_alt unat_of_nat_small)
  have nx: "rdf (hmem s) (adr (HS + span us)) Next = (if ys = [] then 0 else adr (HS + span (us @ [b])))"
    using F(4) by (simp add: add.assoc cong: if_cong)
  show ?thesis
    by (subst first_fit.simps)
      (use F(2,3) hb hdr_backedD(1) [OF hb] le nx in \<open>auto simp: fits_def\<close>)
qed

lemma first_fit_found:
  "tiled s (us @ xs @ b # ys) \<Longrightarrow> \<forall>x\<in>set xs. \<not> fits (unat req) x \<Longrightarrow> fits (unat req) b
    \<Longrightarrow> first_fit req (adr (HS + span us)) s = Some (adr (HS + span (us @ xs)))"
proof (induction xs arbitrary: us)
  case Nil
  then show ?case using first_fit_step [of s us b ys req] by simp
next
  case (Cons x xs)
  then have "first_fit req (adr (HS + span (us @ [x]))) s = Some (adr (HS + span ((us @ [x]) @ xs)))"
    by (intro Cons.IH) simp_all
  with Cons.prems first_fit_step [of s us x "xs @ b # ys" req] show ?case by simp
qed

lemma first_fit_none:
  "tiled s (us @ xs) \<Longrightarrow> \<forall>x\<in>set xs. \<not> fits (unat req) x
    \<Longrightarrow> first_fit req (if xs = [] then 0 else adr (HS + span us)) s = Some 0"
proof (induction xs arbitrary: us)
  case Nil
  then show ?case by (simp add: first_fit.simps)
next
  case (Cons x xs)
  then have "first_fit req (if xs = [] then 0 else adr (HS + span (us @ [x]))) s = Some 0"
    by (intro Cons.IH) simp_all
  with Cons.prems first_fit_step [of s us x xs req] show ?case by simp
qed

lemma last_block_last:
  "linked s (us @ xs @ [b]) \<Longrightarrow> last_block (adr (HS + span us)) s = Some (adr (HS + span (us @ xs)))"
proof (induction xs arbitrary: us)
  case Nil
  then have T: "linked s (us @ [b])" by simp
  then show ?case
    using linked_hdr [OF T] linked_fields(4) [OF T refl] by (subst last_block.simps) simp
next
  case (Cons x xs)
  let ?n = "adr (HS + span (us @ [x]))"
  have T: "linked s (us @ x # (xs @ [b]))" using Cons.prems by simp
  have "last_block ?n s = Some (adr (HS + span ((us @ [x]) @ xs)))"
    using Cons.prems by (intro Cons.IH) simp
  moreover have "linked s ((us @ [x]) @ hd (xs @ [b]) # tl (xs @ [b]))"
    using Cons.prems by (cases xs) simp_all
  from hdr_backedD(1) [OF linked_hdr [OF this]] have "?n \<noteq> 0" .
  ultimately show ?case
    using linked_hdr [OF T] linked_fields(4) [OF T refl]
    by (subst last_block.simps) (simp add: add.assoc)
qed

section \<open>Taking a block\<close>

definition carve :: "nat \<Rightarrow> nat \<Rightarrow> blk list" where
  "carve k sz = (if k + 28 \<le> sz then [(k, False), (sz - k - 20, True)] else [(sz, False)])"

lemma span_carve: "k \<le> sz \<Longrightarrow> span (carve k sz) = 20 + sz"
  by (simp add: carve_def)

lemma live_at_carved:
  "live_at a (xs @ carve k sz @ ys)
    = (live_at a (xs @ (sz, True) # ys))(a + span xs + 20 \<mapsto> (if k + 28 \<le> sz then k else sz))"
proof (cases "k + 28 \<le> sz")
  case True
  then have "k + (20 + (sz - k - 20)) = sz" by simp
  with True live_at_carve [of a xs k "sz - k - 20" ys] show ?thesis
    by (simp add: carve_def del: live_at.simps)
next
  case False
  then show ?thesis by (simp add: carve_def live_at_take del: live_at.simps)
qed

lemma tiled_backed_hdr:
  assumes "tiled s bs" and "HS \<le> unat h" and "unat h + 20 \<le> HS + span bs"
  shows "hdr_backed s h"
  using assms(2,3) tiledD(1,8) [OF assms(1)] by (auto simp: hdr_backed_def)

lemma split_block_some:
  assumes T: "tiled s (xs @ (sz, True) # ys)" and c: "c = adr (HS + span xs)"
    and k: "unat req + 28 \<le> sz"
  shows "(do { let split = c + HDR + req;
       s \<leftarrow> put_field Magic split HEAP_MAGIC s;
       csz \<leftarrow> get_field Size c s;
       s \<leftarrow> put_field Size split (csz - req - HDR) s;
       s \<leftarrow> put_field Free split 1 s;
       n \<leftarrow> get_field Next c s;
       s \<leftarrow> put_field Next split n s;
       s \<leftarrow> put_field Prev split c s;
       n \<leftarrow> get_field Next c s;
       s \<leftarrow> set_prev n split s;
       s \<leftarrow> put_field Next c split s;
       put_field Size c req s }) = Some (s\<lparr>hmem := carved c req (hmem s)\<rparr>)"
proof -
  note D = tiledD [OF T] and F = tiled_fields [OF T c]
  define sp where "sp = c + HDR + req"
  define nn where "nn = rdf (hmem s) c Next"
  have uc: "unat c = HS + span xs" unfolding c by (rule unat_adr) (use D(1) in simp)
  have "unat (c + HDR) = HS + span xs + 20" using uc D(1) k by (simp add: HDR_def unat_add_small)
  then have us: "unat sp = HS + span xs + 20 + unat req"
    using D(1) k by (simp add: sp_def unat_add_small)
  have hc: "hdr_backed s c" unfolding c by (rule tiled_hdr [OF T])
  have hs: "hdr_backed s sp"
    by (rule tiled_backed_hdr [OF T]) (use us k in simp_all)
  have hn: "hdr_backed s nn" if "nn \<noteq> 0"
  proof (cases ys)
    case (Cons y zs)
    then have "nn = adr (HS + span (xs @ [(sz, True)]))" using F(4) by (simp add: nn_def add.assoc)
    moreover have "tiled s ((xs @ [(sz, True)]) @ y # zs)" using T Cons by simp
    ultimately show ?thesis by (metis tiled_hdr)
  qed (use that F(4) in \<open>simp add: nn_def\<close>)
  have un: "unat c + 20 \<le> unat sp" using us uc by simp
  show ?thesis
  proof (cases "nn = 0")
    case True
    then show ?thesis
      using hc hs un hdr_backedD(2) [OF hc] hdr_backedD(2) [OF hs]
      unfolding Let_def sp_def [symmetric]
      by (simp add: carved_def Let_def set_prev_def rdf_wrf nn_def [symmetric] sp_def [symmetric])
  next
    case False
    then show ?thesis
      using hc hs hn un hdr_backedD(2) [OF hc] hdr_backedD(2) [OF hs]
      unfolding Let_def sp_def [symmetric]
      by (simp add: carved_def Let_def set_prev_def rdf_wrf nn_def [symmetric] sp_def [symmetric])
  qed
qed

lemma take_block_some:
  assumes T: "tiled s (xs @ (sz, True) # ys)" and c: "c = adr (HS + span xs)"
    and k: "unat req \<le> sz"
  obtains m where "take_block c req s = Some (c + HDR, s\<lparr>hmem := m\<rparr>)"
    "tiled (s\<lparr>hmem := m\<rparr>) (xs @ carve (unat req) sz @ ys)"
    "keeps (hmem s) m (live_at HS (xs @ (sz, True) # ys))"
proof -
  note D = tiledD [OF T] and F = tiled_fields [OF T c]
  have lim: "HS + span (xs @ (sz, True) # ys) \<le> 4294967296" using D(1) by simp
  have hc: "hdr_backed s c" unfolding c by (rule tiled_hdr [OF T])
  have szlt: "sz < 4294967296" using D(1) by simp
  have "unat (req + HDR + 8) = unat req + 28"
    using D(1) k by (simp add: HDR_def unat_add_small)
  then have cond: "req + HDR + 8 \<le> of_nat sz \<longleftrightarrow> unat req + 28 \<le> sz"
    using szlt by (simp add: word_le_nat_alt unat_of_nat_small)
  show thesis
  proof (cases "unat req + 28 \<le> sz")
    case True
    define m1 where "m1 = carved c req (hmem s)"
    define m where "m = wrf c Free 0 m1"
    note C = carved_seg [OF D(3) lim c True]
    have S1: "seg m1 0 HS (xs @ (unat req, True) # (sz - unat req - 20, True) # ys) 0"
      unfolding m1_def by (rule C(1))
    have lim1: "HS + span (xs @ (unat req, True) # (sz - unat req - 20, True) # ys) \<le> 4294967296"
      using lim True by simp
    note G = flag_seg [OF S1 lim1 c, of 0 False]
    have "take_block c req s = Some (c + HDR, s\<lparr>hmem := m\<rparr>)"
      using F(2) hc True
      by (simp add: take_block_def cond split_block_some [OF T c True, folded m1_def] m_def)
    moreover have "tiled (s\<lparr>hmem := m\<rparr>) (xs @ carve (unat req) sz @ ys)"
      by (rule tiled_mem [OF T]) (use G(1) True in \<open>simp_all add: carve_def m_def\<close>)
    moreover have "keeps (hmem s) m (live_at HS (xs @ (sz, True) # ys))"
    proof (rule keeps_trans)
      show "keeps (hmem s) m1 (live_at HS (xs @ (sz, True) # ys))" unfolding m1_def by (rule C(2))
      have eq: "unat req + (20 + (sz - unat req - 20)) = sz" using True by simp
      have "live_at HS (xs @ (unat req, True) # (sz - unat req - 20, True) # ys)
          = live_at HS (xs @ (sz, True) # ys)"
        using eq by (simp add: live_at_append fun_eq_iff add.assoc split: option.split)
      then show "keeps m1 m (live_at HS (xs @ (sz, True) # ys))" using G(2) by (simp add: m_def)
    qed
    ultimately show thesis by (rule that)
  next
    case False
    define m where "m = wrf c Free 0 (hmem s)"
    note G = flag_seg [OF D(3) lim c, of 0 False]
    have "take_block c req s = Some (c + HDR, s\<lparr>hmem := m\<rparr>)"
      using F(2) hc False by (simp add: take_block_def cond m_def)
    moreover have "tiled (s\<lparr>hmem := m\<rparr>) (xs @ carve (unat req) sz @ ys)"
      by (rule tiled_mem [OF T]) (use G(1) False in \<open>simp_all add: carve_def m_def\<close>)
    moreover have "keeps (hmem s) m (live_at HS (xs @ (sz, True) # ys))"
      using G(2) by (simp add: m_def)
    ultimately show thesis by (rule that)
  qed
qed

section \<open>Growing\<close>

lemma needed_eq:
  assumes "unat n + 4095 < 4294967296"
  shows "unat ((n + PAGE_SIZE - 1) AND NOT (PAGE_SIZE - 1)) = (unat n + 4095) div 4096 * 4096"
proof -
  have "n + PAGE_SIZE - 1 = n + 4095" and "NOT (PAGE_SIZE - 1) = NOT (0xFFF :: u32)"
    by (simp_all add: PAGE_SIZE_def)
  then show ?thesis
    using assms by (simp only: page_base_def [symmetric]) (simp add: unat_page_base unat_add_small)
qed

lemma page_addr_in:
  assumes "page_aligned b" and "unat b + n * 4096 < 4294967296"
  shows "(\<exists>i<n. same_page x (b + of_nat i * PAGE_SIZE)) \<longleftrightarrow> unat b \<le> unat x \<and> unat x < unat b + n * 4096"
proof -
  obtain k where k: "unat b = 4096 * k" using assms(1) by (rule page_alignedE)
  have "unat (b + of_nat i * PAGE_SIZE) = 4096 * (k + i)" if "i < n" for i
  proof -
    have "i * 4096 < n * 4096" using that by simp
    then have "unat b + i * 4096 < 4294967296" using assms(2) by linarith
    then show ?thesis by (simp add: PAGE_SIZE_def word_nat k)
  qed
  then have "(\<exists>i<n. same_page x (b + of_nat i * PAGE_SIZE)) \<longleftrightarrow> (\<exists>i<n. unat x div 4096 = k + i)"
    by (auto simp: same_page_unat)
  also have "\<dots> \<longleftrightarrow> k \<le> unat x div 4096 \<and> unat x div 4096 < k + n"
    by (auto intro: exI [of _ "unat x div 4096 - k"])
  also have "\<dots> \<longleftrightarrow> unat b \<le> unat x \<and> unat x < unat b + n * 4096"
    by (auto simp: k less_eq_div_iff_mult_less_eq div_less_iff_less_mult algebra_simps)
  finally show ?thesis .
qed

text \<open>
  The growth rests on the interface of the kernel address space: new pages get frames of
  their own, old ones keep theirs.
\<close>

lemma heap_expand_some:
  assumes ok: "kernel_ok (hvm s)" "page_aligned (heap_brk s)"
    and n: "n = (unat nb + 4095) div 4096" and nb: "unat nb + 4095 < 4294967296"
    and lim: "unat (heap_brk s) + n * 4096 < 4294967296" and room: "2 * n \<le> frames_left (hvm s)"
  obtains v b where "heap_expand nb s = Some (s\<lparr>hvm := v, heap_brk := b\<rparr>)"
    "unat b = unat (heap_brk s) + n * 4096" "page_aligned b" "kernel_ok v"
    "frames_left (hvm s) \<le> frames_left v + 2 * n"
    "\<And>c. unat c < unat (heap_brk s) \<Longrightarrow> backed s c \<Longrightarrow> backed (s\<lparr>hvm := v, heap_brk := b\<rparr>) c"
    "\<And>c. unat (heap_brk s) \<le> unat c \<Longrightarrow> unat c < unat b \<Longrightarrow> backed (s\<lparr>hvm := v, heap_brk := b\<rparr>) c"
proof -
  let ?needed = "(nb + PAGE_SIZE - 1) AND NOT (PAGE_SIZE - 1)"
  have need: "unat ?needed = n * 4096" using needed_eq [OF nb] n by simp
  then have cnt: "unat ?needed div 4096 = n" by simp
  obtain v where v: "for_range 0 n (\<lambda>i v. do { (a, v) \<leftarrow> frame_alloc_vm v;
       kernel_map (heap_brk s + of_nat i * PAGE_SIZE) a v }) (hvm s) = Some v" "kernel_ok v"
    "frames_left (hvm s) \<le> frames_left v + 2 * n"
    "\<And>x. \<exists>i<n. same_page x (heap_brk s + of_nat i * PAGE_SIZE) \<Longrightarrow> \<exists>f. kernel_lookup v x = Some f \<and> f \<noteq> 0"
    "\<And>x. \<forall>i<n. \<not> same_page x (heap_brk s + of_nat i * PAGE_SIZE) \<Longrightarrow> kernel_lookup v x = kernel_lookup (hvm s) x"
    using kvm.map_pages [OF ok(1) room, of "heap_brk s"] by blast
  note P = page_addr_in [OF ok(2) lim]
  define b where "b = heap_brk s + ?needed"
  have b: "unat b = unat (heap_brk s) + n * 4096" using lim need by (simp add: b_def unat_add_small)
  show thesis
  proof (rule that)
    show "heap_expand nb s = Some (s\<lparr>hvm := v, heap_brk := b\<rparr>)"
      by (simp only: heap_expand_def Let_def cnt v(1) Option.bind.bind_lunit b_def)
    show "page_aligned b" using ok(2) b by (simp add: page_aligned_def)
    show "backed (s\<lparr>hvm := v, heap_brk := b\<rparr>) c" if "unat c < unat (heap_brk s)" "backed s c" for c
    proof -
      have "kernel_lookup v c = kernel_lookup (hvm s) c"
        using that(1) P [of c] by (intro v(5)) auto
      with that(2) show ?thesis by (simp add: backed_def)
    qed
    show "backed (s\<lparr>hvm := v, heap_brk := b\<rparr>) c" if "unat (heap_brk s) \<le> unat c" "unat c < unat b" for c
    proof -
      have "\<exists>f. kernel_lookup v c = Some f \<and> f \<noteq> 0" using that P [of c] b by (intro v(4)) simp
      then show ?thesis by (auto simp: backed_def)
    qed
  qed (use b v in simp_all)
qed

text \<open>A new block behind the last one.\<close>

lemma appended_seg:
  assumes seg: "seg m p a (us @ [b]) 0" and lim: "a + span (us @ [b]) + (20 + k) \<le> 4294967296"
    and l: "l = adr (a + span us)" and n: "n = adr (a + span (us @ [b]))"
    and M: "M = wrf n Prev l (wrf l Next n (wrf n Prev 0 (wrf n Next 0 (wrf n Free 1
              (wrf n Size (of_nat k) (wrf n Magic HEAP_MAGIC m))))))"
  shows "seg M p a (us @ [b, (k, True)]) 0" and "keeps m M (live_at a (us @ [b]))"
proof -
  let ?l = "a + span us" and ?n = "a + span us + (20 + fst b)"
  have n': "n = adr ?n" using n by (simp add: add.assoc)
  have ul: "unat l = ?l" unfolding l by (rule unat_adr) (use lim in simp)
  have un: "unat n = ?n" unfolding n' by (rule unat_adr) (use lim in simp)
  from seg have S: "seg m p a us l" "header m ?l b 0 (last_hd p a us)"
    by (simp_all add: seg_append l)
  have byte: "M c = m c" if "unat c < ?l \<or> ?l + 20 \<le> unat c" "unat c < ?n" for c
    using that lim ul un unfolding M by (auto simp: wrf_byte)
  have fl: "rdf M l f = (if f = Next then n else rdf m l f)" for f
    using lim ul un unfolding M by (auto simp: rdf_wrf)
  have fn: "rdf M n f = (case f of Magic \<Rightarrow> HEAP_MAGIC | Size \<Rightarrow> of_nat k | Free \<Rightarrow> 1 | Next \<Rightarrow> 0 | Prev \<Rightarrow> l)" for f
    using lim ul un unfolding M by (cases f) (auto simp: rdf_wrf)
  have "seg M p a us l" using S(1) seg_cong [of a us M m p l] byte lim by simp
  moreover have "header M ?l b n (last_hd p a us)"
    using S(2) fl unfolding header_def l [symmetric] Let_def by simp
  moreover have "header M ?n (k, True) 0 l"
    using fn unfolding header_def n' [symmetric] Let_def by simp
  ultimately show "seg M p a (us @ [b, (k, True)]) 0"
    by (simp add: seg_append l n' add.assoc)
  show "keeps m M (live_at a (us @ [b]))"
  proof (rule keepsI)
    fix q j and c :: u32
    assume q: "live_at a (us @ [b]) q = Some j" "q \<le> unat c" "unat c < q + j"
    from live_at_hdr [OF q(1)] live_at_range [OF q(1)] q(2,3) show "M c = m c" by (intro byte) auto
  qed
qed

lemma joined_end:
  obtains us K where "joined bs (k, True) [] = us @ [(K, True)]" "k \<le> K" "set us \<subseteq> set bs"
  "live_at a (us @ [(K, True)]) = live_at a bs"
proof -
  have lv: "live_at a (joined bs (k, True) []) = live_at a bs"
    unfolding live_at_joined by (auto simp: live_at_append fun_eq_iff split: option.split)
  show thesis
  proof (cases "bs \<noteq> [] \<and> snd (last bs)")
    case True
    then have "joined bs (k, True) [] = butlast bs @ [(fst (last bs) + (20 + k), True)]"
      by (simp add: joined_def merge_prev_def)
    with lv show thesis by (intro that [of "butlast bs"]) (auto dest: in_set_butlastD)
  next
    case False
    then have "joined bs (k, True) [] = bs @ [(k, True)]"
      by (auto simp: joined_def merge_prev_def)
    with lv show thesis by (intro that [of bs]) auto
  qed
qed

definition grow_pages :: "nat \<Rightarrow> nat" where
  "grow_pages k = (k + 20 + 4096 + 4095) div 4096"

lemma grow_some:
  assumes T: "tiled s bs" and n: "n = grow_pages (unat req)" and rq: "unat req + 8211 < 4294967296"
    and lim: "unat (heap_brk s) + n * 4096 < 4294967296" and room: "2 * n \<le> frames_left (hvm s)"
  obtains t where "grow req s = Some t" "tiled t (joined bs (n * 4096 - 20, True) [])"
    "keeps (hmem s) (hmem t) (live_at HS bs)" "unat (heap_brk t) = unat (heap_brk s) + n * 4096"
    "frames_left (hvm s) \<le> frames_left (hvm t) + 2 * n"
proof -
  note D = tiledD [OF T]
  obtain us b where bs: "bs = us @ [b]" using D(6) by (cases bs rule: rev_cases) auto
  let ?k = "n * 4096 - 20"
  have npos: "2 \<le> n" using n by (simp add: grow_pages_def)
  have ex: "unat (req + HDR + PAGE_SIZE) = unat req + 4116"
    using rq by (simp add: HDR_def PAGE_SIZE_def unat_add_small)
  obtain v e where v: "heap_expand (req + HDR + PAGE_SIZE) s = Some (s\<lparr>hvm := v, heap_brk := e\<rparr>)"
    "unat e = unat (heap_brk s) + n * 4096" "page_aligned e" "kernel_ok v"
    "frames_left (hvm s) \<le> frames_left v + 2 * n"
    "\<And>c. unat c < unat (heap_brk s) \<Longrightarrow> backed s c \<Longrightarrow> backed (s\<lparr>hvm := v, heap_brk := e\<rparr>) c"
    "\<And>c. unat (heap_brk s) \<le> unat c \<Longrightarrow> unat c < unat e \<Longrightarrow> backed (s\<lparr>hvm := v, heap_brk := e\<rparr>) c"
    by (rule heap_expand_some [OF D(5,7) _ _ lim room, of "req + HDR + PAGE_SIZE"])
      (use n rq ex in \<open>auto simp: grow_pages_def\<close>)
  define s1 where "s1 = s\<lparr>hvm := v, heap_brk := e\<rparr>"
  define nb where "nb = heap_brk s"
  have nb: "nb = adr (HS + span bs)" using adr_unat [of nb] D(2) by (simp add: nb_def)
  have unb: "unat nb = HS + span bs" using D(2) by (simp add: nb_def)
  have s1: "hmem s1 = hmem s" "heap_head s1 = HEAP_START" "heap_brk s1 = e"
    using D(4) by (simp_all add: s1_def)
  have bk: "backed s1 c" if "HS \<le> unat c" "unat c < HS + span bs + n * 4096" for c
    using v(6,7) [of c] D(2,8) that v(2) by (cases "unat c < HS + span bs") (auto simp: s1_def)
  have lim': "HS + span bs + n * 4096 < 4294967296" using lim D(2) by simp
  have hn: "hdr_backed s1 nb"
    unfolding hdr_backed_def using unb npos bk lim' by auto
  have ks: "e - nb - HDR = of_nat ?k"
  proof (rule u32_eq_of_nat)
    have "nb \<le> e" using v(2) by (simp add: word_le_nat_alt nb_def)
    then have "unat (e - nb) = n * 4096" using v(2) by (simp add: unat_sub_small nb_def)
    then show "unat (e - nb - HDR) = ?k"
      using npos by (simp add: HDR_def unat_sub_small word_le_nat_alt)
  qed
  define l where "l = adr (HS + span us)"
  define m1 where "m1 = wrf nb Prev 0 (wrf nb Next 0 (wrf nb Free 1
       (wrf nb Size (of_nat ?k) (wrf nb Magic HEAP_MAGIC (hmem s)))))"
  define m2 where "m2 = wrf nb Prev l (wrf l Next nb m1)"
  have nb20: "unat nb + 20 \<le> 4294967296" using lim' npos unb by simp
  have "seg m1 0 HS bs 0"
    using D(3) seg_cong [of HS bs m1 "hmem s" 0 0] unb nb20 D(1) by (simp add: m1_def wrf_byte)
  then have L: "linked (s1\<lparr>hmem := m1\<rparr>) (us @ [] @ [b])"
    using D(1) bk bs by (simp add: linked_def)
  have hl: "hdr_backed s1 l" using linked_hdr [of "s1\<lparr>hmem := m1\<rparr>" us b "[]"] L by (simp add: l_def)
  have lb: "last_block HEAP_START (s1\<lparr>hmem := m1\<rparr>) = Some l"
    using last_block_last [of "s1\<lparr>hmem := m1\<rparr>" "[]" us b] L by (simp add: HEAP_START_adr l_def)
  have A: "seg m2 0 HS (us @ [b, (?k, True)]) 0" "keeps (hmem s) m2 (live_at HS (us @ [b]))"
    using appended_seg [of "hmem s" 0 HS us b ?k l nb m2] D(3) bs lim' npos l_def nb m1_def m2_def
    by auto
  have "tiled (s1\<lparr>hmem := m2\<rparr>) (bs @ [(?k, True)])"
    using v(2-4) s1 bk A(1) bs D(2) npos unfolding tiled_def by (simp add: s1_def)
  moreover obtain m where m: "coalesce nb (s1\<lparr>hmem := m2\<rparr>) = Some (s1\<lparr>hmem := m2\<rparr>\<lparr>hmem := m\<rparr>)"
    "tiled (s1\<lparr>hmem := m2\<rparr>\<lparr>hmem := m\<rparr>) (joined bs (?k, True) [])"
    "keeps (hmem (s1\<lparr>hmem := m2\<rparr>)) m (live_at HS (bs @ [(?k, True)]))"
    by (rule coalesce_some [OF calculation nb]) blast
  have run: "grow req s = Some (s1\<lparr>hmem := m\<rparr>)"
    using v(1) s1 hn hl lb m(1) ks
    unfolding grow_def Let_def s1_def [symmetric] nb_def [symmetric]
    by (simp add: m1_def [symmetric] m2_def [symmetric])
  show thesis
  proof (rule that [OF run])
    show "tiled (s1\<lparr>hmem := m\<rparr>) (joined bs (n * 4096 - 20, True) [])" using m(2) by simp
    have "live_at HS (bs @ [(?k, True)]) = live_at HS bs"
      by (auto simp: live_at_append fun_eq_iff split: option.split)
    with m(3) A(2) bs show "keeps (hmem s) (hmem (s1\<lparr>hmem := m\<rparr>)) (live_at HS bs)"
      by (auto intro: keeps_trans)
  qed (use v in \<open>simp_all add: s1_def\<close>)
qed

section \<open>Allocating\<close>

definition round8 :: "nat \<Rightarrow> nat" where
  "round8 k = (k + 7) div 8 * 8"

lemma round8_ge: "k \<le> round8 k" and round8_lt: "round8 k < k + 8"
  and round8_idem [simp]: "round8 (round8 k) = round8 k"
  by (simp_all add: round8_def)

lemma round8_pos: "0 < k \<Longrightarrow> 0 < round8 k"
  using round8_ge [of k] by simp

lemma unat_mask3: "unat (x AND NOT 7 :: u32) = unat x div 8 * 8"
proof -
  have seven: "(7 :: u32) = mask 3" by (simp add: mask_eq_exp_minus_1)
  have "x AND NOT 7 = push_bit 3 (drop_bit 3 x)"
    unfolding seven by (rule bit_eqI) (auto simp: bit_simps)
  also have "\<dots> = drop_bit 3 x * 8" by (simp add: push_bit_eq_mult)
  finally have eq: "x AND NOT 7 = drop_bit 3 x * 8" .
  have "unat x div 8 * 8 < 4294967296"
    using unat_u32_lt [of x] div_times_less_eq_dividend [of "unat x" 8] by linarith
  then show ?thesis unfolding eq by (simp add: unat_mult_small unat_drop_bit_u32)
qed

lemma unat_round8: "unat n + 7 < 4294967296 \<Longrightarrow> unat ((n + 7) AND NOT 7 :: u32) = round8 (unat n)"
  by (simp only: unat_mask3) (simp add: unat_add_small round8_def)

lemma kmalloc_hit:
  assumes ok: "heap_ok s" and n: "n \<noteq> 0" "unat n + 7 < 4294967296" and k: "k = round8 (unat n)"
    and bs: "blocks s = xs @ (sz, True) # ys" and first: "\<forall>x\<in>set xs. \<not> fits k x" and sz: "k \<le> sz"
  obtains m where "kmalloc n s = Some (adr (HS + span xs) + HDR, s\<lparr>hmem := m\<rparr>)"
    "heap_ok (s\<lparr>hmem := m\<rparr>)" "blocks (s\<lparr>hmem := m\<rparr>) = xs @ carve k sz @ ys"
    "keeps (hmem s) m (live_at HS (blocks s))"
proof -
  let ?req = "(n + 7) AND NOT 7"
  have rq: "unat ?req = k" using unat_round8 [OF n(2)] k by simp
  have T: "tiled s ([] @ xs @ (sz, True) # ys)" using heap_okD(1) [OF ok] bs by simp
  then have T': "tiled s (xs @ (sz, True) # ys)" by simp
  have "first_fit ?req (heap_head s) s = Some (adr (HS + span xs))"
    using first_fit_found [OF T, of ?req] first sz rq tiledD(4) [OF T']
    by (simp add: fits_def HEAP_START_adr)
  moreover have "adr (HS + span xs) \<noteq> 0" using hdr_backedD(1) [OF tiled_hdr [OF T']] .
  moreover obtain m where m: "take_block (adr (HS + span xs)) ?req s = Some (adr (HS + span xs) + HDR, s\<lparr>hmem := m\<rparr>)"
    "tiled (s\<lparr>hmem := m\<rparr>) (xs @ carve k sz @ ys)"
    "keeps (hmem s) m (live_at HS (xs @ (sz, True) # ys))"
    using take_block_some [OF T' refl, of ?req] sz unfolding rq by blast
  ultimately have "kmalloc n s = Some (adr (HS + span xs) + HDR, s\<lparr>hmem := m\<rparr>)"
    using n(1) by (subst kmalloc.simps) (simp only: Let_def if_False if_True not_False_eq_True Option.bind.bind_lunit)
  moreover have "separated (xs @ carve k sz @ ys)"
    using heap_okD(2) [OF ok] unfolding bs
    by (auto simp: carve_def separated_append separated_Cons)
  ultimately show thesis
    using m(2,3) by (intro that) (auto simp: bs tiled_blocks intro: heap_okI)
qed

text \<open>What the heap needs to grow for a request of \<open>n\<close> bytes.\<close>

definition heap_room :: "heap \<Rightarrow> nat \<Rightarrow> bool" where
  "heap_room s n \<longleftrightarrow> (let k = round8 n; p = grow_pages k in n + 7 < 4294967296 \<and> k + 8211 < 4294967296
     \<and> unat (heap_brk s) + p * 4096 < 4294967296 \<and> 2 * p \<le> frames_left (hvm s))"

lemma kmalloc_miss:
  assumes ok: "heap_ok s" and n: "n \<noteq> 0" and room: "heap_room s (unat n)" and k: "k = round8 (unat n)"
    and miss: "\<forall>x\<in>set (blocks s). \<not> fits k x"
  obtains t us K where "kmalloc n s = Some (adr (HS + span us) + HDR, t)" "heap_ok t"
    "joined (blocks s) (grow_pages k * 4096 - 20, True) [] = us @ [(K, True)]"
    "blocks t = us @ carve k K" "k \<le> K" "live_at HS (us @ [(K, True)]) = live_at HS (blocks s)"
    "keeps (hmem s) (hmem t) (live_at HS (blocks s))"
    "unat (heap_brk t) = unat (heap_brk s) + grow_pages k * 4096"
    "frames_left (hvm s) \<le> frames_left (hvm t) + 2 * grow_pages k"
proof -
  let ?req = "(n + 7) AND NOT 7" and ?p = "grow_pages k"
  from room k have R: "unat n + 7 < 4294967296" "k + 8211 < 4294967296"
    "unat (heap_brk s) + ?p * 4096 < 4294967296" "2 * ?p \<le> frames_left (hvm s)"
    by (simp_all add: heap_room_def Let_def)
  have rq: "unat ?req = k" using unat_round8 [OF R(1)] k by simp
  have T: "tiled s (blocks s)" by (rule heap_okD(1) [OF ok])
  have "blocks s \<noteq> []" by (rule tiledD(6) [OF T])
  then have ff: "first_fit ?req (heap_head s) s = Some 0"
    using first_fit_none [of s "[]" "blocks s" ?req] T miss rq tiledD(4) [OF T]
    by (simp add: HEAP_START_adr)
  obtain t where t: "grow ?req s = Some t" "tiled t (joined (blocks s) (?p * 4096 - 20, True) [])"
    "keeps (hmem s) (hmem t) (live_at HS (blocks s))" "unat (heap_brk t) = unat (heap_brk s) + ?p * 4096"
    "frames_left (hvm s) \<le> frames_left (hvm t) + 2 * ?p"
    by (rule grow_some [OF T, of ?p ?req]) (use R rq in auto)
  obtain us K where j: "joined (blocks s) (?p * 4096 - 20, True) [] = us @ [(K, True)]"
    "?p * 4096 - 20 \<le> K" "set us \<subseteq> set (blocks s)"
    "live_at HS (us @ [(K, True)]) = live_at HS (blocks s)"
    by (rule joined_end)
  have T1: "tiled t (us @ [(K, True)])" using t(2) j(1) by simp
  have bt: "blocks t = us @ [(K, True)]" by (rule tiled_blocks [OF T1])
  have "separated (joined (blocks s) (?p * 4096 - 20, True) [])"
    by (rule joined_separated [where j = 0]) (use heap_okD(2) [OF ok] in \<open>simp_all add: separated_append\<close>)
  then have okt: "heap_ok t" using heap_okI [OF t(2)] by simp
  have kK: "k \<le> K" using j(2) unfolding grow_pages_def by linarith
  have "0 < k" using n k by (simp add: round8_pos unat_gt_0)
  then have nz: "?req \<noteq> 0" using rq by auto
  have kk: "k = round8 (unat ?req)" unfolding rq using k by simp
  obtain m where m: "kmalloc ?req t = Some (adr (HS + span us) + HDR, t\<lparr>hmem := m\<rparr>)"
    "heap_ok (t\<lparr>hmem := m\<rparr>)" "blocks (t\<lparr>hmem := m\<rparr>) = us @ carve k K @ []"
    "keeps (hmem t) m (live_at HS (blocks t))"
    by (rule kmalloc_hit [OF okt nz _ kk bt _ kK]) (use rq R(2) j(3) miss in auto)
  have "kmalloc n s = Some (adr (HS + span us) + HDR, t\<lparr>hmem := m\<rparr>)"
    using n ff t(1) m(1) by (subst kmalloc.simps) (simp only: Let_def if_False if_True simp_thms Option.bind.bind_lunit)
  moreover have "keeps (hmem s) m (live_at HS (blocks s))"
    using keeps_trans [OF t(3)] m(4) bt j(4) by simp
  ultimately show thesis
    by (intro that [of us "t\<lparr>hmem := m\<rparr>" K]) (use m j t kK in simp_all)
qed

section \<open>The interface of the heap\<close>

text \<open>
  What a client of a heap relies on: a block that is handed out is new and large enough, the
  blocks that are held never overlap, and no operation touches the contents of a held block.
  \<open>held s p\<close> is the size of the block that \<open>p\<close> points to, if it is held.
\<close>

locale allocator =
  fixes alloc :: "u32 \<Rightarrow> 's \<Rightarrow> (u32 \<times> 's) option"
    and release :: "u32 \<Rightarrow> 's \<Rightarrow> 's option"
    and held :: "'s \<Rightarrow> u32 \<Rightarrow> nat option"
    and byte :: "'s \<Rightarrow> u32 \<Rightarrow> u8"
    and ok :: "'s \<Rightarrow> bool"
    and enough :: "'s \<Rightarrow> nat \<Rightarrow> bool"
  assumes alloc_ok: "ok s \<Longrightarrow> n \<noteq> 0 \<Longrightarrow> enough s (unat n) \<Longrightarrow>
      \<exists>p t k. alloc n s = Some (p, t) \<and> ok t \<and> p \<noteq> 0 \<and> held s p = None \<and> held t = (held s)(p \<mapsto> k)
        \<and> unat n \<le> k
        \<and> (\<forall>q l c. held s q = Some l \<longrightarrow> unat q \<le> unat c \<longrightarrow> unat c < unat q + l \<longrightarrow> byte t c = byte s c)"
    and release_ok: "ok s \<Longrightarrow> held s p \<noteq> None \<Longrightarrow>
      \<exists>t. release p s = Some t \<and> ok t \<and> held t = (held s)(p := None)
        \<and> (\<forall>q l c. q \<noteq> p \<longrightarrow> held s q = Some l \<longrightarrow> unat q \<le> unat c \<longrightarrow> unat c < unat q + l
             \<longrightarrow> byte t c = byte s c)"
    and held_apart: "ok s \<Longrightarrow> held s p = Some k \<Longrightarrow> held s q = Some l \<Longrightarrow> p \<noteq> q \<Longrightarrow>
      unat p + k \<le> unat q \<or> unat q + l \<le> unat p"
    and held_lim: "ok s \<Longrightarrow> held s p = Some k \<Longrightarrow> unat p + k < 4294967296"
begin

text \<open>Allocating and releasing leaves the held blocks as they were.\<close>

lemma alloc_release:
  assumes "ok s" and "n \<noteq> 0" and "enough s (unat n)"
  shows "\<exists>p t u. alloc n s = Some (p, t) \<and> release p t = Some u \<and> ok u \<and> held u = held s
    \<and> (\<forall>q l c. held s q = Some l \<longrightarrow> unat q \<le> unat c \<longrightarrow> unat c < unat q + l \<longrightarrow> byte u c = byte s c)"
proof -
  obtain p t k where t: "alloc n s = Some (p, t)" "ok t" "held s p = None" "held t = (held s)(p \<mapsto> k)"
    "\<And>q l c. held s q = Some l \<Longrightarrow> unat q \<le> unat c \<Longrightarrow> unat c < unat q + l \<Longrightarrow> byte t c = byte s c"
    using alloc_ok [OF assms] by blast
  have "held t p \<noteq> None" by (simp add: t(4))
  then obtain u where u: "release p t = Some u" "ok u" "held u = (held t)(p := None)"
    "\<And>q l c. q \<noteq> p \<Longrightarrow> held t q = Some l \<Longrightarrow> unat q \<le> unat c \<Longrightarrow> unat c < unat q + l \<Longrightarrow> byte u c = byte t c"
    using release_ok [OF t(2)] by blast
  have "held u = held s" using t(3,4) u(3) by (simp add: fun_eq_iff)
  moreover have "byte u c = byte s c"
    if "held s q = Some l" "unat q \<le> unat c" "unat c < unat q + l" for q l c
  proof -
    have "q \<noteq> p" using that(1) t(3) by auto
    then show ?thesis using u(4) [of q l c] t(4,5) that by simp
  qed
  ultimately show ?thesis using t(1) u(1,2) by blast
qed

end

text \<open>With access to the bytes of the held blocks.\<close>

locale heap_memory = allocator +
  fixes load :: "u32 \<Rightarrow> 's \<Rightarrow> u8 option"
    and store :: "u32 \<Rightarrow> u8 \<Rightarrow> 's \<Rightarrow> 's option"
  assumes load_ok: "ok s \<Longrightarrow> held s p = Some k \<Longrightarrow> unat p \<le> unat c \<Longrightarrow> unat c < unat p + k \<Longrightarrow>
      load c s = Some (byte s c)"
    and store_ok: "ok s \<Longrightarrow> held s p = Some k \<Longrightarrow> unat p \<le> unat c \<Longrightarrow> unat c < unat p + k \<Longrightarrow>
      \<exists>t. store c v s = Some t \<and> ok t \<and> held t = held s \<and> byte t = (byte s)(c := v)"
begin

text \<open>The loop \<^verbatim>\<open>for (i = 0; i < n; i++) d[i] = s[i]\<close> between two held blocks.\<close>

lemma copy_loop:
  assumes ok: "ok s" and p: "held s p = Some k" and q: "held s q = Some l" and "p \<noteq> q"
    and src: "i + n \<le> k" and dst: "j + n \<le> l"
  shows "\<exists>t. for_range 0 n (\<lambda>x s. do { b \<leftarrow> load (p + of_nat (i + x)) s; store (q + of_nat (j + x)) b s }) s = Some t
    \<and> ok t \<and> held t = held s
    \<and> (\<forall>c. byte t c = (if unat q + j \<le> unat c \<and> unat c < unat q + j + n
                       then byte s (p + of_nat (i + (unat c - (unat q + j)))) else byte s c))"
proof -
  note apart = held_apart [OF ok p q assms(4)] and lims = held_lim [OF ok p] held_lim [OF ok q]
  have up: "unat (p + of_nat x) = unat p + x" if "x < k" for x
    using lims that by (simp add: unat_add_small unat_of_nat_small)
  have uq: "unat (q + of_nat x) = unat q + x" if "x < l" for x
    using lims that by (simp add: unat_add_small unat_of_nat_small)
  let ?P = "\<lambda>x t. ok t \<and> held t = held s
    \<and> (\<forall>c. byte t c = (if unat q + j \<le> unat c \<and> unat c < unat q + j + x
                       then byte s (p + of_nat (i + (unat c - (unat q + j)))) else byte s c))"
  have step: "\<exists>t'. do { b \<leftarrow> load (p + of_nat (i + x)) t; store (q + of_nat (j + x)) b t } = Some t' \<and> ?P (Suc x) t'"
    if x: "x < n" and P: "?P x t" for x t
  proof -
    have ui: "unat (p + of_nat (i + x)) = unat p + (i + x)" by (rule up) (use x src in simp)
    have uj: "unat (q + of_nat (j + x)) = unat q + (j + x)" by (rule uq) (use x dst in simp)
    have ld: "load (p + of_nat (i + x)) t = Some (byte t (p + of_nat (i + x)))"
      by (rule load_ok [of t p k]) (use P p ui x src in auto)
    have same: "byte t (p + of_nat (i + x)) = byte s (p + of_nat (i + x))"
      using P apart x src dst ui by auto
    obtain t' where t': "store (q + of_nat (j + x)) (byte s (p + of_nat (i + x))) t = Some t'" "ok t'"
      "held t' = held t" "byte t' = (byte t)(q + of_nat (j + x) := byte s (p + of_nat (i + x)))"
      using store_ok [of t q l "q + of_nat (j + x)"] P q uj x dst by auto
    have "byte t' c = (if unat q + j \<le> unat c \<and> unat c < unat q + j + Suc x
                       then byte s (p + of_nat (i + (unat c - (unat q + j)))) else byte s c)" for c
    proof (cases "unat c = unat q + (j + x)")
      case True
      then have c: "c = q + of_nat (j + x)" using uj by (simp only: u32_eq_iff_unat)
      have "unat c - (unat q + j) = x" using True by simp
      moreover have "byte t' c = byte s (p + of_nat (i + x))" by (simp add: t'(4) c)
      ultimately show ?thesis using True by simp
    next
      case False
      then have "c \<noteq> q + of_nat (j + x)" using uj by metis
      then have "byte t' c = byte t c" by (simp add: t'(4))
      moreover have "unat c < unat q + j + Suc x \<longleftrightarrow> unat c < unat q + j + x" using False by auto
      ultimately show ?thesis using P by simp
    qed
    with ld same t' P show ?thesis by simp
  qed
  have "?P 0 s" using ok by auto
  then have "\<exists>t. for_range 0 n (\<lambda>x s. do { b \<leftarrow> load (p + of_nat (i + x)) s; store (q + of_nat (j + x)) b s }) s = Some t \<and> ?P n t"
    using step by (intro for_range_inv) auto
  then show ?thesis by blast
qed

end

section \<open>The heap provides its interface\<close>

definition serves :: "heap \<Rightarrow> nat \<Rightarrow> bool" where
  "serves s n \<longleftrightarrow> n + 7 < 4294967296
     \<and> ((\<exists>b\<in>set (blocks s). fits (round8 n) b) \<or> heap_room s n)"

lemma payload_addr:
  assumes "tiled s (xs @ b # ys)"
  shows "unat (adr (HS + span xs) + HDR) = HS + span xs + 20"
proof -
  have lt: "HS + span xs + 20 < 4294967296" using tiledD(1) [OF assms] by simp
  then have "unat (adr (HS + span xs)) = HS + span xs" by (intro unat_adr) simp
  then show ?thesis using lt by (simp add: HDR_def unat_add_small)
qed

lemma held_fresh: "live_at a (xs @ (k, True) # ys) (a + span xs + 20) = None"
  by (simp add: live_at_append live_at_after live_at_before)

lemma kmalloc_contract:
  assumes ok: "heap_ok s" and n: "n \<noteq> 0" and sv: "serves s (unat n)"
  obtains p t k where "kmalloc n s = Some (p, t)" "heap_ok t" "p \<noteq> 0" "live s p = None"
    "live t = (live s)(p \<mapsto> k)" "unat n \<le> k" "keeps (hmem s) (hmem t) (live_at HS (blocks s))"
proof -
  let ?k = "round8 (unat n)"
  note got = that
  have n7: "unat n + 7 < 4294967296" using sv by (simp add: serves_def)
  have fin: thesis
    if run: "kmalloc n s = Some (adr (HS + span xs) + HDR, t)" and okt: "heap_ok t"
      and bt: "blocks t = xs @ carve ?k sz @ ys" and sz: "?k \<le> sz"
      and lv: "live_at HS (xs @ (sz, True) # ys) = live_at HS (blocks s)"
      and kp: "keeps (hmem s) (hmem t) (live_at HS (blocks s))"
    for xs sz ys t
  proof -
    let ?p = "adr (HS + span xs) + HDR" and ?k' = "if ?k + 28 \<le> sz then ?k else sz"
    obtain b zs where "carve ?k sz @ ys = b # zs"
      by (cases "carve ?k sz @ ys") (auto simp: carve_def split: if_splits)
    then have T: "tiled t (xs @ b # zs)" using heap_okD(1) [OF okt] bt by simp
    have up: "unat ?p = HS + span xs + 20" by (rule payload_addr [OF T])
    have "live t = (live s)(?p \<mapsto> ?k')"
    proof
      fix q
      have "live t q = ((live_at HS (blocks s))(HS + span xs + 20 \<mapsto> ?k')) (unat q)"
        unfolding live_def bt live_at_carved lv ..
      then show "live t q = ((live s)(?p \<mapsto> ?k')) q"
        by (simp only: fun_upd_def live_def u32_eq_iff_unat up)
    qed
    moreover have "live s ?p = None" unfolding live_def up lv [symmetric] by (rule held_fresh)
    moreover have "?p \<noteq> 0" using up by auto
    moreover have "unat n \<le> ?k'" using round8_ge [of "unat n"] sz by simp
    ultimately show thesis using run okt kp by (intro got)
  qed
  show thesis
  proof (cases "\<exists>b\<in>set (blocks s). fits ?k b")
    case True
    then obtain xs b ys where b: "blocks s = xs @ b # ys" "fits ?k b" "\<forall>x\<in>set xs. \<not> fits ?k x"
      using split_list_first_prop by metis
    then obtain sz where sz: "b = (sz, True)" "?k \<le> sz" by (cases b) (auto simp: fits_def)
    obtain m where m: "kmalloc n s = Some (adr (HS + span xs) + HDR, s\<lparr>hmem := m\<rparr>)"
      "heap_ok (s\<lparr>hmem := m\<rparr>)" "blocks (s\<lparr>hmem := m\<rparr>) = xs @ carve ?k sz @ ys"
      "keeps (hmem s) m (live_at HS (blocks s))"
      by (rule kmalloc_hit [OF ok n n7 refl _ b(3) sz(2), of ys]) (use b(1) sz(1) in auto)
    show thesis by (rule fin [OF m(1-3) sz(2)]) (use m(4) b(1) sz(1) in simp_all)
  next
    case False
    with sv have room: "heap_room s (unat n)" by (simp add: serves_def)
    obtain t us K where t: "kmalloc n s = Some (adr (HS + span us) + HDR, t)" "heap_ok t"
      "blocks t = us @ carve ?k K" "?k \<le> K" "live_at HS (us @ [(K, True)]) = live_at HS (blocks s)"
      "keeps (hmem s) (hmem t) (live_at HS (blocks s))"
      by (rule kmalloc_miss [OF ok n room refl]) (use False in auto)
    show thesis by (rule fin [OF t(1,2) _ t(4)]) (use t in simp_all)
  qed
qed

lemma live_byte_hdr:
  assumes ok: "heap_ok s" and p: "live s p = Some k" and c: "unat p \<le> unat c" "unat c < unat p + k"
  shows "heap_ok (s\<lparr>hmem := (hmem s)(c := v)\<rparr>)" "blocks (s\<lparr>hmem := (hmem s)(c := v)\<rparr>) = blocks s"
    and "backed s c" and "c \<noteq> 0"
proof -
  obtain xs ys where b: "blocks s = xs @ (k, False) # ys" "unat p = HS + span xs + 20"
    by (rule live_split [OF ok p])
  have T: "tiled s (xs @ (k, False) # ys)" using heap_okD(1) [OF ok] b(1) by simp
  note D = tiledD [OF T]
  let ?m = "(hmem s)(c := v)"
  have S: "seg (hmem s) 0 HS xs (adr (HS + span xs))"
      "header (hmem s) (HS + span xs) (k, False) (if ys = [] then 0 else adr (HS + span xs + (20 + k))) (last_hd 0 HS xs)"
      "seg (hmem s) (adr (HS + span xs)) (HS + span xs + (20 + k)) ys 0"
    using D(3) by (simp_all add: seg_append add.assoc cong: if_cong)
  have out: "?m d = hmem s d" if "unat d < HS + span xs + 20 \<or> HS + span xs + 20 + k \<le> unat d" for d
    using that b(2) c by auto
  have "seg ?m 0 HS xs (adr (HS + span xs)) = seg (hmem s) 0 HS xs (adr (HS + span xs))"
    by (rule seg_cong) (use D(1) out in auto)
  moreover have "header ?m (HS + span xs) (k, False) (if ys = [] then 0 else adr (HS + span xs + (20 + k))) (last_hd 0 HS xs)"
    using S(2) header_cong [of "HS + span xs" ?m "hmem s"] D(1) out by auto
  moreover have "seg ?m (adr (HS + span xs)) (HS + span xs + (20 + k)) ys 0
      = seg (hmem s) (adr (HS + span xs)) (HS + span xs + (20 + k)) ys 0"
    by (rule seg_cong) (use D(1) out in auto)
  ultimately have "seg ?m 0 HS (xs @ (k, False) # ys) 0"
    using S(1,3) by (simp add: seg_append add.assoc cong: if_cong)
  then have "tiled (s\<lparr>hmem := ?m\<rparr>) (xs @ (k, False) # ys)" by (intro tiled_mem [OF T]) simp_all
  then show "heap_ok (s\<lparr>hmem := ?m\<rparr>)" "blocks (s\<lparr>hmem := ?m\<rparr>) = blocks s"
    using heap_okI heap_okD(2) [OF ok] b(1) tiled_blocks by simp_all
  show "backed s c" using D(8) b(2) c by simp
  show "c \<noteq> 0" using b(2) c(1) by auto
qed

interpretation kheap: heap_memory kmalloc kfree live hmem heap_ok serves get_byte put_byte
proof (unfold_locales, goal_cases)
  case (1 s n)
  then obtain p t k where t: "kmalloc n s = Some (p, t)" "heap_ok t" "p \<noteq> 0" "live s p = None"
    "live t = (live s)(p \<mapsto> k)" "unat n \<le> k" "keeps (hmem s) (hmem t) (live_at HS (blocks s))"
    by (rule kmalloc_contract)
  then show ?case unfolding keeps_def live_def by blast
next
  case (2 s p)
  then obtain k where p: "live s p = Some k" by blast
  obtain xs ys where b: "blocks s = xs @ (k, False) # ys" "p = adr (HS + span xs) + HDR"
    "unat p = HS + span xs + 20" by (rule live_split [OF 2(1) p])
  obtain m where m: "kfree p s = Some (s\<lparr>hmem := m\<rparr>)" "heap_ok (s\<lparr>hmem := m\<rparr>)"
    "live (s\<lparr>hmem := m\<rparr>) = (live s)(p := None)"
    "keeps (hmem s) m (live_at HS (xs @ (k, True) # ys))"
    by (rule kfree_some [OF 2(1) p b]) blast
  have "m c = hmem s c" if "q \<noteq> p" "live s q = Some l" "unat q \<le> unat c" "unat c < unat q + l" for q l c
  proof -
    have "live_at HS (xs @ (k, True) # ys) (unat q) = Some l"
      using that(1,2) b(1,3) unfolding live_at_free live_def by (simp add: u32_eq_iff_unat)
    then show ?thesis using m(4) that(3,4) by (simp add: keeps_def)
  qed
  with m(1-3) show ?case by auto
next
  case (3 s p k q l)
  obtain xs ys where b: "blocks s = xs @ (k, False) # ys" "unat p = HS + span xs + 20"
    by (rule live_split [OF 3(1,2)])
  from 3(3) have q: "live_at HS (xs @ (k, False) # ys) (unat q) = Some l" by (simp add: live_def b(1))
  have ne: "unat q \<noteq> HS + span xs + 20" using 3(4) b(2) by (metis word_unat_eq_iff)
  show ?case
  proof (cases "live_at HS xs (unat q)")
    case None
    with q ne have "live_at (HS + span xs + (20 + k)) ys (unat q) = Some l"
      by (simp add: live_at_append add.assoc)
    from live_at_range [OF this] b(2) show ?thesis by simp
  next
    case (Some l')
    with q have "l' = l" by (simp add: live_at_append)
    with live_at_range [OF Some] b(2) show ?thesis by simp
  qed
next
  case (4 s p k)
  then show ?case by (rule live_split) simp
next
  case (5 s p k c)
  from live_byte_hdr(3,4) [OF this] show ?case by (simp add: get_byte_def)
next
  case (6 s p k c v)
  from live_byte_hdr [OF this] show ?case by (auto simp: put_byte_def live_def)
qed

section \<open>Reallocating\<close>

lemma live_size:
  assumes ok: "heap_ok s" and p: "live s p = Some k"
  shows "get_field Size (p - HDR) s = Some (of_nat k)" "get_field Magic (p - HDR) s = Some HEAP_MAGIC"
    "k < 4294967296" "p \<noteq> 0"
proof -
  obtain xs ys where b: "blocks s = xs @ (k, False) # ys" "p = adr (HS + span xs) + HDR"
    "unat p = HS + span xs + 20" "HS + span xs + 20 + k < 4294967296" by (rule live_split [OF ok p])
  have T: "tiled s (xs @ (k, False) # ys)" using heap_okD(1) [OF ok] b(1) by simp
  have "p - HDR = adr (HS + span xs)" by (simp add: b(2))
  with tiled_hdr [OF T] tiled_fields [OF T refl]
  show "get_field Size (p - HDR) s = Some (of_nat k)" "get_field Magic (p - HDR) s = Some HEAP_MAGIC"
    by simp_all
  show "k < 4294967296" using b(4) by simp
  show "p \<noteq> 0" using b(3) by auto
qed

text \<open>The copy loop of \<^verbatim>\<open>krealloc\<close>, from round \<open>i\<close> on.\<close>

lemma copy_block_some:
  assumes p: "live s p = Some k" and q: "live s q = Some l" and "p \<noteq> q" and "k \<le> l" and "heap_ok s"
    and "i \<le> k" and "\<forall>j<i. hmem s (q + of_nat j) = hmem s (p + of_nat j)"
  shows "\<exists>t. copy_block (of_nat i) (p - HDR) q p s = Some t \<and> heap_ok t \<and> live t = live s
    \<and> (\<forall>j<k. hmem t (q + of_nat j) = hmem s (p + of_nat j))
    \<and> (\<forall>c. unat c < unat q \<or> unat q + l \<le> unat c \<longrightarrow> hmem t c = hmem s c)"
  using assms
proof (induction "k - i" arbitrary: i s)
  case 0
  then have ik: "i = k" by simp
  have "\<not> (of_nat i < (of_nat k :: u32))" by (simp add: ik)
  with 0 live_size [OF 0(6,2)] ik show ?case
    by (subst copy_block.simps) auto
next
  case (Suc n)
  then have ik: "i < k" by simp
  note ok = Suc.prems(5) and p = Suc.prems(1) and q = Suc.prems(2)
  note apart = kheap.held_apart [OF ok p q Suc.prems(3)]
    and lims = kheap.held_lim [OF ok p] kheap.held_lim [OF ok q]
  have up: "unat (p + of_nat x) = unat p + x" if "x < k" for x
    using lims that by (simp add: unat_add_small unat_of_nat_small)
  have uq: "unat (q + of_nat x) = unat q + x" if "x < l" for x
    using lims that by (simp add: unat_add_small unat_of_nat_small)
  have il: "i < l" using ik Suc.prems(4) by simp
  have lt: "of_nat i < (of_nat k :: u32)"
    using ik live_size(3) [OF ok p] by (simp add: word_less_nat_alt unat_of_nat_small)
  have ld: "get_byte (p + of_nat i) s = Some (hmem s (p + of_nat i))"
    by (rule kheap.load_ok [OF ok p]) (use up ik in simp_all)
  obtain s' where s': "put_byte (q + of_nat i) (hmem s (p + of_nat i)) s = Some s'" "heap_ok s'"
    "live s' = live s" "hmem s' = (hmem s)(q + of_nat i := hmem s (p + of_nat i))"
    using kheap.store_ok [OF ok q, of "q + of_nat i"] uq [OF il] il by auto
  have neq: "p + of_nat x \<noteq> q + of_nat i" if "x < k" for x
  proof -
    have "unat p + x \<noteq> unat q + i" using apart that il by linarith
    then show ?thesis using up [OF that] uq [OF il] by metis
  qed
  have same: "hmem s' (p + of_nat x) = hmem s (p + of_nat x)" if "x < k" for x
    using neq [OF that] by (simp add: s'(4))
  have "\<exists>t. copy_block (of_nat (Suc i)) (p - HDR) q p s' = Some t \<and> heap_ok t \<and> live t = live s'
    \<and> (\<forall>j<k. hmem t (q + of_nat j) = hmem s' (p + of_nat j))
    \<and> (\<forall>c. unat c < unat q \<or> unat q + l \<le> unat c \<longrightarrow> hmem t c = hmem s' c)"
  proof (rule Suc.hyps(1))
    show "n = k - Suc i" using Suc.hyps(2) by simp
    show "live s' p = Some k" "live s' q = Some l" using p q s'(3) by simp_all
    show "\<forall>j<Suc i. hmem s' (q + of_nat j) = hmem s' (p + of_nat j)"
    proof (intro allI impI)
      fix j assume j: "j < Suc i"
      then have jk: "j < k" using ik by simp
      show "hmem s' (q + of_nat j) = hmem s' (p + of_nat j)"
      proof (cases "j = i")
        case True
        then show ?thesis using same [OF jk] by (simp add: s'(4))
      next
        case False
        then have "j < i" using j by simp
        moreover have "q + of_nat j \<noteq> q + of_nat i"
        proof -
          have "j < l" using \<open>j < i\<close> il by simp
          from uq [OF this] uq [OF il] False show ?thesis by force
        qed
        ultimately show ?thesis using Suc.prems(7) same [OF jk] by (simp add: s'(4))
      qed
    qed
  qed (use Suc.prems s' ik in simp_all)
  then obtain t where t: "copy_block (of_nat (Suc i)) (p - HDR) q p s' = Some t" "heap_ok t" "live t = live s"
    "\<And>j. j < k \<Longrightarrow> hmem t (q + of_nat j) = hmem s (p + of_nat j)"
    "\<And>c. unat c < unat q \<or> unat q + l \<le> unat c \<Longrightarrow> hmem t c = hmem s' c"
    using s'(3) same by auto
  have "copy_block (of_nat i) (p - HDR) q p s = Some t"
    using live_size(1) [OF ok p] lt ld s'(1) t(1) by (subst copy_block.simps) (simp add: add.commute)
  moreover have "hmem t c = hmem s c" if "unat c < unat q \<or> unat q + l \<le> unat c" for c
  proof -
    have "c \<noteq> q + of_nat i" using that uq [OF il] il by auto
    with t(5) [OF that] show ?thesis by (simp add: s'(4))
  qed
  ultimately show ?case using t by blast
qed
lemma krealloc_some:
  assumes ok: "heap_ok s" and p: "live s p = Some k" and n: "k < unat n" and sv: "serves s (unat n)"
  obtains q t l where "krealloc p n s = Some (q, t)" "heap_ok t" "live s q = None" "unat n \<le> l"
    "live t = (live s)(p := None, q \<mapsto> l)"
    "\<And>j. j < k \<Longrightarrow> hmem t (q + of_nat j) = hmem s (p + of_nat j)"
    "\<And>r m c. r \<noteq> p \<Longrightarrow> live s r = Some m \<Longrightarrow> unat r \<le> unat c \<Longrightarrow> unat c < unat r + m \<Longrightarrow> hmem t c = hmem s c"
proof -
  note S = live_size [OF ok p]
  have nz: "n \<noteq> 0" using n by auto
  have le: "\<not> n \<le> of_nat k" using n S(3) by (simp add: word_le_nat_alt unat_of_nat_small)
  obtain q s1 l where q: "kmalloc n s = Some (q, s1)" "heap_ok s1" "q \<noteq> 0" "live s q = None"
    "live s1 = (live s)(q \<mapsto> l)" "unat n \<le> l"
    "\<And>r m c. live s r = Some m \<Longrightarrow> unat r \<le> unat c \<Longrightarrow> unat c < unat r + m \<Longrightarrow> hmem s1 c = hmem s c"
    using kheap.alloc_ok [OF ok nz sv] by blast
  have pq: "p \<noteq> q" using p q(4) by auto
  have l1: "live s1 p = Some k" "live s1 q = Some l" using p q(5) pq by simp_all
  obtain s2 where s2: "copy_block 0 (p - HDR) q p s1 = Some s2" "heap_ok s2" "live s2 = live s1"
    "\<And>j. j < k \<Longrightarrow> hmem s2 (q + of_nat j) = hmem s1 (p + of_nat j)"
    "\<And>c. unat c < unat q \<or> unat q + l \<le> unat c \<Longrightarrow> hmem s2 c = hmem s1 c"
    using copy_block_some [OF l1 pq _ q(2), of 0] n q(6) by auto
  have "live s2 p \<noteq> None" using s2(3) l1 by simp
  then obtain t where t: "kfree p s2 = Some t" "heap_ok t" "live t = (live s2)(p := None)"
    "\<And>r m c. r \<noteq> p \<Longrightarrow> live s2 r = Some m \<Longrightarrow> unat r \<le> unat c \<Longrightarrow> unat c < unat r + m \<Longrightarrow> hmem t c = hmem s2 c"
    using kheap.release_ok [OF s2(2)] by blast
  have lims: "unat p + k < 4294967296" "unat q + l < 4294967296"
    using kheap.held_lim [OF q(2)] l1 by auto
  have up: "unat (p + of_nat j) = unat p + j" if "j < k" for j
    using lims that by (simp add: unat_add_small unat_of_nat_small)
  have uq: "unat (q + of_nat j) = unat q + j" if "j < l" for j
    using lims that by (simp add: unat_add_small unat_of_nat_small)
  show thesis
  proof (rule that)
    show "krealloc p n s = Some (q, t)"
      using S(1,4) le q(1,3) s2(1) t(1) by (simp add: krealloc_def Let_def)
    show "heap_ok t" "live s q = None" "unat n \<le> l" by (fact t(2) q(4,6))+
    show "live t = (live s)(p := None, q \<mapsto> l)"
      using t(3) s2(3) q(5) pq by (simp add: fun_upd_twist)
    show "hmem t (q + of_nat j) = hmem s (p + of_nat j)" if "j < k" for j
    proof -
      have jl: "j < l" using that n q(6) by simp
      have "live s2 q = Some l" using s2(3) l1 by simp
      then have "hmem t (q + of_nat j) = hmem s2 (q + of_nat j)"
        by (rule t(4) [OF pq [symmetric]]) (use uq [OF jl] jl in simp_all)
      also have "\<dots> = hmem s1 (p + of_nat j)" by (rule s2(4) [OF that])
      also have "\<dots> = hmem s (p + of_nat j)" by (rule q(7) [OF p]) (use up [OF that] that in simp_all)
      finally show ?thesis .
    qed
    show "hmem t c = hmem s c"
      if r: "r \<noteq> p" "live s r = Some m" "unat r \<le> unat c" "unat c < unat r + m" for r m c
    proof -
      have rq: "r \<noteq> q" using r(2) q(4) by auto
      then have r1: "live s1 r = Some m" using r(2) q(5) by simp
      have "hmem t c = hmem s2 c" by (rule t(4) [OF r(1) _ r(3,4)]) (simp add: s2(3) r1)
      also have "\<dots> = hmem s1 c"
        by (rule s2(5)) (use kheap.held_apart [OF q(2) r1 l1(2) rq] r(3,4) in auto)
      also have "\<dots> = hmem s c" by (rule q(7) [OF r(2-4)])
      finally show ?thesis .
    qed
  qed
qed

section \<open>The first block\<close>

lemma heap_init_some:
  assumes ok: "kernel_ok (hvm s)" and brk: "heap_brk s = HEAP_START" and room: "2 \<le> frames_left (hvm s)"
  obtains t where "heap_init s = Some t" "heap_ok t" "blocks t = [(4076, True)]"
    "unat (heap_brk t) = HS + 4096" "frames_left (hvm s) \<le> frames_left (hvm t) + 2"
proof -
  have hs: "unat HEAP_START = HS" "page_aligned HEAP_START" "HEAP_START \<noteq> 0"
    by (simp_all add: HEAP_START_def page_aligned_def)
  obtain v e where v: "heap_expand PAGE_SIZE s = Some (s\<lparr>hvm := v, heap_brk := e\<rparr>)"
    "unat e = HS + 4096" "page_aligned e" "kernel_ok v" "frames_left (hvm s) \<le> frames_left v + 2"
    "\<And>c. HS \<le> unat c \<Longrightarrow> unat c < unat e \<Longrightarrow> backed (s\<lparr>hvm := v, heap_brk := e\<rparr>) c"
    by (rule heap_expand_some [OF ok, of 1 PAGE_SIZE]) (use hs brk room in \<open>auto simp: PAGE_SIZE_def\<close>)
  define s1 where "s1 = s\<lparr>hvm := v, heap_brk := e, heap_head := HEAP_START\<rparr>"
  have bk: "backed s1 c" if "HS \<le> unat c" "unat c < HS + 4096" for c
    using v(2,6) that by (simp add: s1_def backed_def)
  have hb: "hdr_backed s1 HEAP_START" using bk hs by (simp add: hdr_backed_def)
  define m where "m = wrf HEAP_START Prev 0 (wrf HEAP_START Next 0 (wrf HEAP_START Free 1
      (wrf HEAP_START Size (PAGE_SIZE - HDR) (wrf HEAP_START Magic HEAP_MAGIC (hmem s)))))"
  have run: "heap_init s = Some (s1\<lparr>hmem := m\<rparr>)"
    using v(1) hb by (simp add: heap_init_def s1_def m_def Let_def)
  have "PAGE_SIZE - HDR = of_nat 4076" by (simp add: PAGE_SIZE_def HDR_def)
  then have "seg m 0 HS [(4076, True)] 0"
    using hs(1) by (simp add: header_def Let_def m_def HEAP_START_adr [symmetric])
  then have T: "tiled (s1\<lparr>hmem := m\<rparr>) [(4076, True)]"
    using v bk by (simp add: tiled_def s1_def)
  then have "heap_ok (s1\<lparr>hmem := m\<rparr>)" by (rule heap_okI) simp
  with run tiled_blocks [OF T] v(2,5) show thesis
    by (intro that [of "s1\<lparr>hmem := m\<rparr>"]) (simp_all add: s1_def)
qed

section \<open>A heap for the witnesses\<close>

definition boot_heap :: heap where
  "boot_heap = the (heap_init \<lparr>hvm = boot_vm, hmem = (\<lambda>_. 0), heap_head = 0, heap_brk = HEAP_START\<rparr>)"

abbreviation cold_heap :: heap where
  "cold_heap \<equiv> \<lparr>hvm = boot_vm, hmem = (\<lambda>_. 0), heap_head = 0, heap_brk = HEAP_START\<rparr>"

lemma cold_heap: "kernel_ok (hvm cold_heap)" "heap_brk cold_heap = HEAP_START" "702 \<le> frames_left (hvm cold_heap)"
  using boot_vm(2,3,5) by (simp_all add: kernel_ok_def frames_left_def)

lemma boot_heap:
  shows "heap_init cold_heap = Some boot_heap" and "heap_ok boot_heap" and "blocks boot_heap = [(4076, True)]"
    and "unat (heap_brk boot_heap) = HS + 4096" and "700 \<le> frames_left (hvm boot_heap)"
proof -
  have two: "2 \<le> frames_left (hvm cold_heap)" using cold_heap(3) by simp
  obtain t where t: "heap_init cold_heap = Some t" "heap_ok t" "blocks t = [(4076, True)]"
    "unat (heap_brk t) = HS + 4096" "frames_left (hvm cold_heap) \<le> frames_left (hvm t) + 2"
    by (rule heap_init_some [OF cold_heap(1,2) two])
  have "boot_heap = t" using t(1) by (simp add: boot_heap_def)
  with t cold_heap(3) show "heap_init cold_heap = Some boot_heap" "heap_ok boot_heap"
    "blocks boot_heap = [(4076, True)]" "unat (heap_brk boot_heap) = HS + 4096"
    "700 \<le> frames_left (hvm boot_heap)" by simp_all
qed

lemma boot_heap_serves: "n \<le> 4000 \<Longrightarrow> serves boot_heap n"
  using round8_lt [of n] by (simp add: serves_def boot_heap(3) fits_def)

lemma boot_heap_100:
  obtains s where "kmalloc 100 boot_heap = Some (0x1000014, s)" "heap_ok s"
    "blocks s = [(104, False), (3952, True)]" "live s 0x1000014 = Some 104"
proof -
  have r: "round8 100 = 104" by (simp add: round8_def)
  obtain m where m: "kmalloc 100 boot_heap = Some (adr (HS + span []) + HDR, boot_heap\<lparr>hmem := m\<rparr>)"
    "heap_ok (boot_heap\<lparr>hmem := m\<rparr>)"
    "blocks (boot_heap\<lparr>hmem := m\<rparr>) = [] @ carve (round8 (unat (100 :: u32))) 4076 @ []"
    by (rule kmalloc_hit [OF boot_heap(2), of 100 _ "[]" 4076 "[]"]) (auto simp: boot_heap(3) r)
  have p: "adr (HS + span []) + HDR = 0x1000014" by (simp add: adr_def HDR_def)
  have b: "blocks (boot_heap\<lparr>hmem := m\<rparr>) = [(104, False), (3952, True)]"
    using m(3) by (simp add: carve_def r)
  have "live (boot_heap\<lparr>hmem := m\<rparr>) 0x1000014 = Some 104"
    by (simp add: live_def b)
  with m(1,2) b p that [of "boot_heap\<lparr>hmem := m\<rparr>"] show thesis by metis
qed

section \<open>Properties\<close>

text \<open>
  \<^verbatim>\<open>heap_init\<close>, given two free frames, makes a well-formed heap of one free block of
  4076 bytes, one page less the header.
\<close>

theorem heap_init_single_block:
  assumes "kernel_ok (hvm s)" and "heap_brk s = HEAP_START" and "2 \<le> frames_left (hvm s)"
  shows "\<exists>t. heap_init s = Some t \<and> heap_ok t \<and> blocks t = [(4076, True)]"
  using heap_init_some [OF assms] by metis

theorem heap_init_single_block_witness:
  "\<exists>t. heap_init cold_heap = Some t \<and> blocks t = [(4076, True)]"
proof -
  have "2 \<le> frames_left (hvm cold_heap)" using cold_heap(3) by simp
  from heap_init_single_block [OF cold_heap(1,2) this] show ?thesis by blast
qed

text \<open>
  C8. \<^verbatim>\<open>kmalloc\<close> is first fit: when a block can hold the request, rounded up to a multiple of
  8, it takes the first such block, splits it when the rest can hold a header and 8 bytes,
  and leaves every other block, and the contents of every block in use, as they were.
\<close>

theorem kmalloc_first_fit:
  assumes "heap_ok s" and "n \<noteq> 0" and "unat n + 7 < 4294967296"
    and "blocks s = xs @ (sz, True) # ys" and "\<forall>x\<in>set xs. \<not> fits (round8 (unat n)) x"
    and "round8 (unat n) \<le> sz"
  shows "\<exists>p t. kmalloc n s = Some (p, t) \<and> unat p = unat HEAP_START + span xs + 20 \<and> heap_ok t
    \<and> blocks t = xs @ (if round8 (unat n) + 28 \<le> sz
                       then [(round8 (unat n), False), (sz - round8 (unat n) - 20, True)]
                       else [(sz, False)]) @ ys
    \<and> (\<forall>q k c. live s q = Some k \<longrightarrow> unat q \<le> unat c \<longrightarrow> unat c < unat q + k \<longrightarrow> hmem t c = hmem s c)"
proof -
  obtain m where m: "kmalloc n s = Some (adr (HS + span xs) + HDR, s\<lparr>hmem := m\<rparr>)"
    "heap_ok (s\<lparr>hmem := m\<rparr>)" "blocks (s\<lparr>hmem := m\<rparr>) = xs @ carve (round8 (unat n)) sz @ ys"
    "keeps (hmem s) m (live_at HS (blocks s))"
    by (rule kmalloc_hit [OF assms(1-3) refl assms(4-6)])
  have T: "tiled s (xs @ (sz, True) # ys)" using heap_okD(1) [OF assms(1)] assms(4) by simp
  have "unat (adr (HS + span xs) + HDR) = unat HEAP_START + span xs + 20"
    using payload_addr [OF T] by (simp add: HEAP_START_def)
  with m show ?thesis
    by (intro exI [of _ "adr (HS + span xs) + HDR"] exI [of _ "s\<lparr>hmem := m\<rparr>"])
      (auto simp: carve_def keeps_def live_def)
qed

theorem kmalloc_first_fit_witness:
  "\<exists>p t. kmalloc 100 boot_heap = Some (p, t) \<and> unat p = 0x1000014
    \<and> blocks t = [(104, False), (3952, True)]"
proof -
  have "round8 (unat (100 :: u32)) = 104" by (simp add: round8_def)
  then show ?thesis
    using kmalloc_first_fit [OF boot_heap(2), of 100 "[]" 4076 "[]"] by (auto simp: boot_heap(3) HEAP_START_def)
qed

text \<open>
  C9. The contract of the allocator: \<^verbatim>\<open>kmalloc\<close> of a size that some block can hold, or that
  memory is left to grow for, returns a block that was not in use and is large enough; every
  block in use stays in use, with its size and its contents.
\<close>

theorem kmalloc_fresh:
  assumes "heap_ok s" and "n \<noteq> 0" and "serves s (unat n)"
  shows "\<exists>p t k. kmalloc n s = Some (p, t) \<and> heap_ok t \<and> p \<noteq> 0 \<and> live s p = None
    \<and> live t = (live s)(p \<mapsto> k) \<and> unat n \<le> k
    \<and> (\<forall>q l c. live s q = Some l \<longrightarrow> unat q \<le> unat c \<longrightarrow> unat c < unat q + l \<longrightarrow> hmem t c = hmem s c)"
  by (rule kheap.alloc_ok [OF assms])

theorem kmalloc_fresh_witness:
  "\<exists>p t k. kmalloc 3000 boot_heap = Some (p, t) \<and> heap_ok t \<and> live t p = Some k \<and> 3000 \<le> k"
  using kmalloc_fresh [OF boot_heap(2), of 3000] boot_heap_serves [of 3000] by auto



lemma boot_heap_room: "n \<le> 100000 \<Longrightarrow> heap_room boot_heap n"
proof -
  assume n: "n \<le> 100000"
  then have r: "round8 n < 100008" using round8_lt [of n] by simp
  then have "grow_pages (round8 n) < 27" unfolding grow_pages_def by (simp add: div_less_iff_less_mult)
  with n r boot_heap(5) show ?thesis by (simp add: heap_room_def Let_def boot_heap(4))
qed

text \<open>
  When no block can hold the request, \<^verbatim>\<open>kmalloc\<close> maps new pages behind the last block,
  makes them one free block (joined to the last block when that is free) and takes the
  request from it: the second search succeeds, so the recursion ends after one step.
\<close>

theorem kmalloc_grows:
  assumes "heap_ok s" and "n \<noteq> 0" and "heap_room s (unat n)"
    and "\<forall>x\<in>set (blocks s). \<not> fits (round8 (unat n)) x"
  shows "\<exists>p t us K. kmalloc n s = Some (p, t) \<and> unat p = unat HEAP_START + span us + 20 \<and> heap_ok t
    \<and> unat (heap_brk t) = unat (heap_brk s) + grow_pages (round8 (unat n)) * 4096
    \<and> (blocks s = us \<and> \<not> snd (last us) \<and> K = grow_pages (round8 (unat n)) * 4096 - 20
       \<or> (\<exists>j. blocks s = us @ [(j, True)] \<and> K = j + grow_pages (round8 (unat n)) * 4096))
    \<and> blocks t = us @ carve (round8 (unat n)) K"
proof -
  let ?p = "grow_pages (round8 (unat n))"
  obtain t us K where t: "kmalloc n s = Some (adr (HS + span us) + HDR, t)" "heap_ok t"
    "joined (blocks s) (?p * 4096 - 20, True) [] = us @ [(K, True)]"
    "blocks t = us @ carve (round8 (unat n)) K"
    "unat (heap_brk t) = unat (heap_brk s) + ?p * 4096"
    by (rule kmalloc_miss [OF assms(1-3) refl assms(4)]) blast
  have "20 \<le> ?p * 4096" by (simp add: grow_pages_def)
  then have shape: "blocks s = us \<and> \<not> snd (last us) \<and> K = ?p * 4096 - 20 \<or> (\<exists>j. blocks s = us @ [(j, True)] \<and> K = j + ?p * 4096)"
  proof (cases "blocks s" rule: rev_cases)
    case Nil
    then show ?thesis using tiledD(6) [OF heap_okD(1) [OF assms(1)]] by simp
  next
    case (snoc ys y)
    obtain j f where y: "y = (j, f)" by (cases y)
    show ?thesis
    proof (cases f)
      case True
      with t(3) snoc y have "ys = us" "K = j + (20 + (?p * 4096 - 20))"
        by (simp_all add: joined_def merge_prev_def)
      with snoc y True \<open>20 \<le> ?p * 4096\<close> show ?thesis by simp
    next
      case False
      with t(3) snoc y have "us = ys @ [(j, False)]" "K = ?p * 4096 - 20"
        by (simp_all add: joined_def merge_prev_def)
      with snoc y False show ?thesis by simp
    qed
  qed
  obtain b zs where "blocks t = us @ b # zs" using t(4) by (auto simp: carve_def split: if_splits)
  then have "tiled t (us @ b # zs)" using heap_okD(1) [OF t(2)] by simp
  from payload_addr [OF this] have "unat (adr (HS + span us) + HDR) = unat HEAP_START + span us + 20"
    by (simp add: HEAP_START_def)
  with t shape show ?thesis by blast
qed

theorem kmalloc_grows_witness:
  "\<exists>p t. kmalloc 5000 boot_heap = Some (p, t) \<and> unat (heap_brk t) = 0x1000000 + 4 * 4096
    \<and> blocks t = [(5000, False), (11344, True)]"
proof -
  have r: "round8 5000 = 5000" "grow_pages 5000 = 3" by (simp_all add: round8_def grow_pages_def)
  then show ?thesis
    using kmalloc_grows [OF boot_heap(2), of 5000] boot_heap_room [of 5000]
    by (auto simp: boot_heap(3,4) fits_def carve_def)
qed

text \<open>
  C10. \<^verbatim>\<open>kfree\<close> of a block in use joins it with the free blocks on both sides, so that no two
  neighbours are free, and leaves every other block in use with its contents.
\<close>

theorem kfree_coalesces:
  assumes "heap_ok s" and "blocks s = xs @ (k, False) # ys" and "unat p = unat HEAP_START + span xs + 20"
  shows "\<exists>t. kfree p s = Some t \<and> heap_ok t \<and> live t = (live s)(p := None)
    \<and> blocks t = (let (k, ys) = (case ys of (l, True) # zs \<Rightarrow> (k + 20 + l, zs) | _ \<Rightarrow> (k, ys))
                  in if xs \<noteq> [] \<and> snd (last xs) then butlast xs @ (fst (last xs) + 20 + k, True) # ys
                     else xs @ (k, True) # ys)
    \<and> (\<forall>q l c. q \<noteq> p \<longrightarrow> live s q = Some l \<longrightarrow> unat q \<le> unat c \<longrightarrow> unat c < unat q + l \<longrightarrow> hmem t c = hmem s c)"
proof -
  have up: "unat p = HS + span xs + 20" using assms(3) by (simp add: HEAP_START_def)
  have lp: "live s p = Some k"
    unfolding live_def assms(2) up live_at_append by (simp add: live_at_after)
  have T: "tiled s (xs @ (k, False) # ys)" using heap_okD(1) [OF assms(1)] assms(2) by simp
  have p: "p = adr (HS + span xs) + HDR" using payload_addr [OF T] up by (simp add: u32_eq_iff_unat)
  obtain m where m: "kfree p s = Some (s\<lparr>hmem := m\<rparr>)" "heap_ok (s\<lparr>hmem := m\<rparr>)"
    "blocks (s\<lparr>hmem := m\<rparr>) = joined xs (k, True) ys" "live (s\<lparr>hmem := m\<rparr>) = (live s)(p := None)"
    by (rule kfree_some [OF assms(1) lp assms(2) p up])
  have J: "joined xs (k, True) ys = (let (k, ys) = (case ys of (l, True) # zs \<Rightarrow> (k + 20 + l, zs) | _ \<Rightarrow> (k, ys))
                  in if xs \<noteq> [] \<and> snd (last xs) then butlast xs @ (fst (last xs) + 20 + k, True) # ys
                     else xs @ (k, True) # ys)"
    by (cases "((k, True), ys)" rule: merge_next.cases) (auto simp: joined_def merge_prev_def add.assoc)
  have "live s p \<noteq> None" by (simp add: lp)
  from kheap.release_ok [OF assms(1) this] m(1)
  have "\<forall>q l c. q \<noteq> p \<longrightarrow> live s q = Some l \<longrightarrow> unat q \<le> unat c \<longrightarrow> unat c < unat q + l \<longrightarrow> m c = hmem s c"
    by auto
  with m J show ?thesis by (intro exI [of _ "s\<lparr>hmem := m\<rparr>"]) simp
qed

theorem kfree_coalesces_witness:
  "\<exists>s t. kmalloc 100 boot_heap = Some (0x1000014, s) \<and> kfree 0x1000014 s = Some t
    \<and> blocks s = [(104, False), (3952, True)] \<and> blocks t = [(4076, True)]"
proof -
  obtain s where s: "kmalloc 100 boot_heap = Some (0x1000014, s)" "heap_ok s"
    "blocks s = [(104, False), (3952, True)]" by (rule boot_heap_100)
  with kfree_coalesces [OF s(2), of "[]" 104 "[(3952, True)]" "0x1000014"]
  show ?thesis by (auto simp: HEAP_START_def)
qed

text \<open>
  \<^verbatim>\<open>kfree\<close> undoes \<^verbatim>\<open>kmalloc\<close>: freeing the block just allocated from an existing block gives
  back exactly the list of blocks there was before.
\<close>

theorem kfree_undoes_kmalloc:
  assumes "heap_ok s" and "n \<noteq> 0" and "unat n + 7 < 4294967296"
    and "\<exists>b\<in>set (blocks s). fits (round8 (unat n)) b"
  shows "\<exists>p t u. kmalloc n s = Some (p, t) \<and> kfree p t = Some u \<and> heap_ok u \<and> blocks u = blocks s"
proof -
  let ?k = "round8 (unat n)"
  obtain xs b ys where b: "blocks s = xs @ b # ys" "fits ?k b" "\<forall>x\<in>set xs. \<not> fits ?k x"
    using split_list_first_prop [OF assms(4)] by metis
  then obtain sz where sz: "b = (sz, True)" "?k \<le> sz" by (cases b) (auto simp: fits_def)
  obtain m where m: "kmalloc n s = Some (adr (HS + span xs) + HDR, s\<lparr>hmem := m\<rparr>)"
    "heap_ok (s\<lparr>hmem := m\<rparr>)" "blocks (s\<lparr>hmem := m\<rparr>) = xs @ carve ?k sz @ ys"
    by (rule kmalloc_hit [OF assms(1-3) refl _ b(3) sz(2), of ys]) (use b(1) sz(1) in auto)
  define k' zs where "k' = (if ?k + 28 \<le> sz then ?k else sz)"
    and "zs = (if ?k + 28 \<le> sz then (sz - ?k - 20, True) # ys else ys)"
  have bl: "blocks (s\<lparr>hmem := m\<rparr>) = xs @ (k', False) # zs"
    using m(3) by (simp add: carve_def k'_def zs_def)
  let ?p = "adr (HS + span xs) + HDR"
  have T: "tiled (s\<lparr>hmem := m\<rparr>) (xs @ (k', False) # zs)" using heap_okD(1) [OF m(2)] bl by simp
  have up: "unat ?p = HS + span xs + 20" by (rule payload_addr [OF T])
  have lp: "live (s\<lparr>hmem := m\<rparr>) ?p = Some k'"
    unfolding live_def bl up live_at_append by (simp add: live_at_after)
  obtain m' where m': "kfree ?p (s\<lparr>hmem := m\<rparr>) = Some (s\<lparr>hmem := m\<rparr>\<lparr>hmem := m'\<rparr>)"
    "heap_ok (s\<lparr>hmem := m\<rparr>\<lparr>hmem := m'\<rparr>)" "blocks (s\<lparr>hmem := m\<rparr>\<lparr>hmem := m'\<rparr>) = joined xs (k', True) zs"
    by (rule kfree_some [OF m(2) lp bl refl up])
  have sep: "separated (xs @ (sz, True) # ys)" using heap_okD(2) [OF assms(1)] b(1) sz(1) by simp
  have "joined xs (k', True) zs = xs @ (sz, True) # ys"
  proof (cases "?k + 28 \<le> sz")
    case True
    with sep show ?thesis by (auto simp: joined_def merge_prev_def k'_def zs_def separated_append)
  next
    case False
    have "merge_next (sz, True) ys = (sz, True) # ys"
      using sep by (cases "((sz, True), ys)" rule: merge_next.cases) (auto simp: separated_append)
    with False sep show ?thesis by (auto simp: joined_def merge_prev_def k'_def zs_def separated_append)
  qed
  with m(1) m'(1-3) b(1) sz(1) show ?thesis by auto
qed

theorem kfree_undoes_kmalloc_witness:
  "\<exists>p t u. kmalloc 1000 boot_heap = Some (p, t) \<and> kfree p t = Some u \<and> blocks u = [(4076, True)]"
proof -
  have "fits (round8 1000) (4076, True)" by (simp add: fits_def round8_def)
  then show ?thesis
    using kfree_undoes_kmalloc [OF boot_heap(2), of 1000] by (auto simp: boot_heap(3))
qed



text \<open>
  The rounding of the size wraps around: a request of more than 4294967288 bytes becomes a
  request of 0 bytes, and \<^verbatim>\<open>kmalloc\<close> answers it with a block that has no payload, not with NULL.
\<close>

theorem kmalloc_huge_wraps:
  assumes "heap_ok s" and "0xFFFFFFF9 \<le> n" and "blocks s = xs @ (sz, True) # ys"
    and "\<forall>x\<in>set xs. \<not> snd x" and "28 \<le> sz"
  shows "\<exists>p t. kmalloc n s = Some (p, t) \<and> p \<noteq> 0 \<and> live t p = Some 0"
proof -
  have "unat (0xFFFFFFF9 :: u32) \<le> unat n" using assms(2) by (simp only: word_le_nat_alt)
  then have "4294967289 \<le> unat n" by simp
  then have "unat (n + 7) = (unat n + 7 - 4294967296) mod 4294967296"
    by (simp add: unat_word_ariths le_mod_geq)
  also have "\<dots> \<le> unat n + 7 - 4294967296" by (rule mod_less_eq_dividend)
  also have "\<dots> < 8" using unat_u32_lt [of n] by linarith
  finally have "unat (n + 7) < 8" .
  then have "unat ((n + 7) AND NOT 7) = 0" unfolding unat_mask3 by simp
  then have req: "(n + 7) AND NOT 7 = 0" by (simp only: unat_eq_0)
  have n0: "n \<noteq> 0" using \<open>4294967289 \<le> unat n\<close> by auto
  have T: "tiled s ([] @ xs @ (sz, True) # ys)" using heap_okD(1) [OF assms(1)] assms(3) by simp
  then have T': "tiled s (xs @ (sz, True) # ys)" by simp
  let ?c = "adr (HS + span xs)"
  have ff: "first_fit 0 (heap_head s) s = Some ?c"
    using first_fit_found [OF T, of 0] assms(4) tiledD(4) [OF T'] by (simp add: fits_def HEAP_START_adr)
  have c0: "?c \<noteq> 0" using hdr_backedD(1) [OF tiled_hdr [OF T']] .
  obtain m where m: "take_block ?c 0 s = Some (?c + HDR, s\<lparr>hmem := m\<rparr>)"
    "tiled (s\<lparr>hmem := m\<rparr>) (xs @ carve (unat (0 :: u32)) sz @ ys)"
    by (rule take_block_some [OF T' refl, of 0]) simp_all
  have "kmalloc n s = Some (?c + HDR, s\<lparr>hmem := m\<rparr>)"
    using n0 ff c0 m(1) by (subst kmalloc.simps) (simp only: Let_def req if_False if_True not_False_eq_True Option.bind.bind_lunit)
  moreover have up: "unat (?c + HDR) = HS + span xs + 20" by (rule payload_addr [OF T'])
  moreover have "blocks (s\<lparr>hmem := m\<rparr>) = xs @ (0, False) # (sz - 20, True) # ys"
    using tiled_blocks [OF m(2)] assms(5) by (simp add: carve_def)
  then have "live (s\<lparr>hmem := m\<rparr>) (?c + HDR) = Some 0"
    unfolding live_def up by (simp add: live_at_append live_at_after)
  moreover have "?c + HDR \<noteq> 0" using up by auto
  ultimately show ?thesis by blast
qed

theorem kmalloc_huge_wraps_witness:
  "\<exists>p t. kmalloc 0xFFFFFFFF boot_heap = Some (p, t) \<and> p \<noteq> 0 \<and> live t p = Some 0"
  using kmalloc_huge_wraps [OF boot_heap(2), of "0xFFFFFFFF" "[]" 4076 "[]"] by (simp add: boot_heap(3))

text \<open>
  The comment on the magic test of \<^verbatim>\<open>kfree\<close> says that it prevents a double free, but
  \<^verbatim>\<open>kfree\<close> never clears the magic. When the block before is free, freeing a block a second time
  adds its size to that neighbour once more, which then reaches over the block in use behind.
\<close>

theorem double_free_corrupts:
  assumes "heap_ok s" and "blocks s = us @ (j, True) # (k, False) # (l, False) # ys"
    and "p = adr (HS + span us + (20 + j)) + HDR"
  shows "\<exists>t u. kfree p s = Some t \<and> heap_ok t \<and> blocks t = us @ (j + (20 + k), True) # (l, False) # ys
    \<and> kfree p t = Some u
    \<and> get_field Free (adr (HS + span us)) u = Some 1
    \<and> get_field Size (adr (HS + span us)) u = Some (of_nat (j + (20 + k) + (20 + k)))"
proof -
  have T: "tiled s (us @ (j, True) # (k, False) # (l, False) # ys)"
    using heap_okD(1) [OF assms(1)] assms(2) by simp
  then have Tb: "tiled s ((us @ [(j, True)]) @ (k, False) # (l, False) # ys)" by simp
  note D = tiledD [OF Tb]
  define P where "P = adr (HS + span us)"
  define b where "b = adr (HS + span us + (20 + j))"
  define n where "n = adr (HS + span us + (20 + j) + (20 + k))"
  have b': "b = adr (HS + span (us @ [(j, True)]))" by (simp add: b_def add.assoc)
  have pb: "p - HDR = b" by (simp add: assms(3) b_def)
  have up: "unat p = HS + span (us @ [(j, True)]) + 20"
    using payload_addr [OF Tb] by (simp add: assms(3) add.assoc)
  have p0: "p \<noteq> 0" using up by auto
  define m0 where "m0 = wrf b Free 1 (hmem s)"
  have T0: "tiled (s\<lparr>hmem := m0\<rparr>) ((us @ [(j, True)]) @ (k, True) # (l, False) # ys)"
    by (rule tiled_mem [OF Tb]) (use flag_seg(1) [OF D(3) _ b', of 1 True] D(1) in \<open>simp_all add: m0_def\<close>)
  then have T1: "tiled (s\<lparr>hmem := m0\<rparr>) (us @ (j, True) # (k, True) # (l, False) # ys)" by simp
  have hb: "hdr_backed s b" unfolding b' by (rule tiled_hdr [OF Tb])
  have T0n: "tiled (s\<lparr>hmem := m0\<rparr>) ((us @ [(j, True), (k, True)]) @ (l, False) # ys)" using T0 by simp
  have n': "n = adr (HS + span (us @ [(j, True), (k, True)]))" by (simp add: n_def add.assoc)
  have hn: "hdr_backed s n" using tiled_hdr [OF T0n] by (simp add: n')
  note F0 = tiled_fields [OF T0 b'] and Fn = tiled_fields [OF T0n n'] and FP = tiled_fields [OF T1 P_def]
  have nx: "rdf m0 b Next = n" using F0(4) by (simp add: n_def add.assoc)
  have nx': "n = rdf (hmem (s\<lparr>hmem := m0\<rparr>)) b Next" by (simp add: nx)
  obtain m1 where m1: "m1 = merged P b n m0"
    "tiled (s\<lparr>hmem := m1\<rparr>) (us @ (j + (20 + k), True) # (l, False) # ys)"
    "hdr_backed s P" "unat P + 20 \<le> unat b" "unat b + 20 \<le> unat n"
  proof -
    obtain m1 where m1: "m1 = merged P b n m0"
      "tiled (s\<lparr>hmem := m0\<rparr>\<lparr>hmem := m1\<rparr>) (us @ (fst (j, True) + (20 + fst (k, True)), snd (j, True)) # (l, False) # ys)"
      "hdr_backed (s\<lparr>hmem := m0\<rparr>) P" "unat P + 20 \<le> unat b" "n \<noteq> 0 \<Longrightarrow> unat b + 20 \<le> unat n"
      by (rule tiled_merge [OF T1 P_def _ nx']) (simp_all add: b_def)
    with hdr_backedD(1) [OF hn] that show thesis by simp
  qed
  have dist: "b \<noteq> P" "n \<noteq> b" "n \<noteq> 0" "P \<noteq> 0" "b \<noteq> 0" using m1(3-5) hb hn hdr_backedD(1) by auto
  have lims: "unat P + 20 \<le> 4294967296" "unat b + 20 \<le> 4294967296" "unat n + 20 \<le> 4294967296"
    using m1(3) hb hn hdr_backedD(2) by auto
  have run: "coalesce b (s\<lparr>hmem := m\<rparr>) = Some (s\<lparr>hmem := merged P b n m\<rparr>)"
    if "rdf m b Next = n" "rdf m n Free = 0" "rdf m b Prev = P" "rdf m P Free = 1" for m
    using that hb hn m1(3-5) dist lims
    by (simp add: coalesce_def coalesce_next_def coalesce_prev_def is_free_def set_prev_def merged_def Let_def rdf_wrf)
  have f0: "rdf m0 n Free = 0" "rdf m0 b Prev = P" "rdf m0 P Free = 1"
    using Fn(3) F0(5) FP(3) by (simp_all add: P_def)
  have "kfree p s = Some (s\<lparr>hmem := m1\<rparr>)"
    using p0 hb tiled_fields(1) [OF Tb b'] run [OF nx f0] by (simp add: kfree_def Let_def pb m1(1) m0_def)
  moreover have "heap_ok (s\<lparr>hmem := m1\<rparr>)"
    by (rule heap_okI [OF m1(2)]) (use heap_okD(2) [OF assms(1)] assms(2) in \<open>auto simp: separated_append\<close>)
  moreover have "blocks (s\<lparr>hmem := m1\<rparr>) = us @ (j + (20 + k), True) # (l, False) # ys"
    by (rule tiled_blocks [OF m1(2)])
  moreover define m2 where "m2 = wrf b Free 1 m1"
  define m3 where "m3 = merged P b n m2"
  note F1 = tiled_fields [OF m1(2) P_def]
  have stale: "rdf m1 b Magic = HEAP_MAGIC" "rdf m1 b Size = of_nat k" "rdf m1 b Next = n" "rdf m1 b Prev = P"
    "rdf m1 n Free = 0"
    using F0 nx f0 m1(4,5) lims dist by (simp_all add: m1(1) merged_def Let_def rdf_wrf)
  have "kfree p (s\<lparr>hmem := m1\<rparr>) = Some (s\<lparr>hmem := m3\<rparr>)"
  proof -
    have "rdf m2 b Next = n" "rdf m2 n Free = 0" "rdf m2 b Prev = P" "rdf m2 P Free = 1"
      using stale F1(3) m1(4,5) lims dist by (simp_all add: m2_def rdf_wrf)
    from run [OF this] show ?thesis
      using p0 hb stale(1) by (simp add: kfree_def Let_def pb m2_def m3_def)
  qed
  moreover have "rdf m3 P Free = 1" "rdf m3 P Size = of_nat (j + (20 + k) + (20 + k))"
    using stale F1(2,3) m1(4,5) lims dist
    by (simp_all add: m3_def m2_def merged_def Let_def rdf_wrf HDR_def)
  ultimately show ?thesis using m1(3) by (simp add: P_def [symmetric])
qed

theorem double_free_corrupts_witness:
  "\<exists>s t u. heap_ok s \<and> kfree 0x1000090 s = Some t \<and> heap_ok t \<and> kfree 0x1000090 t = Some u
    \<and> blocks t = [(324, True), (48, False), (3664, True)]
    \<and> get_field Size 0x1000000 u = Some 544"
proof -
  obtain s1 where s1: "heap_ok s1" "blocks s1 = [(104, False), (3952, True)]" by (rule boot_heap_100)
  have r: "round8 200 = 200" "round8 48 = 48" by (simp_all add: round8_def)
  obtain m2 where m2: "heap_ok (s1\<lparr>hmem := m2\<rparr>)"
    "blocks (s1\<lparr>hmem := m2\<rparr>) = [(104, False)] @ carve (round8 (unat (200 :: u32))) 3952 @ []"
    by (rule kmalloc_hit [OF s1(1), of 200 _ "[(104, False)]" 3952 "[]"]) (auto simp: s1(2) r fits_def)
  define s2 where "s2 = s1\<lparr>hmem := m2\<rparr>"
  have b2: "heap_ok s2" "blocks s2 = [(104, False), (200, False), (3732, True)]"
    using m2 by (simp_all add: s2_def carve_def r)
  obtain m3 where m3: "heap_ok (s2\<lparr>hmem := m3\<rparr>)"
    "blocks (s2\<lparr>hmem := m3\<rparr>) = [(104, False), (200, False)] @ carve (round8 (unat (48 :: u32))) 3732 @ []"
    by (rule kmalloc_hit [OF b2(1), of 48 _ "[(104, False), (200, False)]" 3732 "[]"])
      (auto simp: b2(2) r fits_def)
  define s3 where "s3 = s2\<lparr>hmem := m3\<rparr>"
  have b3: "heap_ok s3" "blocks s3 = [] @ (104, False) # [(200, False), (48, False), (3664, True)]"
    using m3 by (simp_all add: s3_def carve_def r)
  have p: "0x1000014 = adr (HS + span []) + HDR" by (simp add: adr_def HDR_def)
  have l3: "live s3 0x1000014 = Some 104" by (simp add: live_def b3(2))
  obtain m4 where m4: "heap_ok (s3\<lparr>hmem := m4\<rparr>)"
    "blocks (s3\<lparr>hmem := m4\<rparr>) = joined [] (104, True) [(200, False), (48, False), (3664, True)]"
    by (rule kfree_some [OF b3(1) l3 b3(2) p]) simp_all
  then have b4: "blocks (s3\<lparr>hmem := m4\<rparr>) = [] @ (104, True) # (200, False) # (48, False) # [(3664, True)]"
    by (simp add: joined_def merge_prev_def)
  have q: "0x1000090 = adr (HS + span [] + (20 + 104)) + HDR" by (simp add: adr_def HDR_def)
  have "adr (HS + span []) = 0x1000000" by (simp add: adr_def)
  with double_free_corrupts [OF m4(1) b4 q] m4(1) show ?thesis by auto
qed

end
