(* ===== verification/Libc.thy ===== *)
theory Libc
  imports Prelude "HOL-Library.List_Lexorder"
begin

text \<open>
  The library of \<^verbatim>\<open>libc/libc.c\<close> that the shell and the kernel print with: strings, memory blocks,
  numbers, \<^verbatim>\<open>vsnprintf\<close>. A \<^verbatim>\<open>char*\<close> is the part of its array from there on, as a list of bytes, so that
  \<^verbatim>\<open>*s\<close> is the head and \<^verbatim>\<open>s++\<close> the tail, and reading or writing past the end of the array is the empty
  list, for which every function is \<open>None\<close>. The arguments of a function are different arrays.
\<close>

unbundle bit_operations_syntax

type_synonym bytestr = "u8 list"

abbreviation chr :: "char \<Rightarrow> u8" where
  "chr c \<equiv> of_char c"

text \<open>A C string in an array: the characters, the terminator, and what follows it.\<close>

definition c_string :: "bytestr \<Rightarrow> bytestr \<Rightarrow> bool" where
  "c_string xs s \<longleftrightarrow> 0 \<notin> set xs \<and> (\<exists>rest. s = xs @ 0 # rest)"

section \<open>Strings\<close>

fun strlen :: "bytestr \<Rightarrow> nat option" where
  "strlen [] = None"
| "strlen (c # s) = (if c = 0 then Some 0 else map_option Suc (strlen s))"

text \<open>The functions that write return the new contents of the destination array.\<close>

fun strcpy :: "bytestr \<Rightarrow> bytestr \<Rightarrow> bytestr option" where
  "strcpy (_ # dst) (c # src) = (if c = 0 then Some (0 # dst) else map_option (Cons c) (strcpy dst src))"
| "strcpy _ _ = None"

fun zero_fill :: "bytestr \<Rightarrow> nat \<Rightarrow> bytestr option" where
  "zero_fill dst 0 = Some dst"
| "zero_fill (_ # dst) (Suc n) = map_option (Cons 0) (zero_fill dst n)"
| "zero_fill [] (Suc n) = None"

fun strncpy :: "bytestr \<Rightarrow> bytestr \<Rightarrow> nat \<Rightarrow> bytestr option" where
  "strncpy dst src 0 = Some dst"
| "strncpy (d # dst) (c # src) (Suc n) =
     (if c \<noteq> 0 then map_option (Cons c) (strncpy dst src n) else zero_fill (d # dst) (Suc n))"
| "strncpy _ _ (Suc n) = None"

fun strcmp :: "bytestr \<Rightarrow> bytestr \<Rightarrow> int option" where
  "strcmp (a # as) (b # bs) = (if a \<noteq> 0 \<and> a = b then strcmp as bs else Some (uint a - uint b))"
| "strcmp _ _ = None"

fun strncmp :: "bytestr \<Rightarrow> bytestr \<Rightarrow> nat \<Rightarrow> int option" where
  "strncmp as bs 0 = Some 0"
| "strncmp (a # as) (b # bs) (Suc n) =
     (if a \<noteq> b then Some (uint a - uint b) else if a = 0 then Some 0 else strncmp as bs n)"
| "strncmp _ _ (Suc n) = None"

definition strcat :: "bytestr \<Rightarrow> bytestr \<Rightarrow> bytestr option" where
  "strcat dst src = do { n \<leftarrow> strlen dst; map_option (append (take n dst)) (strcpy (drop n dst) src) }"

text \<open>The functions that return a pointer into a string give its offset, or \<open>Some None\<close> for NULL.\<close>

fun strchr :: "bytestr \<Rightarrow> u32 \<Rightarrow> nat option option" where
  "strchr [] c = None"
| "strchr (a # s) c =
     (if a = 0 then Some (if c = 0 then Some 0 else None)
      else if a = ucast c then Some (Some 0) else map_option (map_option Suc) (strchr s c))"

fun strrchr_loop :: "nat \<Rightarrow> nat option \<Rightarrow> bytestr \<Rightarrow> u32 \<Rightarrow> nat option option" where
  "strrchr_loop i found [] c = None"
| "strrchr_loop i found (a # s) c =
     (if a = 0 then Some found else strrchr_loop (Suc i) (if a = ucast c then Some i else found) s c)"

definition strrchr :: "bytestr \<Rightarrow> u32 \<Rightarrow> nat option option" where
  "strrchr s c = strrchr_loop 0 None s c"

fun strstr_loop :: "nat \<Rightarrow> bytestr \<Rightarrow> bytestr \<Rightarrow> nat \<Rightarrow> nat option option" where
  "strstr_loop i [] needle nl = None"
| "strstr_loop i (a # hay) needle nl =
     (if a = 0 then Some None
      else do { d \<leftarrow> strncmp (a # hay) needle nl;
                if d = 0 then Some (Some i) else strstr_loop (Suc i) hay needle nl })"

definition strstr :: "bytestr \<Rightarrow> bytestr \<Rightarrow> nat option option" where
  "strstr hay needle = do { nl \<leftarrow> strlen needle; strstr_loop 0 hay needle nl }"

section \<open>Memory blocks\<close>

fun memcpy :: "bytestr \<Rightarrow> bytestr \<Rightarrow> nat \<Rightarrow> bytestr option" where
  "memcpy dst src 0 = Some dst"
| "memcpy (_ # dst) (c # src) (Suc n) = map_option (Cons c) (memcpy dst src n)"
| "memcpy _ _ (Suc n) = None"

fun memset :: "bytestr \<Rightarrow> u32 \<Rightarrow> nat \<Rightarrow> bytestr option" where
  "memset dst v 0 = Some dst"
| "memset (_ # dst) v (Suc n) = map_option (Cons (ucast v)) (memset dst v n)"
| "memset [] v (Suc n) = None"

fun memcmp :: "bytestr \<Rightarrow> bytestr \<Rightarrow> nat \<Rightarrow> int option" where
  "memcmp as bs 0 = Some 0"
| "memcmp (a # as) (b # bs) (Suc n) = (if a \<noteq> b then Some (uint a - uint b) else memcmp as bs n)"
| "memcmp _ _ (Suc n) = None"

section \<open>Numbers\<close>

text \<open>The overflow of a signed \<^verbatim>\<open>int\<close> is undefined in C.\<close>

definition in_int :: "int \<Rightarrow> bool" where
  "in_int n \<longleftrightarrow> - 2147483648 \<le> n \<and> n < 2147483648"

definition is_digit :: "u8 \<Rightarrow> bool" where
  "is_digit c \<longleftrightarrow> chr CHR ''0'' \<le> c \<and> c \<le> chr CHR ''9''"

text \<open>\<^verbatim>\<open>while (*s >= '0' && *s <= '9') n = n * 10 + (*s++ - '0')\<close>, with the rest of the string.\<close>

fun scan_int :: "int \<Rightarrow> bytestr \<Rightarrow> (int \<times> bytestr) option" where
  "scan_int n [] = None"
| "scan_int n (c # s) =
     (if is_digit c
      then let n' = n * 10 + (uint c - 48) in if in_int (n * 10) \<and> in_int n' then scan_int n' s else None
      else Some (n, c # s))"

fun skip_spaces :: "bytestr \<Rightarrow> bytestr" where
  "skip_spaces [] = []"
| "skip_spaces (c # s) = (if c = chr CHR '' '' then skip_spaces s else c # s)"

definition atoi :: "bytestr \<Rightarrow> int option" where
  "atoi s =
     (case skip_spaces s of [] \<Rightarrow> None
      | c # s' \<Rightarrow> do {
          let neg = (c = chr CHR ''-'');
          (n, _) \<leftarrow> scan_int 0 (if neg then s' else c # s');
          Some (if neg then - n else n) })"

definition hex_digits :: bytestr where
  "hex_digits = map of_char ''0123456789abcdef'' @ [0]"

text \<open>The digits, the last one first, in the array \<^verbatim>\<open>char tmp[32]\<close>.\<close>

function itoa_loop :: "u32 \<Rightarrow> u32 \<Rightarrow> bytestr \<Rightarrow> bytestr option" where
  "itoa_loop base uval tmp =
     (if uval = 0 then Some tmp
      else if base = 0 \<or> length hex_digits \<le> unat (uval mod base) \<or> 32 \<le> length tmp then None
      else itoa_loop base (uval div base) (tmp @ [hex_digits ! unat (uval mod base)]))"
  by pat_completeness auto
termination by (relation "measure (\<lambda>(_, _, tmp). 32 - length tmp)") auto

declare itoa_loop.simps [simp del]

text \<open>\<^verbatim>\<open>-val\<close> of the least \<^verbatim>\<open>int\<close> is undefined in C.\<close>

definition itoa_buf :: "u32 \<Rightarrow> bytestr \<Rightarrow> u32 \<Rightarrow> bool \<Rightarrow> bytestr option" where
  "itoa_buf val buf base unsign =
     (if \<not> unsign \<and> val = 0x80000000 then None
      else do {
        let uval = (if unsign then val else if sint val < 0 then - val else val);
        tmp \<leftarrow> (if uval = 0 then Some [chr CHR ''0''] else itoa_loop base uval []);
        tmp \<leftarrow> (if \<not> unsign \<and> sint val < 0
                then if length tmp < 32 then Some (tmp @ [chr CHR ''-'']) else None else Some tmp);
        strcpy buf (rev tmp @ [0])
      })"

section \<open>Formatted output\<close>

text \<open>The arguments after the format: \<^verbatim>\<open>int\<close> sized values, or pointers to strings (\<open>None\<close> is NULL).\<close>

datatype vararg = VWord u32 | VStr "bytestr option"

fun va_word :: "vararg list \<Rightarrow> (u32 \<times> vararg list) option" where
  "va_word (VWord v # ap) = Some (v, ap)"
| "va_word _ = None"

fun va_str :: "vararg list \<Rightarrow> (bytestr option \<times> vararg list) option" where
  "va_str (VStr s # ap) = Some (s, ap)"
| "va_str _ = None"

text \<open>The output buffer and the position in it; \<^verbatim>\<open>PUT\<close>.\<close>

type_synonym sink = "bytestr \<times> u32"

definition put :: "u32 \<Rightarrow> u8 \<Rightarrow> sink \<Rightarrow> sink option" where
  "put sz c out = (case out of (buf, pos) \<Rightarrow>
     if pos < sz - 1
     then if unat pos < length buf then Some (buf[unat pos := c], pos + 1) else None
     else Some (buf, pos))"

fun put_str :: "u32 \<Rightarrow> bytestr \<Rightarrow> sink \<Rightarrow> sink option" where
  "put_str sz [] out = None"
| "put_str sz (c # s) out = (if c = 0 then Some out else do { out \<leftarrow> put sz c out; put_str sz s out })"

fun put_all :: "u32 \<Rightarrow> bytestr \<Rightarrow> sink \<Rightarrow> sink option" where
  "put_all sz [] out = Some out"
| "put_all sz (c # s) out = do { out \<leftarrow> put sz c out; put_all sz s out }"

fun put_pad :: "u32 \<Rightarrow> nat \<Rightarrow> u8 \<Rightarrow> sink \<Rightarrow> sink option" where
  "put_pad sz 0 c out = Some out"
| "put_pad sz (Suc n) c out = do { out \<leftarrow> put sz c out; put_pad sz n c out }"

text \<open>The conversion of a directive: the string to print, or a character that is put as it is.\<close>

datatype item = Text bytestr | Chars bytestr

definition tmp64 :: bytestr where
  "tmp64 = replicate 64 0"

definition convert :: "u8 \<Rightarrow> vararg list \<Rightarrow> (item \<times> vararg list) option" where
  "convert c ap =
     (if c = chr CHR ''d'' then do { (v, ap) \<leftarrow> va_word ap; s \<leftarrow> itoa_buf v tmp64 10 False; Some (Text s, ap) }
      else if c = chr CHR ''u'' then do { (v, ap) \<leftarrow> va_word ap; s \<leftarrow> itoa_buf v tmp64 10 True; Some (Text s, ap) }
      else if c = chr CHR ''x'' \<or> c = chr CHR ''X''
      then do { (v, ap) \<leftarrow> va_word ap; s \<leftarrow> itoa_buf v tmp64 16 True; Some (Text s, ap) }
      else if c = chr CHR ''p''
      then do { (v, ap) \<leftarrow> va_word ap; s \<leftarrow> itoa_buf v (drop 2 tmp64) 16 True;
                Some (Text (map of_char ''0x'' @ s), ap) }
      else if c = chr CHR ''s''
      then do { (s, ap) \<leftarrow> va_str ap;
                Some (Text (case s of None \<Rightarrow> map of_char ''(null)'' @ [0] | Some s \<Rightarrow> s), ap) }
      else if c = chr CHR ''c'' then do { (v, ap) \<leftarrow> va_word ap; Some (Chars [ucast v], ap) }
      else if c = chr CHR ''%'' then Some (Chars [chr CHR ''%''], ap)
      else Some (Chars [chr CHR ''%'', c], ap))"

text \<open>\<^verbatim>\<open>while (width > slen)\<close> pads on the left; then the string is copied.\<close>

definition put_item :: "u32 \<Rightarrow> bool \<Rightarrow> int \<Rightarrow> item \<Rightarrow> sink \<Rightarrow> sink option" where
  "put_item sz zero_pad width it out =
     (case it of
        Chars cs \<Rightarrow> put_all sz cs out
      | Text s \<Rightarrow> do {
          slen \<leftarrow> strlen s;
          out \<leftarrow> put_pad sz (nat width - slen) (if zero_pad then chr CHR ''0'' else chr CHR '' '') out;
          put_str sz s out })"

definition directive :: "bytestr \<Rightarrow> (bool \<times> int \<times> u8 \<times> bytestr) option" where
  "directive fmt =
     (case fmt of [] \<Rightarrow> None
      | c # f \<Rightarrow> do {
          let zero_pad = (c = chr CHR ''0'');
          (width, fmt) \<leftarrow> scan_int 0 (if zero_pad then f else c # f);
          case fmt of [] \<Rightarrow> None | c # fmt \<Rightarrow> Some (zero_pad, width, c, fmt) })"

lemma scan_int_length: "scan_int n s = Some (m, t) \<Longrightarrow> length t \<le> length s"
  by (induction n s rule: scan_int.induct) (auto simp: Let_def split: if_splits)

lemma directive_length: "directive f = Some (z, w, c, t) \<Longrightarrow> length t < length f"
proof -
  assume f: "directive f = Some (z, w, c, t)"
  then obtain d g where g: "f = d # g" by (cases f) (simp_all add: directive_def)
  define h where "h = (if d = chr CHR ''0'' then g else d # g)"
  have "Option.bind (scan_int 0 h) (\<lambda>(w, fmt). case fmt of [] \<Rightarrow> None | c # fmt \<Rightarrow> Some (d = chr CHR ''0'', w, c, fmt))
      = Some (z, w, c, t)"
    using f unfolding g directive_def h_def [symmetric] list.case Let_def .
  then obtain m b where "scan_int 0 h = Some (m, b)"
    "(case b of [] \<Rightarrow> None | c # fmt \<Rightarrow> Some (d = chr CHR ''0'', m, c, fmt)) = Some (z, w, c, t)"
    by (auto simp only: bind_eq_Some_conv prod.case)
  then have "\<exists>m. scan_int 0 h = Some (m, c # t)" by (cases b) auto
  then have "length (c # t) \<le> length h" by (auto dest: scan_int_length)
  moreover have "length h \<le> length f" by (simp add: h_def g)
  ultimately show ?thesis by simp
qed

text \<open>The loop over the format; the result is the position at its end.\<close>

function vsnprintf_loop :: "u32 \<Rightarrow> bytestr \<Rightarrow> vararg list \<Rightarrow> sink \<Rightarrow> sink option" where
  "vsnprintf_loop sz fmt ap out =
     (case fmt of [] \<Rightarrow> None
      | c # f \<Rightarrow>
          if c = 0 then Some out
          else if c \<noteq> chr CHR ''%'' then do { out \<leftarrow> put sz c out; vsnprintf_loop sz f ap out }
          else case directive f of None \<Rightarrow> None
            | Some (zero_pad, width, c, f') \<Rightarrow> do {
                (it, ap) \<leftarrow> convert c ap;
                out \<leftarrow> put_item sz zero_pad width it out;
                vsnprintf_loop sz f' ap out })"
  by pat_completeness auto
termination
  by (relation "measure (\<lambda>(_, fmt, _, _). length fmt)") (auto dest: directive_length)

declare vsnprintf_loop.simps [simp del]

definition vsnprintf :: "bytestr \<Rightarrow> u32 \<Rightarrow> bytestr \<Rightarrow> vararg list \<Rightarrow> (u32 \<times> bytestr) option" where
  "vsnprintf buf sz fmt ap = do {
     (buf, pos) \<leftarrow> vsnprintf_loop sz fmt ap (buf, 0);
     if unat pos < length buf then Some (pos, buf[unat pos := 0]) else None
   }"

section \<open>Characters\<close>

definition isspace :: "u32 \<Rightarrow> bool" where
  "isspace c \<longleftrightarrow> c = 32 \<or> c = 9 \<or> c = 10 \<or> c = 13 \<or> c = 12 \<or> c = 11"

definition isdigit :: "u32 \<Rightarrow> bool" where
  "isdigit c \<longleftrightarrow> 48 \<le> sint c \<and> sint c \<le> 57"

definition isalpha :: "u32 \<Rightarrow> bool" where
  "isalpha c \<longleftrightarrow> 97 \<le> sint c \<and> sint c \<le> 122 \<or> 65 \<le> sint c \<and> sint c \<le> 90"

definition isalnum :: "u32 \<Rightarrow> bool" where
  "isalnum c \<longleftrightarrow> isalpha c \<or> isdigit c"

definition toupper :: "u32 \<Rightarrow> u32" where
  "toupper c = (if 97 \<le> sint c \<and> sint c \<le> 122 then c - 32 else c)"

definition tolower :: "u32 \<Rightarrow> u32" where
  "tolower c = (if 65 \<le> sint c \<and> sint c \<le> 90 then c + 32 else c)"

section \<open>C strings\<close>

lemma c_string_Nil [simp]: "c_string [] s \<longleftrightarrow> (\<exists>r. s = 0 # r)"
  by (simp add: c_string_def)

lemma c_string_Cons [simp]: "c_string (x # xs) s \<longleftrightarrow> x \<noteq> 0 \<and> (\<exists>s'. s = x # s' \<and> c_string xs s')"
  by (auto simp: c_string_def)

lemma c_string_make: "0 \<notin> set xs \<Longrightarrow> c_string xs (xs @ 0 # r)"
  by (simp add: c_string_def)

lemma strlen_c [simp]: "c_string xs s \<Longrightarrow> strlen s = Some (length xs)"
  by (induction xs arbitrary: s) auto

lemma strcpy_c: "c_string xs s \<Longrightarrow> length xs < length dst \<Longrightarrow> strcpy dst s = Some (xs @ 0 # drop (Suc (length xs)) dst)"
proof (induction xs arbitrary: s dst)
  case Nil
  then show ?case by (cases dst) auto
next
  case (Cons x xs)
  then show ?case by (cases dst) auto
qed

lemma strcpy_overruns: "c_string xs s \<Longrightarrow> length dst \<le> length xs \<Longrightarrow> strcpy dst s = None"
proof (induction xs arbitrary: s dst)
  case (Cons x xs)
  then show ?case by (cases dst) auto
qed auto

lemma strcmp_c:
  assumes "c_string xs s" and "c_string ys t"
  shows "\<exists>d. strcmp s t = Some d \<and> (d = 0 \<longleftrightarrow> xs = ys) \<and> (d < 0 \<longleftrightarrow> xs < ys)"
  using assms
proof (induction xs arbitrary: ys s t)
  case Nil
  then show ?case by (cases ys) (auto simp: word_less_def word_neq_0_conv)
next
  case (Cons x xs)
  show ?case
  proof (cases ys)
    case Nil
    then show ?thesis using Cons.prems by (auto simp: unsigned_greater_eq not_less uint_0_iff)
  next
    case (Cons y ys')
    have d: "uint x - uint y = 0 \<longleftrightarrow> x = y" by (simp add: word_uint_eq_iff)
    show ?thesis
      using Cons Cons.prems Cons.IH d by (auto simp: word_less_def less_list_code)
  qed
qed

section \<open>Digits\<close>

text \<open>The digits of a number, the last one first; none for 0.\<close>

function digits :: "nat \<Rightarrow> nat \<Rightarrow> bytestr" where
  "digits b n = (if n = 0 \<or> b < 2 then [] else hex_digits ! (n mod b) # digits b (n div b))"
  by pat_completeness auto
termination by (relation "measure snd") auto

declare digits.simps [simp del]

lemma digits_0 [simp]: "digits b 0 = []" by (simp add: digits.simps)

lemma digits_step: "0 < n \<Longrightarrow> 2 \<le> b \<Longrightarrow> digits b n = hex_digits ! (n mod b) # digits b (n div b)"
  by (subst digits.simps) simp

lemma digits_length: "2 \<le> b \<Longrightarrow> n < b ^ k \<Longrightarrow> length (digits b n) \<le> k"
proof (induction k arbitrary: n)
  case (Suc k)
  then show ?case
  proof (cases "n = 0")
    case False
    then have "n div b < b ^ k" using Suc.prems by (simp add: less_mult_imp_div_less mult.commute)
    then show ?thesis using Suc False by (simp add: digits_step)
  qed simp
qed simp

lemma hex_digits_length [simp]: "length hex_digits = 17"
  by (simp add: hex_digits_def)

lemma hex_digits_nth:
  assumes "d < 16"
  shows "hex_digits ! d = (if d < 10 then of_nat (48 + d) else of_nat (87 + d))"
proof -
  have "\<forall>d<16. hex_digits ! d = (if d < 10 then of_nat (48 + d) else of_nat (87 + d))"
    unfolding hex_digits_def by (simp add: All_less_Suc eval_nat_numeral)
  with assms show ?thesis by blast
qed

lemma digits_nonzero: "2 \<le> b \<Longrightarrow> b \<le> 16 \<Longrightarrow> 0 \<notin> set (digits b n)"
proof (induction n rule: less_induct)
  case (less n)
  show ?case
  proof (cases "n = 0")
    case False
    have "n mod b < 16" using less.prems by (intro less_le_trans [OF mod_less_divisor]) auto
    moreover have "\<forall>d\<in>set [0..<16]. hex_digits ! d \<noteq> 0" by code_simp
    ultimately have "hex_digits ! (n mod b) \<noteq> 0" by auto
    with less False show ?thesis by (simp add: digits_step)
  qed simp
qed

lemma itoa_loop_digits:
  assumes "2 \<le> b" and "b \<le> 16" and "unat base = b" and "unat u < b ^ k" and "length tmp + k \<le> 32"
  shows "itoa_loop base u tmp = Some (tmp @ digits b (unat u))"
  using assms(4,5)
proof (induction k arbitrary: u tmp)
  case 0
  then have "u = 0" by (simp add: unat_eq_zero)
  then show ?case by (simp add: itoa_loop.simps)
next
  case (Suc k)
  show ?case
  proof (cases "u = 0")
    case False
    have "unat (u mod base) = unat u mod b" "unat (u div base) = unat u div b"
      using assms(3) by (simp_all add: unat_mod unat_div)
    moreover have "unat u mod b < 17" using assms(1,2) by (intro less_le_trans [OF mod_less_divisor]) auto
    moreover have "unat u div b < b ^ k" using Suc.prems assms(1) by (simp add: less_mult_imp_div_less mult.commute)
    moreover have "base \<noteq> 0" using assms(1,3) by auto
    moreover have "0 < unat u" using False by (simp add: unat_gt_0)
    ultimately show ?thesis
      using False Suc.prems Suc.IH [of "u div base"] assms(1)
      by (subst itoa_loop.simps) (simp add: digits_step not_le)
  qed (simp add: itoa_loop.simps)
qed

section \<open>Reading back what was printed\<close>

lemma is_digit_hex: "d < 10 \<Longrightarrow> is_digit (hex_digits ! d) \<and> uint (hex_digits ! d) = int (48 + d)"
proof -
  assume "d < 10"
  moreover have "\<forall>d\<in>set [0..<10]. is_digit (hex_digits ! d) \<and> uint (hex_digits ! d) = int (48 + d)" by code_simp
  ultimately show ?thesis by auto
qed

lemma scan_digits:
  assumes "n < 2147483648"
  shows "scan_int 0 (rev (digits 10 n) @ r) = scan_int (int n) r"
  using assms
proof (induction n arbitrary: r rule: less_induct)
  case (less n)
  show ?case
  proof (cases "n = 0")
    case False
    let ?d = "hex_digits ! (n mod 10)"
    have d: "is_digit ?d" "uint ?d = int (48 + n mod 10)" using is_digit_hex [of "n mod 10"] by simp_all
    have "scan_int 0 (rev (digits 10 n) @ r) = scan_int 0 (rev (digits 10 (n div 10)) @ ?d # r)"
      using False by (simp add: digits_step)
    also have "\<dots> = scan_int (int (n div 10)) (?d # r)" using less False by simp
    also have "\<dots> = scan_int (int n) r"
    proof -
      have n: "int (n div 10) * 10 + (uint ?d - 48) = int n" unfolding d(2) by (simp add: zdiv_int zmod_int)
      have "in_int (int (n div 10) * 10)" "in_int (int n)" using less.prems by (auto simp: in_int_def)
      then show ?thesis using d(1) n by (simp add: Let_def del: of_nat_Suc)
    qed
    finally show ?thesis .
  qed simp
qed

lemma chars_simps [simp]:
  "\<not> is_digit 0" "\<not> is_digit (chr CHR ''-'')" "\<not> is_digit (chr CHR '' '')"
  by (simp_all add: is_digit_def)

lemma rev_digits_head:
  assumes "0 < n"
  obtains c s where "rev (digits 10 n) = c # s" "is_digit c"
proof -
  have "\<forall>c\<in>set (digits 10 n). is_digit c"
  proof (induction n rule: less_induct)
    case (less n)
    then show ?case using is_digit_hex [of "n mod 10"] less [of "n div 10"] by (cases "n = 0") (auto simp: digits_step)
  qed
  moreover have "rev (digits 10 n) \<noteq> []" using assms by (simp add: digits_step)
  then obtain c s where e: "rev (digits 10 n) = c # s" by (cases "rev (digits 10 n)") blast+
  then have "c \<in> set (digits 10 n)" by (metis list.set_intros(1) set_rev)
  ultimately show thesis using that [OF e] by blast
qed

text \<open>The decimal representation that \<^verbatim>\<open>%d\<close> prints.\<close>

definition decimal :: "int \<Rightarrow> bytestr" where
  "decimal n = (if n = 0 then [chr CHR ''0'']
     else (if n < 0 then [chr CHR ''-''] else []) @ rev (digits 10 (nat \<bar>n\<bar>)))"

lemma skip_spaces_simp: "c \<noteq> chr CHR '' '' \<Longrightarrow> skip_spaces (c # s) = c # s"
  by simp

lemma atoi_decimal:
  assumes "- 2147483648 < n" and "n < 2147483648"
  shows "atoi (decimal n @ 0 # r) = Some n"
proof (cases "n = 0")
  case True
  have "scan_int 0 (chr CHR ''0'' # 0 # r) = Some (0, 0 # r)" by (simp add: is_digit_def in_int_def Let_def)
  with True show ?thesis by (simp add: decimal_def atoi_def)
next
  case False
  let ?m = "nat \<bar>n\<bar>"
  obtain c s where c: "rev (digits 10 ?m) = c # s" "is_digit c" by (rule rev_digits_head [of ?m]) (use False in simp)
  have sc: "scan_int 0 ((c # s) @ 0 # r) = Some (int ?m, 0 # r)"
    unfolding c(1) [symmetric] using assms by (subst scan_digits) simp_all
  have ne: "c \<noteq> chr CHR '' ''" "c \<noteq> chr CHR ''-''" using c(2) chars_simps by metis+
  have m: "chr CHR ''-'' \<noteq> chr CHR '' ''" by simp
  show ?thesis
  proof (cases "n < 0")
    case True
    then have "decimal n @ 0 # r = chr CHR ''-'' # (c # s) @ 0 # r" using False c(1) by (simp add: decimal_def)
    then show ?thesis using True sc m by (simp only: atoi_def skip_spaces.simps if_False list.case Let_def if_True) simp
  next
    case nonneg: False
    then have "decimal n @ 0 # r = (c # s) @ 0 # r" using False c(1) by (simp add: decimal_def)
    then show ?thesis using nonneg sc ne by (simp add: atoi_def)
  qed
qed

lemma decimal_length:
  assumes "- 2147483648 \<le> n" and "n < 4294967296"
  shows "length (decimal n) \<le> 11" "0 \<notin> set (decimal n)"
proof -
  have "nat \<bar>n\<bar> < 10 ^ 10" using assms by simp
  then have "length (digits 10 (nat \<bar>n\<bar>)) \<le> 10" by (intro digits_length) simp_all
  then show "length (decimal n) \<le> 11" by (auto simp: decimal_def abs_if)
  show "0 \<notin> set (decimal n)" using digits_nonzero [of 10 "nat \<bar>n\<bar>"] by (simp add: decimal_def)
qed

lemma itoa_decimal:
  assumes "val \<noteq> 0x80000000" and "12 \<le> length buf"
  shows "itoa_buf val buf 10 False = Some (decimal (sint val) @ 0 # drop (Suc (length (decimal (sint val)))) buf)"
proof -
  let ?n = "sint val" and ?u = "if sint val < 0 then - val else val"
  have rng: "- 2147483648 \<le> ?n" "?n < 2147483648"
    using sint_ge [of val] sint_lt [of val] by simp_all
  have u: "unat ?u = nat \<bar>?n\<bar>"
  proof (cases "?n < 0")
    case True
    have "uint (- val) = (- ?n) mod 4294967296" by (simp add: uint_word_ariths flip: uint_sint) (simp add: uint_sint take_bit_eq_mod mod_minus_eq)
    then show ?thesis using True rng by (simp flip: nat_uint_eq)
  next
    case False
    then have "uint val = ?n" using rng by (simp add: uint_sint [of val] take_bit_eq_mod)
    then show ?thesis using False by (simp flip: nat_uint_eq)
  qed
  have u0: "?u = 0 \<longleftrightarrow> ?n = 0" by (simp only: unat_eq_zero [symmetric] u) simp
  let ?s = "decimal ?n"
  have L: "length ?s \<le> 11" "0 \<notin> set ?s" by (rule decimal_length; use rng in simp)+
  have "strcpy buf (?s @ [0]) = Some (?s @ 0 # drop (Suc (length ?s)) buf)"
    using L assms(2) by (intro strcpy_c c_string_make) simp_all
  moreover have "itoa_buf val buf 10 False = strcpy buf (?s @ [0])"
  proof (cases "?n = 0")
    case True
    then show ?thesis using assms(1) u0 by (simp add: itoa_buf_def decimal_def)
  next
    case False
    have "unat ?u < 4294967296" by (rule unat_u32_lt)
    then have "unat ?u < 10 ^ 10" by (rule less_trans) simp
    then have it: "itoa_loop 10 ?u [] = Some (digits 10 (nat \<bar>?n\<bar>))"
      unfolding u [symmetric] by (subst itoa_loop_digits [where b = 10 and k = 10]) simp_all
    have "length (digits 10 (nat \<bar>?n\<bar>)) \<le> 10" using rng by (intro digits_length) simp_all
    then have "sint val < 0 \<Longrightarrow> length (digits 10 (nat (- sint val))) < 32" by simp
    then show ?thesis
      using False assms(1) u0 it by (simp add: itoa_buf_def decimal_def Let_def)
  qed
  ultimately show ?thesis by simp
qed

section \<open>Bounded output is the unbounded output, cut off\<close>

text \<open>What a format and its arguments stand for, without a buffer.\<close>

definition render_item :: "bool \<Rightarrow> int \<Rightarrow> item \<Rightarrow> bytestr option" where
  "render_item zero_pad width it =
     (case it of Chars cs \<Rightarrow> Some cs
      | Text s \<Rightarrow> map_option (\<lambda>n. replicate (nat width - n) (if zero_pad then chr CHR ''0'' else chr CHR '' '') @ take n s)
          (strlen s))"

function render :: "bytestr \<Rightarrow> vararg list \<Rightarrow> bytestr option" where
  "render fmt ap =
     (case fmt of [] \<Rightarrow> None
      | c # f \<Rightarrow>
          if c = 0 then Some []
          else if c \<noteq> chr CHR ''%'' then map_option (Cons c) (render f ap)
          else case directive f of None \<Rightarrow> None
            | Some (zero_pad, width, c, f') \<Rightarrow> do {
                (it, ap) \<leftarrow> convert c ap;
                cs \<leftarrow> render_item zero_pad width it;
                map_option (append cs) (render f' ap) })"
  by pat_completeness auto
termination
  by (relation "measure (\<lambda>(fmt, _). length fmt)") (auto dest: directive_length)

declare render.simps [simp del]

text \<open>The sink of size \<open>sz\<close> after the characters \<open>cs\<close>.\<close>

definition sent :: "bytestr \<Rightarrow> u32 \<Rightarrow> bytestr \<Rightarrow> sink" where
  "sent buf sz cs = (let k = min (length cs) (unat sz - 1) in (take k cs @ drop k buf, of_nat k))"

lemma sent_Nil: "sent buf sz [] = (buf, 0)"
  by (simp add: sent_def)

lemma put_sent:
  assumes "sz \<noteq> 0" and "unat sz \<le> length buf"
  shows "put sz c (sent buf sz cs) = Some (sent buf sz (cs @ [c]))"
proof -
  have u: "unat (sz - 1) = unat sz - 1" using assms(1) by (simp add: unat_minus_one)
  have s: "0 < unat sz" "unat sz < 4294967296" using assms(1) by (simp_all add: unat_gt_0)
  have k: "unat (of_nat (min (length cs) (unat sz - 1)) :: u32) = min (length cs) (unat sz - 1)"
    using s by (intro unat_of_nat_small) linarith
  show ?thesis
  proof (cases "length cs < unat sz - 1")
    case True
    then have "take (length cs) (take (length cs) cs @ drop (length cs) buf) = cs" by simp
    have "cs @ drop (length cs) buf = cs @ buf ! length cs # drop (Suc (length cs)) buf"
      using True assms(2) by (simp add: Cons_nth_drop_Suc)
    then have "(cs @ drop (length cs) buf)[length cs := c] = (cs @ [c]) @ drop (Suc (length cs)) buf"
      by (simp add: list_update_append)
    with True k u assms(2) s show ?thesis
      by (simp add: put_def sent_def Let_def word_less_nat_alt min_def)
  next
    case False
    with k u show ?thesis by (simp add: put_def sent_def Let_def word_less_nat_alt min_def)
  qed
qed

lemma put_all_sent: "sz \<noteq> 0 \<Longrightarrow> unat sz \<le> length buf \<Longrightarrow>
    put_all sz xs (sent buf sz cs) = Some (sent buf sz (cs @ xs))"
  by (induction xs arbitrary: cs) (simp_all add: put_sent)

lemma put_pad_sent: "sz \<noteq> 0 \<Longrightarrow> unat sz \<le> length buf \<Longrightarrow>
    put_pad sz n c (sent buf sz cs) = Some (sent buf sz (cs @ replicate n c))"
  by (induction n arbitrary: cs) (simp_all add: put_sent)

lemma put_str_sent: "sz \<noteq> 0 \<Longrightarrow> unat sz \<le> length buf \<Longrightarrow> strlen s = Some n \<Longrightarrow>
    put_str sz s (sent buf sz cs) = Some (sent buf sz (cs @ take n s))"
  by (induction s arbitrary: cs n rule: strlen.induct) (auto simp: put_sent split: if_splits)

lemma put_item_sent: "sz \<noteq> 0 \<Longrightarrow> unat sz \<le> length buf \<Longrightarrow> render_item z w it = Some xs \<Longrightarrow>
    put_item sz z w it (sent buf sz cs) = Some (sent buf sz (cs @ xs))"
  by (auto simp: render_item_def put_item_def put_str_sent put_pad_sent put_all_sent split: item.splits)

lemma vsnprintf_loop_sent:
  assumes sz: "sz \<noteq> 0" and fits: "unat sz \<le> length buf" and "render fmt ap = Some out"
  shows "vsnprintf_loop sz fmt ap (sent buf sz cs) = Some (sent buf sz (cs @ out))"
  using assms(3)
proof (induction fmt ap arbitrary: cs out rule: render.induct)
  case (1 fmt ap)
  show ?case
  proof (cases fmt)
    case Nil
    with "1.prems" show ?thesis by (simp add: render.simps)
  next
    case fmt: (Cons c f)
    consider "c = 0" | "c \<noteq> 0" "c \<noteq> chr CHR ''%''" | "c = chr CHR ''%''" by blast
    then show ?thesis
    proof cases
      case 1
      with "1.prems" fmt show ?thesis by (subst (asm) render.simps, subst vsnprintf_loop.simps) simp
    next
      case 2
      then obtain xs where xs: "render f ap = Some xs" "out = c # xs"
        using "1.prems" fmt by (subst (asm) render.simps) auto
      from "1.IH"(1) [OF fmt 2 xs(1)] 2 fmt xs(2) show ?thesis
        by (subst vsnprintf_loop.simps) (simp add: put_sent [OF sz fits])
    next
      case 3
      have nz: "c \<noteq> 0" using 3 by simp
      have "(case directive f of None \<Rightarrow> None
            | Some (zero_pad, width, c, f') \<Rightarrow> do {
                (it, ap) \<leftarrow> convert c ap;
                cs \<leftarrow> render_item zero_pad width it;
                map_option (append cs) (render f' ap) }) = Some out"
        using "1.prems" 3 nz fmt by (subst (asm) render.simps) simp
      then obtain z w d f' it ap' xs ys where d: "directive f = Some (z, w, d, f')" "convert d ap = Some (it, ap')"
        "render_item z w it = Some xs" "render f' ap' = Some ys" "out = xs @ ys"
        by (auto simp: bind_eq_Some_conv split: option.splits)
      have "vsnprintf_loop sz f' ap' (sent buf sz (cs @ xs)) = Some (sent buf sz ((cs @ xs) @ ys))"
        by (rule "1.IH"(2) [OF fmt nz _ d(1) refl refl refl d(2) refl d(3,4)]) (use 3 in simp)
      with d put_item_sent [OF sz fits d(3), of cs] 3 nz fmt show ?thesis
        by (subst vsnprintf_loop.simps) simp
    qed
  qed
qed

section \<open>Properties\<close>

text \<open>
  C30. \<^verbatim>\<open>strcmp\<close> on two C strings returns, reads nothing past their terminators, and gives 0 exactly
  for equal strings and a negative number exactly when the first comes before the second in the
  lexicographic order of their bytes.
\<close>

theorem strcmp_orders_strings:
  assumes "0 \<notin> set xs" and "0 \<notin> set ys"
  shows "\<exists>d. strcmp (xs @ [0]) (ys @ [0]) = Some d \<and> (d = 0 \<longleftrightarrow> xs = ys) \<and> (d < 0 \<longleftrightarrow> xs < ys) \<and> (0 < d \<longleftrightarrow> ys < xs)"
proof -
  obtain d where d: "strcmp (xs @ [0]) (ys @ [0]) = Some d" "d = 0 \<longleftrightarrow> xs = ys" "d < 0 \<longleftrightarrow> xs < ys"
    using strcmp_c [OF c_string_make [OF assms(1), of "[]"] c_string_make [OF assms(2), of "[]"]] by auto
  have "0 < d \<longleftrightarrow> ys < xs" using d(2,3) by (metis less_linear linorder_neqE_linordered_idom not_less_iff_gr_or_eq)
  with d show ?thesis by blast
qed

theorem strcmp_orders_strings_witness:
  "\<exists>d. strcmp (map of_char ''bin'' @ [0]) (map of_char ''boot'' @ [0]) = Some d \<and> d < 0"
proof -
  have "(map of_char ''bin'' :: bytestr) < map of_char ''boot''" by simp
  then show ?thesis using strcmp_orders_strings [of "map of_char ''bin''" "map of_char ''boot''"] by auto
qed

text \<open>
  \<^verbatim>\<open>atoi\<close> reads back what \<^verbatim>\<open>itoa_buf\<close> prints in decimal, for every \<^verbatim>\<open>int\<close> but the least one (whose
  negation is undefined); the text needs at most 12 bytes, and nothing else of the buffer changes.
\<close>

theorem atoi_itoa_roundtrip:
  assumes "val \<noteq> 0x80000000" and "12 \<le> length buf"
  shows "\<exists>buf'. itoa_buf val buf 10 False = Some buf' \<and> atoi buf' = Some (sint val)
    \<and> length buf' = length buf \<and> drop 12 buf' = drop 12 buf"
proof -
  let ?s = "decimal (sint val)"
  have rng: "- 2147483648 \<le> sint val" "sint val < 2147483648" using sint_ge [of val] sint_lt [of val] by simp_all
  have "sint val \<noteq> - 2147483648"
  proof
    assume "sint val = - 2147483648"
    then have "word_of_int (sint val) = (word_of_int (- 2147483648) :: u32)" by simp
    then show False using assms(1) by simp
  qed
  then have lt: "- 2147483648 < sint val" using rng by simp
  have L: "length ?s \<le> 11" by (rule decimal_length) (use rng in simp_all)
  have "itoa_buf val buf 10 False = Some (?s @ 0 # drop (Suc (length ?s)) buf)" by (rule itoa_decimal [OF assms])
  moreover have "atoi (?s @ 0 # drop (Suc (length ?s)) buf) = Some (sint val)" by (rule atoi_decimal [OF lt rng(2)])
  moreover have "drop 12 (?s @ 0 # drop (Suc (length ?s)) buf) = drop 12 buf"
    using L by (simp add: drop_Cons')
  ultimately show ?thesis using L assms(2) by simp
qed

theorem atoi_itoa_roundtrip_witness:
  "\<exists>buf'. itoa_buf (- 305) (replicate 16 1) 10 False = Some buf' \<and> atoi buf' = Some (- 305)"
  using atoi_itoa_roundtrip [of "- 305" "replicate 16 1"] by auto

lemma vsnprintf_render:
  assumes "render fmt ap = Some out" and "sz \<noteq> 0" and "unat sz \<le> length buf"
  shows "vsnprintf buf sz fmt ap =
    (let k = min (length out) (unat sz - 1) in Some (of_nat k, take k out @ 0 # drop (Suc k) buf))"
proof -
  define k where "k = min (length out) (unat sz - 1)"
  have s: "0 < unat sz" "unat sz < 4294967296" using assms(2) by (simp_all add: unat_gt_0)
  have k: "k < length buf" "k \<le> length out" using s(1) assms(3) unfolding k_def by linarith+
  have uk: "unat (of_nat k :: u32) = k" unfolding k_def using s by (intro unat_of_nat_small) linarith
  have "vsnprintf_loop sz fmt ap (buf, 0) = Some (take k out @ drop k buf, of_nat k)"
    using vsnprintf_loop_sent [OF assms(2,3,1), of "[]"] unfolding sent_Nil by (simp add: sent_def k_def Let_def)
  moreover have "(take k out @ drop k buf)[k := 0] = take k out @ 0 # drop (Suc k) buf"
    using k by (simp add: list_update_append Cons_nth_drop_Suc [symmetric])
  ultimately have "vsnprintf buf sz fmt ap = Some (of_nat k, take k out @ 0 # drop (Suc k) buf)"
    using k uk by (simp add: vsnprintf_def)
  then show ?thesis by (simp only: k_def Let_def)
qed

text \<open>
  C31. \<^verbatim>\<open>vsnprintf\<close> into a buffer of at least \<open>sz\<close> bytes is the unbounded rendering of the format, cut
  off after \<open>sz - 1\<close> characters and terminated: it writes inside the first \<open>sz\<close> bytes only, whatever
  the length of the arguments, and returns the number of characters it kept.
\<close>

theorem vsnprintf_truncates:
  assumes "render fmt ap = Some out" and "sz \<noteq> 0" and "unat sz \<le> length buf"
  shows "vsnprintf buf sz fmt ap =
    (let k = min (length out) (unat sz - 1) in Some (of_nat k, take k out @ 0 # drop (Suc k) buf))"
  by (rule vsnprintf_render [OF assms])

theorem vsnprintf_truncates_witness:
  "vsnprintf (replicate 6 1) 5 (map of_char ''pid %04d'' @ [0]) [VWord 42] = Some (4, map of_char ''pid '' @ [0, 1])"
proof -
  have "render (map of_char ''pid %04d'' @ [0]) [VWord 42] = Some (map of_char ''pid 0042'')" by code_simp
  then have "vsnprintf (replicate 6 1) 5 (map of_char ''pid %04d'' @ [0]) [VWord 42] =
      (let k = min (length (map of_char ''pid 0042'' :: bytestr)) (unat (5 :: u32) - 1)
       in Some (of_nat k, take k (map of_char ''pid 0042'') @ 0 # drop (Suc k) (replicate 6 1)))"
    by (rule vsnprintf_truncates) simp_all
  also have "\<dots> = Some (4, map of_char ''pid '' @ [0, 1])" by code_simp
  finally show ?thesis .
qed

text \<open>
  A format that ends in a lone \<^verbatim>\<open>%\<close> makes \<^verbatim>\<open>vsnprintf\<close> skip the terminator and read past the string.
\<close>

theorem vsnprintf_lone_percent:
  "vsnprintf buf sz [chr CHR ''%'', 0] ap = None"
proof -
  have "directive [0] = Some (False, 0, 0, [])"
    by (simp add: directive_def Let_def is_digit_def in_int_def)
  then have "vsnprintf_loop sz [chr CHR ''%'', 0] ap out = None" for out
    by (subst vsnprintf_loop.simps)
      (auto simp: convert_def put_item_def vsnprintf_loop.simps [of sz "[]"] bind_eq_None_conv split: prod.splits)
  then show ?thesis by (simp add: vsnprintf_def)
qed

end
