(* ===== verification/Ramfs.thy ===== *)
theory Ramfs
  imports Libc "HOL-Library.Multiset"
begin

text \<open>
  The file system in memory, \<^verbatim>\<open>fs/ramfs.c\<close>. A node is an object at an address; \<open>nodes\<close> has the live
  ones, so that using a node after \<^verbatim>\<open>kfree\<close> is \<open>None\<close>. The heap is used through its contract: each
  allocation is at a new address, holds whatever its memory held before (\<open>stale\<close>), and memory is
  taken to suffice. The data of a file is the list of bytes of its buffer, \<open>None\<close> for NULL.
\<close>

unbundle bit_operations_syntax

section \<open>State\<close>

definition VFS_NAME_LEN :: nat where "VFS_NAME_LEN = 128"
definition VFS_PATH_LEN :: nat where "VFS_PATH_LEN = 256"
definition VFS_FILE :: u32 where "VFS_FILE = 1"
definition VFS_DIR :: u32 where "VFS_DIR = 2"
definition VFS_CHARDEV :: u32 where "VFS_CHARDEV = 3"
definition S_IFDIR :: u32 where "S_IFDIR = 0x4000"
definition S_IFREG :: u32 where "S_IFREG = 0x8000"
definition RAMFS_MAX_CHILDREN :: nat where "RAMFS_MAX_CHILDREN = 64"
definition RAMFS_BLOCK_SIZE :: u32 where "RAMFS_BLOCK_SIZE = 4096"

lemmas vfs_consts [err_defs] = VFS_FILE_def VFS_DIR_def VFS_CHARDEV_def S_IFDIR_def S_IFREG_def

text \<open>A pointer to a \<^verbatim>\<open>vnode_t\<close>: the one inside a node of the ramfs, or the static one of the terminal.\<close>

datatype vptr = Ram u32 | Tty

record vnode =
  vname :: bytestr
  vtype :: u32
  vsize :: u32
  vinode :: u32
  permissions :: u32
  mount_point :: "vptr option"
  ref_count :: u32

record ramfs_node =
  rname :: bytestr
  rtype :: u32
  rdata :: "bytestr option"
  rsize :: u32
  capacity :: u32
  rinode :: u32
  children :: "u32 list"
  rvnode :: vnode

record fs =
  nodes :: "u32 \<Rightarrow> ramfs_node option"
  next_inode :: u32
  fresh :: u32
  stale :: "u32 \<Rightarrow> nat \<Rightarrow> u8"

text \<open>A new object; no addresses left is the heap running out.\<close>

definition new_addr :: "'a fs_scheme \<Rightarrow> (u32 \<times> 'a fs_scheme) option" where
  "new_addr s = (if fresh s = 0 then None else Some (fresh s, s\<lparr>fresh := fresh s + 1\<rparr>))"

definition upd_node :: "u32 \<Rightarrow> (ramfs_node \<Rightarrow> ramfs_node) \<Rightarrow> 'a fs_scheme \<Rightarrow> 'a fs_scheme" where
  "upd_node a f s = s\<lparr>nodes := (nodes s)(a := map_option f (nodes s a))\<rparr>"

text \<open>The array a name is copied into.\<close>

definition name_array :: bytestr where
  "name_array = replicate VFS_NAME_LEN 0"

section \<open>Operations\<close>

definition new_ramfs_node :: "bytestr \<Rightarrow> u32 \<Rightarrow> 'a fs_scheme \<Rightarrow> (u32 \<times> 'a fs_scheme) option" where
  "new_ramfs_node name type s = do {
     (a, s) \<leftarrow> new_addr s;
     nm \<leftarrow> strcpy name_array name;
     let n = \<lparr>rname = nm, rtype = type, rdata = None, rsize = 0, capacity = 0, rinode = next_inode s, children = [],
              rvnode = \<lparr>vname = nm, vtype = type, vsize = 0, vinode = next_inode s,
                permissions = (if type = VFS_DIR then 0x4000 OR 0x0100 OR 0x0080 OR 0x0040 else 0x8000 OR 0x0100 OR 0x0080),
                mount_point = None, ref_count = 0\<rparr>\<rparr>;
     Some (a, s\<lparr>nodes := (nodes s)(a \<mapsto> n), next_inode := next_inode s + 1\<rparr>)
   }"

text \<open>The result of a read is its return value and the bytes put into the buffer.\<close>

definition ramfs_read :: "u32 \<Rightarrow> u32 \<Rightarrow> u32 \<Rightarrow> 'a fs_scheme \<Rightarrow> (u32 \<times> bytestr) option" where
  "ramfs_read a off sz s = do {
     n \<leftarrow> nodes s a;
     if rtype n \<noteq> VFS_FILE then Some (- EISDIR, [])
     else if rsize n \<le> off then Some (0, [])
     else do {
       let avail = rsize n - off;
       let to_read = (if sz < avail then sz else avail);
       if to_read = 0 then Some (0, [])
       else do {
         data \<leftarrow> rdata n;
         if unat off + unat to_read \<le> length data
         then Some (to_read, take (unat to_read) (drop (unat off) data)) else None
       }
     }
   }"

text \<open>\<^verbatim>\<open>krealloc\<close> of the buffer: the old bytes stay, new ones hold what the memory held.\<close>

definition realloc_data :: "(nat \<Rightarrow> u8) \<Rightarrow> bytestr option \<Rightarrow> nat \<Rightarrow> bytestr option" where
  "realloc_data junk d cap =
     (case d of None \<Rightarrow> if cap = 0 then None else Some (map junk [0..<cap])
      | Some xs \<Rightarrow> Some (xs @ map junk [length xs..<cap]))"

definition ramfs_write :: "u32 \<Rightarrow> u32 \<Rightarrow> u32 \<Rightarrow> bytestr \<Rightarrow> 'a fs_scheme \<Rightarrow> (u32 \<times> 'a fs_scheme) option" where
  "ramfs_write a off sz buf s = do {
     n \<leftarrow> nodes s a;
     if rtype n \<noteq> VFS_FILE then Some (- EISDIR, s)
     else do {
       let needed = off + sz;
       (n, s) \<leftarrow> (if capacity n < needed then do {
                   let new_cap = needed + RAMFS_BLOCK_SIZE;
                   (b, s) \<leftarrow> new_addr s;
                   Some (n\<lparr>rdata := realloc_data (stale s b) (rdata n) (unat new_cap), capacity := new_cap\<rparr>, s)
                 } else Some (n, s));
       n \<leftarrow> (if sz = 0 then Some n
             else do {
               data \<leftarrow> rdata n;
               if unat off + unat sz \<le> length data \<and> unat sz \<le> length buf
               then Some (n\<lparr>rdata := Some (take (unat off) data @ take (unat sz) buf @ drop (unat off + unat sz) data)\<rparr>)
               else None });
       let n = (if rsize n < needed then n\<lparr>rsize := needed\<rparr> else n);
       let n = n\<lparr>rvnode := (rvnode n)\<lparr>vsize := rsize n\<rparr>\<rparr>;
       Some (sz, s\<lparr>nodes := (nodes s)(a \<mapsto> n)\<rparr>)
     }
   }"

text \<open>The name of entry \<open>idx\<close>, copied into a buffer of the caller.\<close>

definition ramfs_readdir :: "u32 \<Rightarrow> u32 \<Rightarrow> bytestr \<Rightarrow> 'a fs_scheme \<Rightarrow> (u32 \<times> bytestr) option" where
  "ramfs_readdir a idx name_out s = do {
     n \<leftarrow> nodes s a;
     if rtype n \<noteq> VFS_DIR then Some (- ENOTDIR, name_out)
     else if int (length (children n)) \<le> sint idx then Some (- 1, name_out)
     else if sint idx < 0 then None
     else do {
       c \<leftarrow> nodes s (children n ! unat idx);
       out \<leftarrow> strcpy name_out (rname c);
       Some (0, out)
     }
   }"

text \<open>The loop over the children: the index of the first one with the name.\<close>

fun find_child :: "'a fs_scheme \<Rightarrow> bytestr \<Rightarrow> nat \<Rightarrow> u32 list \<Rightarrow> nat option option" where
  "find_child s name i [] = Some None"
| "find_child s name i (c # cs) = do {
     n \<leftarrow> nodes s c;
     d \<leftarrow> strcmp (rname n) name;
     if d = 0 then Some (Some i) else find_child s name (Suc i) cs }"

definition ramfs_finddir :: "u32 \<Rightarrow> bytestr \<Rightarrow> 'a fs_scheme \<Rightarrow> vptr option option" where
  "ramfs_finddir a name s = do {
     n \<leftarrow> nodes s a;
     if rtype n \<noteq> VFS_DIR then Some None
     else map_option (map_option (\<lambda>i. Ram (children n ! i))) (find_child s name 0 (children n))
   }"

definition ramfs_create :: "u32 \<Rightarrow> bytestr \<Rightarrow> u32 \<Rightarrow> 'a fs_scheme \<Rightarrow> (u32 \<times> 'a fs_scheme) option" where
  "ramfs_create a name type s = do {
     parent \<leftarrow> nodes s a;
     if rtype parent \<noteq> VFS_DIR then Some (- ENOTDIR, s)
     else if RAMFS_MAX_CHILDREN \<le> length (children parent) then Some (- ENOSPC, s)
     else do {
       (child, s) \<leftarrow> new_ramfs_node name type s;
       Some (0, upd_node a (\<lambda>n. n\<lparr>children := children n @ [child]\<rparr>) s)
     }
   }"

text \<open>The last child takes the place of the one removed; only the node itself is freed.\<close>

definition ramfs_unlink :: "u32 \<Rightarrow> bytestr \<Rightarrow> 'a fs_scheme \<Rightarrow> (u32 \<times> 'a fs_scheme) option" where
  "ramfs_unlink a name s = do {
     parent \<leftarrow> nodes s a;
     r \<leftarrow> find_child s name 0 (children parent);
     case r of
       None \<Rightarrow> Some (- ENOENT, s)
     | Some i \<Rightarrow> do {
         let s = s\<lparr>nodes := (nodes s)(children parent ! i := None)\<rparr>;
         parent \<leftarrow> nodes s a;
         let cs = children parent;
         let n = length cs - 1;
         Some (0, upd_node a (\<lambda>p. p\<lparr>children := take n (cs[i := cs ! n])\<rparr>) s) }
   }"

record stat =
  st_ino :: u32
  st_mode :: u32
  st_size :: u32
  st_uid :: u32
  st_gid :: u32

definition ramfs_stat :: "u32 \<Rightarrow> 'a fs_scheme \<Rightarrow> (u32 \<times> stat) option" where
  "ramfs_stat a s = do {
     n \<leftarrow> nodes s a;
     Some (0, \<lparr>st_ino = rinode n, st_mode = (if rtype n = VFS_DIR then S_IFDIR else S_IFREG), st_size = rsize n,
              st_uid = 0, st_gid = 0\<rparr>)
   }"

definition ramfs_truncate :: "u32 \<Rightarrow> u32 \<Rightarrow> 'a fs_scheme \<Rightarrow> (u32 \<times> 'a fs_scheme) option" where
  "ramfs_truncate a sz s = do {
     n \<leftarrow> nodes s a;
     let n = (if sz = 0 then n\<lparr>rdata := None, rsize := 0, capacity := 0\<rparr>
              else if sz < rsize n then n\<lparr>rsize := sz\<rparr> else n);
     let n = n\<lparr>rvnode := (rvnode n)\<lparr>vsize := rsize n\<rparr>\<rparr>;
     Some (0, s\<lparr>nodes := (nodes s)(a \<mapsto> n)\<rparr>)
   }"

definition ramfs_create_root :: "'a fs_scheme \<Rightarrow> (vptr \<times> 'a fs_scheme) option" where
  "ramfs_create_root s = do { (a, s) \<leftarrow> new_ramfs_node (map of_char ''/'' @ [0]) VFS_DIR s; Some (Ram a, s) }"

text \<open>The two helpers of the boot code, for a parent that is a ramfs node.\<close>

definition ramfs_mkdir :: "u32 \<Rightarrow> bytestr \<Rightarrow> 'a fs_scheme \<Rightarrow> 'a fs_scheme option" where
  "ramfs_mkdir parent name s = do { (_, s) \<leftarrow> ramfs_create parent name VFS_DIR s; Some s }"

definition ramfs_write_file :: "u32 \<Rightarrow> bytestr \<Rightarrow> bytestr \<Rightarrow> u32 \<Rightarrow> 'a fs_scheme \<Rightarrow> 'a fs_scheme option" where
  "ramfs_write_file parent name data sz s = do {
     (_, s) \<leftarrow> ramfs_create parent name VFS_FILE s;
     f \<leftarrow> ramfs_finddir parent name s;
     case f of Some (Ram a) \<Rightarrow> do { (_, s) \<leftarrow> ramfs_write a 0 sz data s; Some s } | _ \<Rightarrow> Some s
   }"

section \<open>Files\<close>

text \<open>The buffer of a file holds its capacity, and the capacity its size; the node knows the size.\<close>

definition file_ok :: "ramfs_node \<Rightarrow> bool" where
  "file_ok n \<longleftrightarrow> rsize n \<le> capacity n \<and> vsize (rvnode n) = rsize n
     \<and> (case rdata n of None \<Rightarrow> capacity n = 0 | Some d \<Rightarrow> unat (capacity n) \<le> length d)"

definition content :: "ramfs_node \<Rightarrow> bytestr" where
  "content n = (case rdata n of None \<Rightarrow> [] | Some d \<Rightarrow> take (unat (rsize n)) d)"

lemma content_length: "file_ok n \<Longrightarrow> length (content n) = unat (rsize n)"
  by (auto simp: file_ok_def content_def word_le_nat_alt split: option.splits)

lemma unat_add_u32: "unat x + unat y < 4294967296 \<Longrightarrow> unat (x + y) = unat x + unat y" for x y :: u32
  by (rule unat_add_small)

lemma file_ok_empty: "file_ok n \<Longrightarrow> rdata n = None \<Longrightarrow> rsize n = 0"
proof -
  assume "file_ok n" "rdata n = None"
  then have "unat (rsize n) \<le> 0" by (auto simp: file_ok_def word_le_nat_alt)
  then show ?thesis by (simp add: unat_eq_zero)
qed

text \<open>The bytes of a file after a write at \<open>off\<close>: a gap beyond the old end shows the memory as it was.\<close>

definition patched :: "(nat \<Rightarrow> u8) \<Rightarrow> bytestr \<Rightarrow> nat \<Rightarrow> bytestr \<Rightarrow> bytestr" where
  "patched junk xs off ys = take off (xs @ map junk [length xs..<off]) @ ys @ drop (off + length ys) xs"

lemma patched_length: "length (patched junk xs off ys) = max (length xs) (off + length ys)"
  by (simp add: patched_def)

lemma patched_read: "take (length ys) (drop off (patched junk xs off ys)) = ys"
proof -
  have "length (take off (xs @ map junk [length xs..<off])) = off" by simp
  then show ?thesis unfolding patched_def by (metis append_eq_conv_conj append_take_drop_id take_append drop_append)
qed

lemma patched_nth:
  assumes "i < max (length xs) (off + length ys)"
  shows "patched junk xs off ys ! i = (if off \<le> i \<and> i < off + length ys then ys ! (i - off)
     else if i < length xs then xs ! i else junk i)"
proof -
  let ?p = "take off (xs @ map junk [length xs..<off])"
  have l: "length ?p = off" by simp
  have p: "patched junk xs off ys = ?p @ ys @ drop (off + length ys) xs" by (simp only: patched_def)
  consider "i < off" | "off \<le> i" "i < off + length ys" | "off + length ys \<le> i" "i < length xs" using assms by linarith
  then show ?thesis
  proof cases
    case 1
    have "patched junk xs off ys ! i = ?p ! i" by (simp only: p nth_append [of ?p] l 1 if_True)
    moreover have "?p ! i = (if i < length xs then xs ! i else junk i)"
    proof (cases "i < length xs")
      case False
      then have "i - length xs < off - length xs" using 1 by linarith
      with False 1 show ?thesis by (simp add: nth_append)
    qed (use 1 in \<open>simp add: nth_append\<close>)
    ultimately show ?thesis using 1 by simp
  next
    case 2
    then have "\<not> i < off" "i - off < length ys" by simp_all
    then have "patched junk xs off ys ! i = ys ! (i - off)"
      by (simp only: p nth_append [of ?p] nth_append [of ys] l if_False if_True)
    with 2 show ?thesis by simp
  next
    case 3
    then have "\<not> i < off" "\<not> i - off < length ys" by simp_all
    then have "patched junk xs off ys ! i = drop (off + length ys) xs ! (i - off - length ys)"
      by (simp only: p nth_append [of ?p] nth_append [of ys] l if_False)
    with 3 show ?thesis by simp
  qed
qed

lemma ramfs_write_some:
  assumes n: "nodes s a = Some n" "rtype n = VFS_FILE" "file_ok n" and "fresh s \<noteq> 0"
    and lim: "unat off + unat sz + 4096 < 4294967296" and buf: "unat sz \<le> length buf" and "sz \<noteq> 0"
  obtains t n' junk where "ramfs_write a off sz buf s = Some (sz, t)" "nodes t a = Some n'" "file_ok n'"
    "\<And>b. b \<noteq> a \<Longrightarrow> nodes t b = nodes s b"
    "n' = n\<lparr>rdata := rdata n', rsize := rsize n', capacity := capacity n', rvnode := (rvnode n)\<lparr>vsize := rsize n'\<rparr>\<rparr>"
    "unat (rsize n') = max (unat (rsize n)) (unat off + unat sz)"
    "content n' = patched junk (content n) (unat off) (take (unat sz) buf)"
    "next_inode t = next_inode s" "fs.more t = fs.more s"
proof -
  let ?needed = "off + sz"
  have un: "unat ?needed = unat off + unat sz" using lim by (simp add: unat_add_u32)
  have uc: "unat (?needed + RAMFS_BLOCK_SIZE) = unat off + unat sz + 4096"
    using un lim by (simp add: RAMFS_BLOCK_SIZE_def unat_add_u32)
  define grow where "grow = (capacity n < ?needed)"
  define s1 where "s1 = (if grow then s\<lparr>fresh := fresh s + 1\<rparr> else s)"
  define n1 where "n1 = (if grow then n\<lparr>rdata := realloc_data (stale s (fresh s)) (rdata n) (unat (?needed + RAMFS_BLOCK_SIZE)),
      capacity := ?needed + RAMFS_BLOCK_SIZE\<rparr> else n)"
  obtain d where d: "rdata n1 = Some d" "unat ?needed \<le> length d" "unat (capacity n1) \<le> length d" "?needed \<le> capacity n1"
    "take (unat (rsize n)) d = content n" "unat (rsize n) \<le> length d"
  proof (cases grow)
    case True
    show thesis
    proof (cases "rdata n")
      case None
      then have z: "rsize n = 0" by (rule file_ok_empty [OF n(3)])
      let ?d = "map (stale s (fresh s)) [0..<unat (?needed + RAMFS_BLOCK_SIZE)]"
      show thesis
        by (rule that [of ?d])
          (use True None z uc un in \<open>simp_all add: n1_def realloc_data_def content_def word_le_nat_alt\<close>)
    next
      case (Some xs)
      then have x: "unat (rsize n) \<le> length xs" "unat (capacity n) \<le> length xs"
        using n(3) by (auto simp: file_ok_def word_le_nat_alt)
      let ?d = "xs @ map (stale s (fresh s)) [length xs..<unat (?needed + RAMFS_BLOCK_SIZE)]"
      show thesis
        by (rule that [of ?d])
          (use True Some x uc un in \<open>simp_all add: n1_def realloc_data_def content_def word_le_nat_alt\<close>)
    qed
  next
    case False
    then have c: "?needed \<le> capacity n" by (simp add: grow_def not_less)
    have "?needed \<noteq> 0" using un \<open>sz \<noteq> 0\<close> by (metis add_is_0 unat_0 unat_eq_zero)
    then have "capacity n \<noteq> 0" using c by (auto simp: word_le_nat_alt unat_eq_zero)
    then obtain xs where xs: "rdata n = Some xs" using n(3) by (auto simp: file_ok_def split: option.splits)
    then have x: "unat (capacity n) \<le> length xs" "unat (rsize n) \<le> unat (capacity n)"
      using n(3) by (auto simp: file_ok_def word_le_nat_alt)
    show thesis
      by (rule that [of xs]) (use False c xs x in \<open>simp_all add: n1_def content_def word_le_nat_alt\<close>)
  qed
  define n2 where "n2 = n1\<lparr>rdata := Some (take (unat off) d @ take (unat sz) buf @ drop (unat off + unat sz) d)\<rparr>"
  define sz' where "sz' = (if rsize n < ?needed then ?needed else rsize n)"
  define n' where "n' = n2\<lparr>rsize := sz', rvnode := (rvnode n2)\<lparr>vsize := sz'\<rparr>\<rparr>"
  define t where "t = s1\<lparr>nodes := (nodes s1)(a \<mapsto> n')\<rparr>"
  have r1: "rsize n1 = rsize n" "rvnode n1 = rvnode n" "rtype n1 = rtype n" by (simp_all add: n1_def)
  have "(if capacity n < ?needed then do { let new_cap = ?needed + RAMFS_BLOCK_SIZE; (b, s) \<leftarrow> new_addr s;
          Some (n\<lparr>rdata := realloc_data (stale s b) (rdata n) (unat new_cap), capacity := new_cap\<rparr>, s) }
        else Some (n, s)) = Some (n1, s1)"
    using assms(4) by (simp add: new_addr_def n1_def s1_def grow_def Let_def)
  moreover have "(if sz = 0 then Some n1 else do { data \<leftarrow> rdata n1;
        if unat off + unat sz \<le> length data \<and> unat sz \<le> length buf
        then Some (n1\<lparr>rdata := Some (take (unat off) data @ take (unat sz) buf @ drop (unat off + unat sz) data)\<rparr>)
        else None }) = Some n2"
    using d(1,2) un buf \<open>sz \<noteq> 0\<close> by (simp add: n2_def)
  moreover have "(if rsize n2 < ?needed then n2\<lparr>rsize := ?needed\<rparr> else n2) = n2\<lparr>rsize := sz'\<rparr>"
    using r1 by (simp add: n2_def sz'_def)
  ultimately have w: "ramfs_write a off sz buf s = Some (sz, t)"
    using n(1,2) unfolding ramfs_write_def by (simp add: Let_def n'_def t_def)
  have us: "unat sz' = max (unat (rsize n)) (unat off + unat sz)"
    using un by (simp add: sz'_def word_less_nat_alt max_def)
  have cap: "sz' \<le> capacity n1"
    using d(4) n(3) by (auto simp: sz'_def n1_def file_ok_def grow_def)
  have dl: "length (take (unat off) d @ take (unat sz) buf @ drop (unat off + unat sz) d) = length d"
    using d(2) un buf by simp
  have ok: "file_ok n'" using cap d(3) dl by (simp add: file_ok_def n'_def n2_def)
  have "content n' = patched (\<lambda>i. d ! i) (content n) (unat off) (take (unat sz) buf)"
  proof (rule nth_equalityI)
    show len: "length (content n') = length (patched (\<lambda>i. d ! i) (content n) (unat off) (take (unat sz) buf))"
      using content_length [OF ok] content_length [OF n(3)] us buf by (simp add: patched_length n'_def)
    fix i assume i: "i < length (content n')"
    have li: "i < unat sz'" "unat sz' \<le> length d" using i content_length [OF ok] us d(2,6) un by (simp_all add: n'_def)
    have "content n' ! i = (take (unat off) d @ take (unat sz) buf @ drop (unat off + unat sz) d) ! i"
      using li by (simp add: content_def n'_def n2_def del: take_append)
    also have "\<dots> = (if unat off \<le> i \<and> i < unat off + unat sz then buf ! (i - unat off) else d ! i)"
      using li buf d(2) un by (auto simp: nth_append)
    also have "\<dots> = patched (\<lambda>i. d ! i) (content n) (unat off) (take (unat sz) buf) ! i"
    proof (subst patched_nth)
      show "i < max (length (content n)) (unat off + length (take (unat sz) buf))"
        using li us content_length [OF n(3)] buf by simp
      have "i < length (content n) \<Longrightarrow> content n ! i = d ! i" using d(5) by (metis nth_take length_take min_less_iff_conj)
      then show "(if unat off \<le> i \<and> i < unat off + unat sz then buf ! (i - unat off) else d ! i)
        = (if unat off \<le> i \<and> i < unat off + length (take (unat sz) buf) then take (unat sz) buf ! (i - unat off)
           else if i < length (content n) then content n ! i else d ! i)"
        using buf by auto
    qed
    finally show "content n' ! i = patched (\<lambda>i. d ! i) (content n) (unat off) (take (unat sz) buf) ! i" .
  qed
  note c = this
  show thesis
  proof (rule that [OF w _ ok _ _ _ c])
    show "nodes t a = Some n'" by (simp add: t_def)
    show "nodes t b = nodes s b" if "b \<noteq> a" for b using that by (simp add: t_def s1_def)
    show "n' = n\<lparr>rdata := rdata n', rsize := rsize n', capacity := capacity n', rvnode := (rvnode n)\<lparr>vsize := rsize n'\<rparr>\<rparr>"
      by (simp add: n'_def n2_def n1_def)
    show "unat (rsize n') = max (unat (rsize n)) (unat off + unat sz)" using us by (simp add: n'_def)
    show "next_inode t = next_inode s" "fs.more t = fs.more s" by (simp_all add: t_def s1_def)
  qed
qed

lemma ramfs_read_some:
  assumes "nodes s a = Some n" "rtype n = VFS_FILE" "file_ok n"
  shows "ramfs_read a off sz s = Some (of_nat (length (take (unat sz) (drop (unat off) (content n)))),
    take (unat sz) (drop (unat off) (content n)))"
proof (cases "rsize n \<le> off")
  case True
  then have "drop (unat off) (content n) = []" using content_length [OF assms(3)] by (simp add: word_le_nat_alt)
  with True assms show ?thesis by (simp add: ramfs_read_def)
next
  case False
  then have lt: "unat off < unat (rsize n)" by (simp add: word_le_nat_alt)
  let ?r = "if sz < rsize n - off then sz else rsize n - off"
  have "unat (rsize n - off) = unat (rsize n) - unat off" using lt by (simp add: unat_sub word_le_nat_alt)
  then have ur: "unat ?r = min (unat sz) (unat (rsize n) - unat off)" by (simp add: word_less_nat_alt min_def)
  have "rsize n \<noteq> 0" using lt by auto
  then obtain d where d: "rdata n = Some d" "unat (rsize n) \<le> length d"
    using assms(3) file_ok_empty [OF assms(3)] by (cases "rdata n") (auto simp: file_ok_def word_le_nat_alt)
  have c: "take (unat sz) (drop (unat off) (content n)) = take (unat ?r) (drop (unat off) d)"
    unfolding ur using d by (simp add: content_def drop_take min.commute)
  have l: "length (take (unat ?r) (drop (unat off) d)) = unat ?r" using d(2) lt ur by simp
  show ?thesis
  proof (cases "?r = 0")
    case True
    then have e: "take (unat sz) (drop (unat off) (content n)) = []" unfolding c by simp
    show ?thesis unfolding e using True False assms by (simp add: ramfs_read_def Let_def)
  next
    case nz: False
    have "unat off + unat ?r \<le> length d" using ur d(2) lt by linarith
    then have "ramfs_read a off sz s = Some (?r, take (unat ?r) (drop (unat off) d))"
      using nz False assms(1,2) d(1) unfolding ramfs_read_def Let_def by simp
    then show ?thesis unfolding c l by simp
  qed
qed

section \<open>The interface of a directory\<close>

text \<open>A directory is a map from names to nodes: looking up, making and removing an entry.\<close>

locale directory =
  fixes ok :: "'s \<Rightarrow> bool" and room :: "'s \<Rightarrow> bool" and valid :: "'n \<Rightarrow> bool" and dmap :: "'s \<Rightarrow> 'n \<Rightarrow> 'v option"
    and look :: "'n \<Rightarrow> 's \<Rightarrow> 'v option option" and make :: "'n \<Rightarrow> 's \<Rightarrow> 's option" and del :: "'n \<Rightarrow> 's \<Rightarrow> 's option"
  assumes look_dmap: "ok s \<Longrightarrow> valid n \<Longrightarrow> look n s = Some (dmap s n)"
    and make_dmap: "ok s \<Longrightarrow> valid n \<Longrightarrow> room s \<Longrightarrow> dmap s n = None \<Longrightarrow>
      \<exists>t v. make n s = Some t \<and> ok t \<and> dmap t = (dmap s)(n \<mapsto> v)"
    and del_dmap: "ok s \<Longrightarrow> valid n \<Longrightarrow> dmap s n \<noteq> None \<Longrightarrow>
      \<exists>t. del n s = Some t \<and> ok t \<and> dmap t = (dmap s)(n := None)"
begin

lemma make_found:
  assumes "ok s" and "valid n" and "room s" and "dmap s n = None"
  shows "\<exists>t. make n s = Some t \<and> ok t \<and> (\<exists>v. look n t = Some (Some v)) \<and> (\<forall>m. valid m \<longrightarrow> m \<noteq> n \<longrightarrow> look m t = look m s)"
proof -
  obtain t v where t: "make n s = Some t" "ok t" "dmap t = (dmap s)(n \<mapsto> v)" using make_dmap [OF assms] by blast
  then show ?thesis using assms by (auto simp: look_dmap)
qed

lemma make_del:
  assumes "ok s" and "valid n" and "room s" and "dmap s n = None"
  shows "\<exists>t u. make n s = Some t \<and> del n t = Some u \<and> ok u \<and> (\<forall>m. valid m \<longrightarrow> look m u = look m s)"
proof -
  obtain t v where t: "make n s = Some t" "ok t" "dmap t = (dmap s)(n \<mapsto> v)" using make_dmap [OF assms] by blast
  then obtain u where u: "del n t = Some u" "ok u" "dmap u = (dmap t)(n := None)"
    using del_dmap [OF t(2) assms(2)] by auto
  have "dmap u = dmap s" using u(3) t(3) assms(4) by (auto simp: fun_eq_iff)
  with t u assms(1) show ?thesis by (auto simp: look_dmap)
qed

end

section \<open>A directory of the ramfs\<close>

definition cname :: "'a fs_scheme \<Rightarrow> u32 \<Rightarrow> bytestr" where
  "cname s c = takeWhile (\<lambda>x. x \<noteq> 0) (rname (the (nodes s c)))"

text \<open>A child that can be looked at: a live node with a terminated name.\<close>

definition child_ok :: "'a fs_scheme \<Rightarrow> u32 \<Rightarrow> bool" where
  "child_ok s c \<longleftrightarrow> (case nodes s c of None \<Rightarrow> False | Some n \<Rightarrow> 0 \<in> set (rname n))"

definition kids :: "'a fs_scheme \<Rightarrow> u32 \<Rightarrow> u32 list" where
  "kids s a = (case nodes s a of None \<Rightarrow> [] | Some n \<Rightarrow> children n)"

definition dir_map :: "u32 \<Rightarrow> 'a fs_scheme \<Rightarrow> bytestr \<Rightarrow> u32 option" where
  "dir_map a s = map_of (map (\<lambda>c. (cname s c, c)) (kids s a))"

text \<open>A directory with its entries live and of different names; the next new address is not in use.\<close>

definition ramdir_ok :: "u32 \<Rightarrow> 'a fs_scheme \<Rightarrow> bool" where
  "ramdir_ok a s \<longleftrightarrow> (\<exists>n. nodes s a = Some n \<and> rtype n = VFS_DIR) \<and> length (kids s a) \<le> 64
     \<and> (\<forall>c\<in>set (kids s a). child_ok s c \<and> c \<noteq> a) \<and> distinct (map (cname s) (kids s a))"

definition can_create :: "u32 \<Rightarrow> 'a fs_scheme \<Rightarrow> bool" where
  "can_create a s \<longleftrightarrow> length (kids s a) < 64 \<and> fresh s \<noteq> 0 \<and> nodes s (fresh s) = None"

definition name_ok :: "bytestr \<Rightarrow> bool" where
  "name_ok nm \<longleftrightarrow> 0 \<notin> set nm \<and> length nm < 128"

lemma c_string_takeWhile: "0 \<in> set xs \<Longrightarrow> c_string (takeWhile (\<lambda>x. x \<noteq> 0) xs) xs"
  by (induction xs) auto

lemma takeWhile_c_string: "c_string xs s \<Longrightarrow> takeWhile (\<lambda>x. x \<noteq> 0) s = xs"
  by (induction xs arbitrary: s) auto

lemma find_child_map:
  assumes "\<forall>c\<in>set cs. child_ok s c" and "c_string nm name"
  shows "case map_of (map (\<lambda>c. (cname s c, c)) cs) nm of
      None \<Rightarrow> find_child s name i cs = Some None \<and> nm \<notin> cname s ` set cs
    | Some c \<Rightarrow> \<exists>k<length cs. find_child s name i cs = Some (Some (i + k)) \<and> cs ! k = c \<and> cname s c = nm
        \<and> (\<forall>j<k. cname s (cs ! j) \<noteq> nm)"
  using assms(1)
proof (induction cs arbitrary: i)
  case (Cons c cs)
  obtain n where n: "nodes s c = Some n" "0 \<in> set (rname n)" using Cons.prems by (auto simp: child_ok_def split: option.splits)
  have "c_string (cname s c) (rname n)" using c_string_takeWhile [OF n(2)] n(1) by (simp add: cname_def)
  from strcmp_c [OF this assms(2)] obtain d where d: "strcmp (rname n) name = Some d" "d = 0 \<longleftrightarrow> cname s c = nm" by blast
  have IH: "case map_of (map (\<lambda>c. (cname s c, c)) cs) nm of
      None \<Rightarrow> find_child s name (Suc i) cs = Some None \<and> nm \<notin> cname s ` set cs
    | Some c \<Rightarrow> \<exists>k<length cs. find_child s name (Suc i) cs = Some (Some (Suc i + k)) \<and> cs ! k = c \<and> cname s c = nm
        \<and> (\<forall>j<k. cname s (cs ! j) \<noteq> nm)"
    using Cons.IH [of "Suc i"] Cons.prems by simp
  show ?case
  proof (cases "cname s c = nm")
    case True
    with n(1) d show ?thesis by (auto intro!: exI [of _ 0])
  next
    case False
    show ?thesis
    proof (cases "map_of (map (\<lambda>c. (cname s c, c)) cs) nm")
      case None
      with IH False n(1) d show ?thesis by auto
    next
      case (Some e)
      with IH obtain k where k: "k < length cs" "find_child s name (Suc i) cs = Some (Some (Suc i + k))" "cs ! k = e"
        "cname s e = nm" "\<forall>j<k. cname s (cs ! j) \<noteq> nm" by auto
      have "\<forall>j<Suc k. cname s ((c # cs) ! j) \<noteq> nm" using k(5) False by (auto simp: nth_Cons split: nat.split)
      with k False n(1) d Some show ?thesis by (auto intro!: exI [of _ "Suc k"])
    qed
  qed
qed simp

lemma ramdir_okD:
  assumes "ramdir_ok a s"
  obtains n where "nodes s a = Some n" "rtype n = VFS_DIR" "children n = kids s a" "length (kids s a) \<le> 64"
    "\<forall>c\<in>set (kids s a). child_ok s c" "a \<notin> set (kids s a)" "distinct (map (cname s) (kids s a))"
proof -
  from assms obtain n where n: "nodes s a = Some n" "rtype n = VFS_DIR" unfolding ramdir_ok_def by blast
  then have "children n = kids s a" by (simp add: kids_def)
  with n show thesis using assms by (intro that [of n]) (auto simp: ramdir_ok_def)
qed

lemma finddir_map:
  assumes "ramdir_ok a s" and "c_string nm name"
  shows "ramfs_finddir a name s = Some (map_option Ram (dir_map a s nm))"
proof -
  obtain n where n: "nodes s a = Some n" "rtype n = VFS_DIR" "children n = kids s a" "\<forall>c\<in>set (kids s a). child_ok s c"
    by (rule ramdir_okD [OF assms(1)])
  show ?thesis
    using find_child_map [OF n(4) assms(2), of 0] n(1-3)
    by (auto simp: ramfs_finddir_def dir_map_def split: option.splits)
qed

lemma new_node_some:
  assumes "c_string nm name" and "length nm < 128" and "fresh s \<noteq> 0"
  obtains n t where "new_ramfs_node name type s = Some (fresh s, t)" "t = s\<lparr>nodes := (nodes s)(fresh s \<mapsto> n),
      next_inode := next_inode s + 1, fresh := fresh s + 1\<rparr>" "rtype n = type" "children n = []" "rdata n = None" "rsize n = 0"
    "capacity n = 0" "takeWhile (\<lambda>x. x \<noteq> 0) (rname n) = nm" "0 \<in> set (rname n)" "vtype (rvnode n) = type"
    "vsize (rvnode n) = 0" "mount_point (rvnode n) = None" "ref_count (rvnode n) = 0"
proof -
  have "strcpy name_array name = Some (nm @ 0 # drop (Suc (length nm)) name_array)"
    using assms(1,2) by (intro strcpy_c) (simp_all add: name_array_def VFS_NAME_LEN_def)
  note cp = this
  have tw: "takeWhile (\<lambda>x. x \<noteq> 0) (nm @ 0 # r) = nm" for r
    by (rule takeWhile_c_string) (use assms(1) in \<open>auto simp: c_string_def\<close>)
  define n where "n = \<lparr>rname = nm @ 0 # drop (Suc (length nm)) name_array, rtype = type, rdata = None, rsize = 0, capacity = 0,
      rinode = next_inode s, children = [],
      rvnode = \<lparr>vname = nm @ 0 # drop (Suc (length nm)) name_array, vtype = type, vsize = 0, vinode = next_inode s,
        permissions = (if type = VFS_DIR then 0x4000 OR 0x0100 OR 0x0080 OR 0x0040 else 0x8000 OR 0x0100 OR 0x0080),
        mount_point = None, ref_count = 0\<rparr>\<rparr>"
  have r: "new_ramfs_node name type s = Some (fresh s, s\<lparr>nodes := (nodes s)(fresh s \<mapsto> n),
      next_inode := next_inode s + 1, fresh := fresh s + 1\<rparr>)"
    using assms(3) cp by (simp add: new_ramfs_node_def new_addr_def Let_def n_def)
  show thesis by (rule that [OF r refl]) (simp_all add: n_def tw)
qed

lemma ramfs_create_some:
  assumes ok: "ramdir_ok a s" and "can_create a s" and "c_string nm name" and "length nm < 128"
  obtains t n where "ramfs_create a name type s = Some (0, t)" "kids t a = kids s a @ [fresh s]"
    "nodes t (fresh s) = Some n" "rtype n = type" "children n = []" "rdata n = None" "rsize n = 0" "capacity n = 0"
    "vtype (rvnode n) = type" "vsize (rvnode n) = 0" "mount_point (rvnode n) = None" "ref_count (rvnode n) = 0"
    "cname t (fresh s) = nm" "child_ok t (fresh s)"
    "\<And>b. b \<noteq> a \<Longrightarrow> b \<noteq> fresh s \<Longrightarrow> nodes t b = nodes s b" "fresh t = fresh s + 1" "fs.more t = fs.more s"
    "nodes t a = map_option (\<lambda>n. n\<lparr>children := kids s a @ [fresh s]\<rparr>) (nodes s a)" "fresh s \<noteq> a"
proof -
  obtain p where p: "nodes s a = Some p" "rtype p = VFS_DIR" "children p = kids s a" "length (kids s a) \<le> 64"
    by (rule ramdir_okD [OF ok])
  have f: "fresh s \<noteq> 0" "fresh s \<noteq> a" "length (children p) < 64" using assms(2) p(1,3) by (auto simp: can_create_def)
  obtain n u where u: "new_ramfs_node name type s = Some (fresh s, u)"
    "u = s\<lparr>nodes := (nodes s)(fresh s \<mapsto> n), next_inode := next_inode s + 1, fresh := fresh s + 1\<rparr>"
    and n: "rtype n = type" "children n = []" "rdata n = None" "rsize n = 0" "capacity n = 0"
      "takeWhile (\<lambda>x. x \<noteq> 0) (rname n) = nm" "0 \<in> set (rname n)" "vtype (rvnode n) = type" "vsize (rvnode n) = 0"
      "mount_point (rvnode n) = None" "ref_count (rvnode n) = 0"
    by (rule new_node_some [OF assms(3,4) f(1)])
  define t where "t = upd_node a (\<lambda>n. n\<lparr>children := children n @ [fresh s]\<rparr>) u"
  have "ramfs_create a name type s = Some (0, t)"
    using p f u(1) by (simp add: ramfs_create_def RAMFS_MAX_CHILDREN_def t_def)
  then show thesis
    by (rule that [of t n]) (use p f n in \<open>simp_all add: t_def u(2) upd_node_def kids_def cname_def child_ok_def\<close>)
qed

text \<open>The entries of a directory after a change that leaves the children it keeps as they are.\<close>

lemma cname_cong: "nodes t c = nodes s c \<Longrightarrow> cname t c = cname s c \<and> child_ok t c = child_ok s c"
  by (simp add: cname_def child_ok_def)

lemma create_dir_map:
  assumes ok: "ramdir_ok a s" and "can_create a s" and "c_string nm name" and "length nm < 128" and "dir_map a s nm = None"
    and t: "ramfs_create a name type s = Some (r, t)"
  shows "r = 0" "ramdir_ok a t" "dir_map a t = (dir_map a s)(nm \<mapsto> fresh s)"
proof -
  obtain n where n: "nodes s a = Some n" "rtype n = VFS_DIR" "children n = kids s a" "length (kids s a) \<le> 64"
    "\<forall>c\<in>set (kids s a). child_ok s c" "a \<notin> set (kids s a)" "distinct (map (cname s) (kids s a))"
    by (rule ramdir_okD [OF ok])
  obtain u m where u: "ramfs_create a name type s = Some (0, u)" "kids u a = kids s a @ [fresh s]"
    "cname u (fresh s) = nm" "child_ok u (fresh s)"
    "\<And>b. b \<noteq> a \<Longrightarrow> b \<noteq> fresh s \<Longrightarrow> nodes u b = nodes s b"
    "nodes u a = map_option (\<lambda>n. n\<lparr>children := kids s a @ [fresh s]\<rparr>) (nodes s a)" "fresh s \<noteq> a"
    by (rule ramfs_create_some [OF assms(1-4), of type]) blast
  show "r = 0" using t u(1) by simp
  have t': "t = u" using t u(1) by simp
  have kid: "c \<noteq> a \<and> c \<noteq> fresh s" if "c \<in> set (kids s a)" for c
    using that n(5,6) assms(2) by (auto simp: child_ok_def can_create_def)
  have keep: "cname t c = cname s c" "child_ok t c = child_ok s c" if "c \<in> set (kids s a)" for c
    using cname_cong [of t c s] u(5) [of c] kid [OF that] t' by auto
  have m1: "map (cname t) (kids s a) = map (cname s) (kids s a)" "map (\<lambda>c. (cname t c, c)) (kids s a) = map (\<lambda>c. (cname s c, c)) (kids s a)"
    using keep by simp_all
  have new: "nm \<notin> cname s ` set (kids s a)"
    using find_child_map [OF n(5) assms(3), of 0] assms(5) by (simp add: dir_map_def)
  have ku: "kids t a = kids s a @ [fresh s]" "cname t (fresh s) = nm" using u(2,3) t' by simp_all
  have "map (cname t) (kids t a) = map (cname s) (kids s a) @ [nm]" unfolding ku(1) map_append m1(1) by (simp add: ku(2))
  then have "distinct (map (cname t) (kids t a))" using new n(7) by simp
  then show "ramdir_ok a t"
    using u n assms(2) kid keep t' by (auto simp: ramdir_ok_def can_create_def)
  have "dir_map a t = [nm \<mapsto> fresh s] ++ dir_map a s"
    by (simp only: dir_map_def ku(1) map_append m1(2) map_of_append) (simp add: ku(2))
  then show "dir_map a t = (dir_map a s)(nm \<mapsto> fresh s)"
    using assms(5) by (auto simp: map_add_def fun_eq_iff split: option.split)
qed

text \<open>Removing an entry: the last one moves into its place, so the entries are the others.\<close>

lemma swap_remove:
  assumes "i < length xs"
  shows "add_mset (xs ! i) (mset (take (length xs - 1) (xs[i := xs ! (length xs - 1)]))) = mset xs"
proof (cases xs rule: rev_cases)
  case Nil
  with assms show ?thesis by simp
next
  case (snoc ys y)
  show ?thesis
  proof (cases "i < length ys")
    case True
    then have "ys ! i \<in># mset ys" by simp
    with True snoc show ?thesis by (simp add: nth_append list_update_append mset_update)
  next
    case False
    with assms snoc show ?thesis by (simp add: nth_append list_update_append)
  qed
qed

lemma dir_map_iff:
  assumes "distinct (map (cname s) (kids s a))"
  shows "dir_map a s nm = Some c \<longleftrightarrow> c \<in> set (kids s a) \<and> cname s c = nm"
proof -
  have "distinct (map fst (map (\<lambda>c. (cname s c, c)) (kids s a)))" using assms by (simp add: comp_def)
  from map_of_eq_Some_iff [OF this] show ?thesis by (auto simp: dir_map_def)
qed

lemma unlink_dir_map:
  assumes ok: "ramdir_ok a s" and nm: "c_string nm name" and c: "dir_map a s nm = Some c"
  obtains t where "ramfs_unlink a name s = Some (0, t)" "ramdir_ok a t" "dir_map a t = (dir_map a s)(nm := None)"
    "nodes t c = None" "\<And>b. b \<noteq> a \<Longrightarrow> b \<noteq> c \<Longrightarrow> nodes t b = nodes s b" "fresh t = fresh s" "fs.more t = fs.more s"
proof -
  obtain n where n: "nodes s a = Some n" "rtype n = VFS_DIR" "children n = kids s a" "length (kids s a) \<le> 64"
    "\<forall>c\<in>set (kids s a). child_ok s c" "a \<notin> set (kids s a)" "distinct (map (cname s) (kids s a))"
    by (rule ramdir_okD [OF ok])
  obtain k where k: "k < length (kids s a)" "find_child s name 0 (kids s a) = Some (Some k)" "kids s a ! k = c" "cname s c = nm"
    using find_child_map [OF n(5) nm, of 0] c by (auto simp: dir_map_def)
  have ca: "c \<noteq> a" using k(1,3) n(6) nth_mem by metis
  let ?cs = "kids s a" let ?l = "length (kids s a) - 1"
  define es where "es = take ?l (?cs[k := ?cs ! ?l])"
  define t where "t = s\<lparr>nodes := (nodes s)(c := None, a \<mapsto> n\<lparr>children := es\<rparr>)\<rparr>"
  have w: "ramfs_unlink a name s = Some (0, t)"
    using n(1,3) k(2,3) ca by (simp add: ramfs_unlink_def Let_def upd_node_def t_def es_def)
  have kt: "kids t a = es" by (simp add: kids_def t_def)
  have ms: "add_mset c (mset es) = mset ?cs" using swap_remove [OF k(1)] unfolding k(3) es_def .
  have mc: "mset (c # es) = mset ?cs" unfolding mset.simps by (rule ms)
  have "distinct ?cs" using n(7) unfolding distinct_map by blast
  then have "distinct (c # es)" using mset_eq_imp_distinct_iff [OF mc] by blast
  moreover have "set (c # es) = set ?cs" by (rule mset_eq_setD [OF mc])
  ultimately have new: "c \<notin> set es" "distinct es" "set es = set ?cs - {c}" by auto
  have "length es \<le> 64" using n(4) by (simp add: es_def)
  note new = new this
  have keep: "cname t e = cname s e" "child_ok t e = child_ok s e" if "e \<in> set es" for e
    proof -
    have "e \<noteq> a" "e \<noteq> c" using that new(1,3) n(6) by auto
    then have "nodes t e = nodes s e" by (simp add: t_def)
    from cname_cong [OF this] show "cname t e = cname s e" "child_ok t e = child_ok s e" by simp_all
  qed
  have "distinct (map (cname t) es)"
    using new(2,3) n(7) keep by (auto simp: distinct_map inj_on_def)
  note dt = this
  have ok_t: "ramdir_ok a t"
    using dt n(2,5,6) new keep unfolding ramdir_ok_def kt by (auto simp: t_def)
  have "dir_map a t x = ((dir_map a s)(nm := None)) x" for x
  proof (cases "dir_map a t x")
    case None
    then have "\<forall>e\<in>set es. cname t e \<noteq> x" using dir_map_iff [of t a x] dt kt by auto
    then have "\<forall>e\<in>set ?cs. e \<noteq> c \<longrightarrow> cname s e \<noteq> x" using keep new(3) by auto
    then have "x \<noteq> nm \<Longrightarrow> dir_map a s x = None" using dir_map_iff [OF n(7)] k(4) by (metis not_Some_eq)
    with None show ?thesis by simp
  next
    case (Some e)
    then have e: "e \<in> set es" "cname t e = x" using dir_map_iff [of t a x e] dt kt by auto
    then have es: "e \<in> set ?cs" "e \<noteq> c" "cname s e = x" using keep new(3) by auto
    have "x \<noteq> nm"
    proof
      assume "x = nm"
      then have "dir_map a s nm = Some e" using es dir_map_iff [OF n(7)] by simp
      with c es(2) show False by simp
    qed
    with Some es dir_map_iff [OF n(7), of x e] show ?thesis by simp
  qed
  then have "dir_map a t = (dir_map a s)(nm := None)" by (rule ext)
  then show thesis by (rule that [OF w ok_t]) (use ca in \<open>simp_all add: t_def\<close>)
qed

section \<open>The ramfs is such a directory\<close>

lemma c_string_terminated: "0 \<notin> set nm \<Longrightarrow> c_string nm (nm @ [0])"
  by (auto simp: c_string_def)

interpretation rdir: directory "ramdir_ok a" "can_create a" name_ok "dir_map a"
  "\<lambda>nm s. map_option (map_option (\<lambda>v. case v of Ram c \<Rightarrow> c | Tty \<Rightarrow> 0)) (ramfs_finddir a (nm @ [0]) s)"
  "\<lambda>nm s. map_option snd (ramfs_create a (nm @ [0]) VFS_FILE s)"
  "\<lambda>nm s. map_option snd (ramfs_unlink a (nm @ [0]) s)" for a :: u32
proof unfold_locales
  fix s :: "'a fs_scheme" and nm assume s: "ramdir_ok a s" "name_ok nm"
  then have c: "c_string nm (nm @ [0])" "length nm < 128" by (auto simp: name_ok_def intro: c_string_terminated)
  show "map_option (map_option (\<lambda>v. case v of Ram c \<Rightarrow> c | Tty \<Rightarrow> 0)) (ramfs_finddir a (nm @ [0]) s) = Some (dir_map a s nm)"
    using finddir_map [OF s(1) c(1)] by (cases "dir_map a s nm") simp_all
  show "\<exists>t v. map_option snd (ramfs_create a (nm @ [0]) VFS_FILE s) = Some t \<and> ramdir_ok a t \<and> dir_map a t = (dir_map a s)(nm \<mapsto> v)"
    if "can_create a s" and none: "dir_map a s nm = None"
  proof -
    obtain t where t: "ramfs_create a (nm @ [0]) VFS_FILE s = Some (0, t)"
      by (rule ramfs_create_some [OF s(1) \<open>can_create a s\<close> c, of VFS_FILE]) blast
    from create_dir_map [OF s(1) \<open>can_create a s\<close> c none t] t show ?thesis by auto
  qed
  show "\<exists>t. map_option snd (ramfs_unlink a (nm @ [0]) s) = Some t \<and> ramdir_ok a t \<and> dir_map a t = (dir_map a s)(nm := None)"
    if "dir_map a s nm \<noteq> None"
  proof -
    from that obtain e where "dir_map a s nm = Some e" by blast
    from unlink_dir_map [OF s(1) c(1) this]
    obtain t where "ramfs_unlink a (nm @ [0]) s = Some (0, t)" "ramdir_ok a t" "dir_map a t = (dir_map a s)(nm := None)" .
    then show ?thesis by simp
  qed
qed


section \<open>Properties\<close>

text \<open>
  C16. What is written to a file of the ramfs is what is read from it: after a write that starts within
  the file, a read of any range gives the bytes of the old content with the written ones in their place
  (the file grown when the write passes its end), its return value is the number of bytes, and no other
  node is changed.
\<close>

theorem ramfs_read_after_write:
  assumes n: "nodes s a = Some n" "rtype n = VFS_FILE" "file_ok n" and "fresh s \<noteq> 0"
    and lim: "unat off + unat sz + 4096 < 4294967296" and buf: "unat sz \<le> length buf" and "sz \<noteq> 0"
    and off: "unat off \<le> length (content n)"
  shows "\<exists>t. ramfs_write a off sz buf s = Some (sz, t) \<and> (\<forall>b. b \<noteq> a \<longrightarrow> nodes t b = nodes s b)
    \<and> (\<forall>p k. ramfs_read a p k t =
         (let new = take (unat off) (content n) @ take (unat sz) buf @ drop (unat off + unat sz) (content n);
              bs = take (unat k) (drop (unat p) new)
          in Some (of_nat (length bs), bs)))"
proof -
  obtain t n' junk where t: "ramfs_write a off sz buf s = Some (sz, t)" "nodes t a = Some n'" "file_ok n'"
    "\<And>b. b \<noteq> a \<Longrightarrow> nodes t b = nodes s b"
    "n' = n\<lparr>rdata := rdata n', rsize := rsize n', capacity := capacity n', rvnode := (rvnode n)\<lparr>vsize := rsize n'\<rparr>\<rparr>"
    "content n' = patched junk (content n) (unat off) (take (unat sz) buf)"
    by (rule ramfs_write_some [OF n assms(4) lim buf \<open>sz \<noteq> 0\<close>]) blast
  have "rtype n' = VFS_FILE" by (subst t(5)) (simp add: n(2))
  moreover have "content n' = take (unat off) (content n) @ take (unat sz) buf @ drop (unat off + unat sz) (content n)"
    unfolding t(6) patched_def using off buf by (simp add: min_absorb2)
  ultimately have "ramfs_read a p k t = (let new = take (unat off) (content n) @ take (unat sz) buf
        @ drop (unat off + unat sz) (content n); bs = take (unat k) (drop (unat p) new) in Some (of_nat (length bs), bs))" for p k
    unfolding Let_def using ramfs_read_some [OF t(2) _ t(3), of p k] by simp
  with t(1,4) show ?thesis by blast
qed

text \<open>
  C17. A directory of the ramfs is a map from names to nodes. When there is room, creating a name it does
  not have returns 0 and gives a directory in which \<^verbatim>\<open>ramfs_finddir\<close> finds a node under that name
  and under every other name what it found before; removing the name again returns 0 and gives back a
  directory in which every name finds what it found at first.
\<close>

theorem ramfs_create_unlink:
  assumes "ramdir_ok a s" and "can_create a s" and "name_ok nm" and "ramfs_finddir a (nm @ [0]) s = Some None"
  shows "\<exists>t u. ramfs_create a (nm @ [0]) VFS_FILE s = Some (0, t) \<and> ramfs_unlink a (nm @ [0]) t = Some (0, u)
    \<and> ramdir_ok a t \<and> ramdir_ok a u \<and> (\<exists>c. ramfs_finddir a (nm @ [0]) t = Some (Some (Ram c)))
    \<and> (\<forall>m. name_ok m \<longrightarrow> (m \<noteq> nm \<longrightarrow> ramfs_finddir a (m @ [0]) t = ramfs_finddir a (m @ [0]) s)
         \<and> ramfs_finddir a (m @ [0]) u = ramfs_finddir a (m @ [0]) s)"
proof -
  have fd: "ramfs_finddir a (m @ [0]) s = Some (map_option Ram (dir_map a s m))" if "ramdir_ok a s" "name_ok m" for m and s :: "'a fs_scheme"
    using finddir_map [OF that(1) c_string_terminated] that(2) by (simp add: name_ok_def)
  have c: "c_string nm (nm @ [0])" "length nm < 128" using assms(3) by (auto simp: name_ok_def intro: c_string_terminated)
  have none: "dir_map a s nm = None" using fd [OF assms(1,3)] assms(4) by simp
  obtain t where t: "ramfs_create a (nm @ [0]) VFS_FILE s = Some (0, t)"
    by (rule ramfs_create_some [OF assms(1,2) c, of VFS_FILE]) blast
  note m = rdir.make_found [OF assms(1,3,2) none]
  from m t have t': "ramdir_ok a t" by auto
  note e = create_dir_map [OF assms(1,2) c none t]
  obtain u where u: "ramfs_unlink a (nm @ [0]) t = Some (0, u)" "ramdir_ok a u" "dir_map a u = (dir_map a t)(nm := None)"
    by (rule unlink_dir_map [OF t' c(1), of "fresh s"]) (use e(3) in simp_all)
  have "dir_map a u = dir_map a s" using u(3) e(3) none by (simp add: fun_eq_iff)
  then show ?thesis
    using t u(1,2) t' fd assms(1,3) e(3) by (intro exI [of _ t] exI [of _ u]) auto
qed

text \<open>
  \<^verbatim>\<open>ramfs_create\<close> does not look for the name: creating one the directory has succeeds, takes an entry
  and an inode, and the new node is never found under it.
\<close>

theorem ramfs_create_existing_name:
  assumes "ramdir_ok a s" and "can_create a s" and "name_ok nm" and "ramfs_finddir a (nm @ [0]) s = Some (Some v)"
  shows "\<exists>t. ramfs_create a (nm @ [0]) type s = Some (0, t) \<and> kids t a = kids s a @ [fresh s]
    \<and> ramfs_finddir a (nm @ [0]) t = Some (Some v) \<and> v \<noteq> Ram (fresh s)"
proof -
  have c: "c_string nm (nm @ [0])" "length nm < 128" using assms(3) by (auto simp: name_ok_def intro: c_string_terminated)
  obtain n where n: "nodes s a = Some n" "rtype n = VFS_DIR" "children n = kids s a"
    "\<forall>c\<in>set (kids s a). child_ok s c" "a \<notin> set (kids s a)" by (rule ramdir_okD [OF assms(1)])
  obtain e where e: "dir_map a s nm = Some e" "v = Ram e"
    using finddir_map [OF assms(1) c(1)] assms(4) by (cases "dir_map a s nm") auto
  obtain t where t: "ramfs_create a (nm @ [0]) type s = Some (0, t)" "kids t a = kids s a @ [fresh s]"
    "child_ok t (fresh s)" "\<And>b. b \<noteq> a \<Longrightarrow> b \<noteq> fresh s \<Longrightarrow> nodes t b = nodes s b"
    "nodes t a = map_option (\<lambda>n. n\<lparr>children := kids s a @ [fresh s]\<rparr>) (nodes s a)"
    by (rule ramfs_create_some [OF assms(1,2) c, of type]) blast
  have kid: "x \<noteq> a \<and> x \<noteq> fresh s" if "x \<in> set (kids s a)" for x
    using that n(4,5) assms(2) by (auto simp: child_ok_def can_create_def)
  have keep: "cname t x = cname s x" "child_ok t x = child_ok s x" if "x \<in> set (kids s a)" for x
    using cname_cong [of t x s] t(4) [of x] kid [OF that] by auto
  have m1: "map (\<lambda>c. (cname t c, c)) (kids s a) = map (\<lambda>c. (cname s c, c)) (kids s a)" using keep(1) by simp
  have mo: "map_of (map (\<lambda>c. (cname t c, c)) (kids t a)) nm = Some e"
    using e(1) by (simp only: t(2) map_append map_of_append m1 dir_map_def) (simp add: map_add_def)
  have "\<forall>x\<in>set (kids t a). child_ok t x" using t(2,3) keep n(4) by auto
  from find_child_map [OF this c(1), of 0] mo
  have "\<exists>k. find_child t (nm @ [0]) 0 (kids t a) = Some (Some k) \<and> kids t a ! k = e" by auto
  moreover have "\<exists>m. nodes t a = Some m \<and> rtype m = VFS_DIR \<and> children m = kids t a"
    using t(2,5) n(1,2) by simp
  ultimately have "ramfs_finddir a (nm @ [0]) t = Some (Some v)" using e(2) by (auto simp: ramfs_finddir_def)
  moreover have "e \<in> set (kids s a)" using map_of_SomeD [of _ nm e] e(1) by (fastforce simp: dir_map_def)
  ultimately show ?thesis using t(1,2) kid e(2) by auto
qed


text \<open>Files and directories that satisfy the hypotheses.\<close>

definition empty_fs :: fs where
  "empty_fs = \<lparr>nodes = Map.empty, next_inode = 1, fresh = 1, stale = (\<lambda>a i. 0)\<rparr>"

text \<open>The root at 1, an empty file \<^verbatim>\<open>f\<close> at 2.\<close>

definition some_fs :: fs where
  "some_fs = (case do { (_, s) \<leftarrow> ramfs_create_root empty_fs; (_, s) \<leftarrow> ramfs_create 1 [102, 0] VFS_FILE s; Some s } of
     Some s \<Rightarrow> s | None \<Rightarrow> empty_fs)"

lemma some_fs_simps:
  "nodes some_fs 1 \<noteq> None" "rtype (the (nodes some_fs 1)) = VFS_DIR" "kids some_fs 1 = [2]"
  "nodes some_fs 2 \<noteq> None" "rtype (the (nodes some_fs 2)) = VFS_FILE" "file_ok (the (nodes some_fs 2))"
  "content (the (nodes some_fs 2)) = []" "cname some_fs 2 = [102]" "0 \<in> set (rname (the (nodes some_fs 2)))"
  "fresh some_fs = 3" "nodes some_fs 3 = None"
  by code_simp+

lemma some_fs_dir: "ramdir_ok 1 some_fs" "can_create 1 some_fs"
  using some_fs_simps by (auto simp: ramdir_ok_def can_create_def child_ok_def split: option.split)

lemma some_fs_find: "ramfs_finddir 1 ([103] @ [0]) some_fs = Some None" "ramfs_finddir 1 ([102] @ [0]) some_fs = Some (Some (Ram 2))"
  by code_simp+

theorem ramfs_read_after_write_witness:
  "\<exists>t. ramfs_write 2 0 2 [104, 105] some_fs = Some (2, t) \<and> ramfs_read 2 1 5 t = Some (1, [105])"
proof -
  obtain n where n: "nodes some_fs 2 = Some n" using some_fs_simps(4) by blast
  show ?thesis
    using ramfs_read_after_write [OF n, of 0 2 "[104, 105]"] some_fs_simps n by (auto simp: Let_def)
qed

theorem ramfs_create_unlink_witness:
  "\<exists>t u. ramfs_create 1 ([103] @ [0]) VFS_FILE some_fs = Some (0, t) \<and> ramfs_unlink 1 ([103] @ [0]) t = Some (0, u)
    \<and> ramdir_ok 1 u"
  using ramfs_create_unlink [OF some_fs_dir _ some_fs_find(1)] by (auto simp: name_ok_def)

theorem ramfs_create_existing_name_witness:
  "\<exists>t. ramfs_create 1 ([102] @ [0]) VFS_FILE some_fs = Some (0, t) \<and> kids t 1 = [2, 3]
    \<and> ramfs_finddir 1 ([102] @ [0]) t = Some (Some (Ram 2))"
  using ramfs_create_existing_name [OF some_fs_dir _ some_fs_find(2), of VFS_FILE] some_fs_simps by (auto simp: name_ok_def)

end
