(* ===== verification/Tty.thy ===== *)
theory Tty
  imports Libc
begin

text \<open>
  The terminal of \<^verbatim>\<open>drivers/tty.c\<close>: the text screen and its cursor, the serial line every character is
  copied to, the keyboard with its ring buffer, and the line editor. The screen is the 2000 cells
  of the VGA text page; writing outside it is \<open>None\<close>. The devices are part of the state: the bytes
  sent over the serial line, the cursor register of the VGA, and the scan codes the keyboard has
  still to deliver, one per interrupt. Waiting for a key that never comes is \<open>None\<close> as well.
\<close>

unbundle bit_operations_syntax

section \<open>State\<close>

record tty =
  vga :: "u16 list"
  cur_col :: nat
  cur_row :: nat
  vga_cursor :: u16
  serial :: bytestr
  kb_buf :: bytestr
  kb_head :: nat
  kb_tail :: nat
  shift_held :: bool
  ctrl_held :: bool
  scancodes :: "u8 list"

definition VGA_COLS :: nat where "VGA_COLS = 80"
definition VGA_ROWS :: nat where "VGA_ROWS = 25"
definition VGA_WHITE :: u16 where "VGA_WHITE = 7"
definition KB_BUF_SIZE :: nat where "KB_BUF_SIZE = 256"

text \<open>A character cell in white on black; \<^verbatim>\<open>' ' | (VGA_WHITE << 8)\<close>.\<close>

definition cell :: "u8 \<Rightarrow> u16" where
  "cell c = ucast c OR push_bit 8 VGA_WHITE"

definition blank :: u16 where
  "blank = cell 32"

definition vga_get :: "nat \<Rightarrow> tty \<Rightarrow> u16 option" where
  "vga_get i s = (if i < length (vga s) then Some (vga s ! i) else None)"

definition vga_set :: "nat \<Rightarrow> u16 \<Rightarrow> tty \<Rightarrow> tty option" where
  "vga_set i v s = (if i < length (vga s) then Some (s\<lparr>vga := (vga s)[i := v]\<rparr>) else None)"

section \<open>The screen\<close>

definition vga_scroll :: "tty \<Rightarrow> tty option" where
  "vga_scroll s = do {
     s \<leftarrow> for_range 0 (VGA_ROWS - 1) (\<lambda>r. for_range 0 VGA_COLS (\<lambda>c s. do {
            v \<leftarrow> vga_get ((r + 1) * VGA_COLS + c) s;
            vga_set (r * VGA_COLS + c) v s })) s;
     s \<leftarrow> for_range 0 VGA_COLS (\<lambda>c. vga_set ((VGA_ROWS - 1) * VGA_COLS + c) blank) s;
     Some (s\<lparr>cur_row := VGA_ROWS - 1\<rparr>)
   }"

definition vga_update_cursor :: "tty \<Rightarrow> tty" where
  "vga_update_cursor s = s\<lparr>vga_cursor := of_nat (cur_row s * VGA_COLS + cur_col s)\<rparr>"

text \<open>The UART is taken to become ready: the wait for it ends.\<close>

definition serial_write :: "u8 \<Rightarrow> tty \<Rightarrow> tty" where
  "serial_write c s = s\<lparr>serial := serial s @ [c]\<rparr>"

text \<open>\<^verbatim>\<open>if (++cur_row >= VGA_ROWS) vga_scroll();\<close>\<close>

definition next_row :: "tty \<Rightarrow> tty option" where
  "next_row s = (let s = s\<lparr>cur_row := cur_row s + 1\<rparr>
                 in if VGA_ROWS \<le> cur_row s then vga_scroll s else Some s)"

definition tty_putchar :: "u8 \<Rightarrow> tty \<Rightarrow> tty option" where
  "tty_putchar c s = do {
     let s = serial_write c s;
     s \<leftarrow> (if c = 10 then next_row (s\<lparr>cur_col := 0\<rparr>)
           else if c = 13 then Some (s\<lparr>cur_col := 0\<rparr>)
           else if c = 8 then
             (if 0 < cur_col s
              then let s = s\<lparr>cur_col := cur_col s - 1\<rparr>
                   in vga_set (cur_row s * VGA_COLS + cur_col s) blank s
              else Some s)
           else if c = 9 then
             for_range (cur_col s) ((cur_col s + 8) div 8 * 8) (\<lambda>i s. do {
               s \<leftarrow> vga_set (cur_row s * VGA_COLS + cur_col s) blank s;
               Some (s\<lparr>cur_col := cur_col s + 1\<rparr>) }) s
           else do {
             s \<leftarrow> vga_set (cur_row s * VGA_COLS + cur_col s) (cell c) s;
             let s = s\<lparr>cur_col := cur_col s + 1\<rparr>;
             if VGA_COLS \<le> cur_col s then next_row (s\<lparr>cur_col := 0\<rparr>) else Some s
           });
     Some (vga_update_cursor s)
   }"

fun tty_puts :: "bytestr \<Rightarrow> tty \<Rightarrow> tty option" where
  "tty_puts [] s = None"
| "tty_puts (c # str) s = (if c = 0 then Some s else do { s \<leftarrow> tty_putchar c s; tty_puts str s })"

definition tty_clear :: "tty \<Rightarrow> tty option" where
  "tty_clear s = do {
     s \<leftarrow> for_range 0 (VGA_COLS * VGA_ROWS) (\<lambda>i. vga_set i blank) s;
     Some (vga_update_cursor (s\<lparr>cur_col := 0, cur_row := 0\<rparr>))
   }"

fun serial_puts :: "bytestr \<Rightarrow> tty \<Rightarrow> tty option" where
  "serial_puts [] s = None"
| "serial_puts (c # str) s =
     (if c = 0 then Some s
      else serial_puts str (serial_write c (if c = 10 then serial_write 13 s else s)))"

section \<open>The keyboard\<close>

definition sc_normal :: bytestr where
  "sc_normal = [0, 27] @ map of_char ''1234567890-='' @ [8, 9] @ map of_char ''qwertyuiop[]'' @ [10, 0]
     @ map of_char ''asdfghjkl;'' @ [39] @ map of_char ''`'' @ [0, 92] @ map of_char ''zxcvbnm,./''
     @ [0] @ map of_char ''*'' @ [0, 32, 0]"

definition sc_shift :: bytestr where
  "sc_shift = [0, 27] @ map of_char ''!@#$%^&*()_+'' @ [8, 9] @ map of_char ''QWERTYUIOP{}'' @ [10, 0]
     @ map of_char ''ASDFGHJKL:'' @ [34] @ map of_char ''~'' @ [0] @ map of_char ''|ZXCVBNM<>?''
     @ [0] @ map of_char ''*'' @ [0, 32, 0]"

text \<open>The character of a key press, 0 for none.\<close>

definition key_char :: "bool \<Rightarrow> bool \<Rightarrow> u8 \<Rightarrow> u8" where
  "key_char shift ctrl scancode =
     (let c = (if unat scancode < length sc_normal
               then (if shift then sc_shift else sc_normal) ! unat scancode else 0)
      in if ctrl \<and> c = chr CHR ''c'' then 3 else c)"

text \<open>The ring buffer: one cell is always free.\<close>

definition kb_push :: "u8 \<Rightarrow> tty \<Rightarrow> tty" where
  "kb_push c s =
     (let nxt = (kb_head s + 1) mod KB_BUF_SIZE
      in if nxt \<noteq> kb_tail s then s\<lparr>kb_buf := (kb_buf s)[kb_head s := c], kb_head := nxt\<rparr> else s)"

definition kb_pop :: "tty \<Rightarrow> (u8 \<times> tty) option" where
  "kb_pop s =
     (if kb_head s = kb_tail s then None
      else Some (kb_buf s ! kb_tail s, s\<lparr>kb_tail := (kb_tail s + 1) mod KB_BUF_SIZE\<rparr>))"

definition keyboard_handler :: "u8 \<Rightarrow> tty \<Rightarrow> tty" where
  "keyboard_handler scancode s =
     (if scancode = 0x2A \<or> scancode = 0x36 then s\<lparr>shift_held := True\<rparr>
      else if scancode = 0xAA \<or> scancode = 0xB6 then s\<lparr>shift_held := False\<rparr>
      else if scancode = 0x1D then s\<lparr>ctrl_held := True\<rparr>
      else if scancode = 0x9D then s\<lparr>ctrl_held := False\<rparr>
      else if scancode AND 0x80 \<noteq> 0 then s
      else let c = key_char (shift_held s) (ctrl_held s) scancode
           in if c = 0 then s else kb_push c s)"

text \<open>
  The blocking read: while the buffer is empty, the CPU halts until the next interrupt, which is
  the next scan code of the keyboard.
\<close>

function tty_getchar :: "tty \<Rightarrow> (u8 \<times> tty) option" where
  "tty_getchar s =
     (case kb_pop s of Some r \<Rightarrow> Some r
      | None \<Rightarrow>
          (case scancodes s of [] \<Rightarrow> None
           | sc # rest \<Rightarrow> tty_getchar (keyboard_handler sc (s\<lparr>scancodes := rest\<rparr>))))"
  by pat_completeness auto

lemma scancodes_handler [simp]: "scancodes (keyboard_handler sc s) = scancodes s"
  by (simp add: keyboard_handler_def kb_push_def Let_def)

termination tty_getchar
  by (relation "measure (\<lambda>s. length (scancodes s))") auto

declare tty_getchar.simps [simp del]

section \<open>Reading a line\<close>

definition buf_set :: "nat \<Rightarrow> u8 \<Rightarrow> bytestr \<Rightarrow> bytestr option" where
  "buf_set i c buf = (if i < length buf then Some (buf[i := c]) else None)"

text \<open>\<^verbatim>\<open>c >= 32\<close> on a signed \<^verbatim>\<open>char\<close>.\<close>

partial_function (option) readline_loop :: "nat \<Rightarrow> int \<Rightarrow> bytestr \<Rightarrow> tty \<Rightarrow> (int \<times> bytestr \<times> tty) option" where
  "readline_loop i maxlen buf s = do {
     (c, s) \<leftarrow> tty_getchar s;
     if c = 10 \<or> c = 13 then do {
       buf \<leftarrow> buf_set i 0 buf;
       s \<leftarrow> tty_putchar 10 s;
       Some (int i, buf, s)
     } else if c = 8 \<and> 0 < i then do {
       s \<leftarrow> tty_putchar 8 s;
       readline_loop (i - 1) maxlen buf s
     } else if c = 3 then do {
       s \<leftarrow> tty_puts (map of_char ''^C'' @ [10, 0]) s;
       buf \<leftarrow> buf_set 0 0 buf;
       Some (- 1, buf, s)
     } else if 32 \<le> sint c \<and> int i < maxlen - 1 then do {
       buf \<leftarrow> buf_set i c buf;
       s \<leftarrow> tty_putchar c s;
       readline_loop (i + 1) maxlen buf s
     } else readline_loop i maxlen buf s
   }"

definition tty_readline :: "bytestr \<Rightarrow> int \<Rightarrow> tty \<Rightarrow> (int \<times> bytestr \<times> tty) option" where
  "tty_readline buf maxlen s = readline_loop 0 maxlen buf s"

text \<open>The read operation of the terminal's node: up to and including the end of the line.\<close>

function tty_read_loop :: "nat \<Rightarrow> nat \<Rightarrow> bytestr \<Rightarrow> tty \<Rightarrow> (nat \<times> bytestr \<times> tty) option" where
  "tty_read_loop n sz buf s =
     (if n < sz then do {
        (c, s) \<leftarrow> tty_getchar s;
        buf \<leftarrow> buf_set n c buf;
        if c = 10 \<or> c = 13 then Some (n + 1, buf, s) else tty_read_loop (n + 1) sz buf s
      } else Some (n, buf, s))"
  by pat_completeness auto
termination by (relation "measure (\<lambda>(n, sz, _, _). sz - n)") auto

declare tty_read_loop.simps [simp del]

definition tty_vfs_read :: "bytestr \<Rightarrow> nat \<Rightarrow> tty \<Rightarrow> (nat \<times> bytestr \<times> tty) option" where
  "tty_vfs_read buf sz s = tty_read_loop 0 sz buf s"

text \<open>
  The write operation sends every character a second time, through \<^verbatim>\<open>serial_putchar\<close>. That function
  polls a local variable it never sets (the \<^verbatim>\<open>inb\<close> is commented out): the value it happens to have is
  the argument \<open>status\<close>, and without the bit 5 in it the loop does not end.
\<close>

definition serial_putchar :: "u8 \<Rightarrow> u8 \<Rightarrow> tty \<Rightarrow> tty option" where
  "serial_putchar status c s = (if status AND 0x20 = 0 then None else Some (serial_write c s))"

fun tty_write_loop :: "u8 \<Rightarrow> nat \<Rightarrow> bytestr \<Rightarrow> tty \<Rightarrow> tty option" where
  "tty_write_loop status 0 b s = Some s"
| "tty_write_loop status (Suc n) [] s = None"
| "tty_write_loop status (Suc n) (c # b) s = do {
     s \<leftarrow> tty_putchar c s;
     s \<leftarrow> serial_putchar status c s;
     tty_write_loop status n b s }"

definition tty_vfs_write :: "u8 \<Rightarrow> u32 \<Rightarrow> bytestr \<Rightarrow> tty \<Rightarrow> (u32 \<times> tty) option" where
  "tty_vfs_write status sz buf s = map_option (Pair sz) (tty_write_loop status (unat sz) buf s)"

section \<open>The screen as a list of lines\<close>

lemma vga_consts [simp]: "VGA_COLS = 80" "VGA_ROWS = 25" "KB_BUF_SIZE = 256"
  by (simp_all add: VGA_COLS_def VGA_ROWS_def KB_BUF_SIZE_def)

type_synonym screen = "u16 list list \<times> nat \<times> nat"

definition blank_line :: "u16 list" where
  "blank_line = replicate 80 blank"

definition new_line :: "screen \<Rightarrow> screen" where
  "new_line t = (case t of (ls, row, col) \<Rightarrow>
     if row + 1 < 25 then (ls, row + 1, 0) else (tl ls @ [blank_line], 24, 0))"

definition set_cell :: "nat \<Rightarrow> nat \<Rightarrow> u16 \<Rightarrow> u16 list list \<Rightarrow> u16 list list" where
  "set_cell row col v ls = ls[row := (ls ! row)[col := v]]"

text \<open>The terminal as it should be: what a character does to the lines and the cursor.\<close>

definition type_char :: "u8 \<Rightarrow> screen \<Rightarrow> screen" where
  "type_char c t = (case t of (ls, row, col) \<Rightarrow>
     if c = 10 then new_line t
     else if c = 13 then (ls, row, 0)
     else if c = 8 then (if 0 < col then (set_cell row (col - 1) blank ls, row, col - 1) else t)
     else if c = 9 then (fold (\<lambda>i. set_cell row i blank) [col..<(col + 8) div 8 * 8] ls, row, (col + 8) div 8 * 8)
     else let t' = (set_cell row col (cell c) ls, row, col + 1)
          in if col + 1 < 80 then t' else new_line t')"

text \<open>The lines of a text page.\<close>

definition page :: "u16 list list \<Rightarrow> bool" where
  "page ls \<longleftrightarrow> length ls = 25 \<and> (\<forall>l\<in>set ls. length l = 80)"

definition displays :: "tty \<Rightarrow> screen \<Rightarrow> bool" where
  "displays s t \<longleftrightarrow> (case t of (ls, row, col) \<Rightarrow> vga s = concat ls \<and> page ls
     \<and> cur_row s = row \<and> cur_col s = col \<and> row < 25 \<and> col < 80)"

lemma concat_length: "\<forall>l\<in>set ls. length l = 80 \<Longrightarrow> length (concat ls) = 80 * length ls"
  by (induction ls) auto

lemma page_length: "page ls \<Longrightarrow> length (concat ls) = 2000"
  by (simp add: page_def concat_length)

lemma concat_update:
  assumes "\<forall>l\<in>set ls. length l = 80" and "row < length ls" and "col < 80"
  shows "(concat ls)[row * 80 + col := v] = concat (set_cell row col v ls)"
  using assms
proof (induction ls arbitrary: row)
  case (Cons l ls)
  show ?case
  proof (cases row)
    case 0
    then show ?thesis using Cons.prems by (simp add: set_cell_def list_update_append)
  next
    case (Suc r)
    with Cons.prems Cons.IH [of r] show ?thesis by (simp add: set_cell_def list_update_append)
  qed
qed simp

lemma page_set_cell [simp]: "page ls \<Longrightarrow> row < 25 \<Longrightarrow> page (set_cell row col v ls)"
  by (auto simp: page_def set_cell_def dest!: set_update_subset_insert [THEN subsetD])

lemma page_fold_set_cell: "page ls \<Longrightarrow> row < 25 \<Longrightarrow> page (fold (\<lambda>i. set_cell row i v) cols ls)"
  by (induction cols arbitrary: ls) simp_all

lemma page_update: "page ls \<Longrightarrow> row < 25 \<Longrightarrow> col < 80 \<Longrightarrow> (concat ls)[row * 80 + col := v] = concat (set_cell row col v ls)"
  by (simp add: page_def concat_update)

lemma page_scroll:
  assumes "page ls"
  shows "page (tl ls @ [blank_line])" "drop 80 (concat ls) @ blank_line = concat (tl ls @ [blank_line])"
proof -
  obtain l ls' where "ls = l # ls'" using assms by (cases ls) (auto simp: page_def)
  with assms show "page (tl ls @ [blank_line])" "drop 80 (concat ls) @ blank_line = concat (tl ls @ [blank_line])"
    by (auto simp: page_def blank_line_def)
qed

section \<open>Scrolling\<close>

lemma scroll_step:
  assumes "length V = 2000" and "k < 1920"
  defines "W \<equiv> \<lambda>k. take k (drop 80 V) @ drop k V"
  shows "W k ! (k + 80) = V ! (k + 80)" "(W k)[k := V ! (k + 80)] = W (Suc k)" "length (W k) = 2000"
proof -
  show "length (W k) = 2000" using assms by simp
  show "W k ! (k + 80) = V ! (k + 80)" using assms by (simp add: nth_append)
  have "drop k V = V ! k # drop (Suc k) V" using assms by (simp add: Cons_nth_drop_Suc)
  moreover have "take (Suc k) (drop 80 V) = take k (drop 80 V) @ [V ! (k + 80)]"
    using assms by (simp add: take_Suc_conv_app_nth add.commute)
  ultimately show "(W k)[k := V ! (k + 80)] = W (Suc k)" using assms by (simp add: list_update_append)
qed

lemma vga_scroll_eq:
  assumes len: "length (vga s) = 2000"
  shows "vga_scroll s = Some (s\<lparr>vga := drop 80 (vga s) @ blank_line, cur_row := 24\<rparr>)"
proof -
  define W where "W = (\<lambda>k. take k (drop 80 (vga s)) @ drop k (vga s))"
  have W0: "s = s\<lparr>vga := W 0\<rparr>" by (simp add: W_def)
  have st: "W k ! (k + 80) = vga s ! (k + 80)" "(W k)[k := vga s ! (k + 80)] = W (Suc k)" "length (W k) = 2000"
    if "k < 1920" for k
    unfolding W_def by (rule scroll_step [OF len that])+
  have inner: "\<exists>t. for_range 0 VGA_COLS (\<lambda>c s. do { v \<leftarrow> vga_get ((r + 1) * VGA_COLS + c) s;
        vga_set (r * VGA_COLS + c) v s }) (s\<lparr>vga := W (80 * r)\<rparr>) = Some t \<and> t = s\<lparr>vga := W (80 * r + 80)\<rparr>"
    if r: "r < 24" for r
  proof -
    have "\<exists>t. for_range 0 VGA_COLS (\<lambda>c s. do { v \<leftarrow> vga_get ((r + 1) * VGA_COLS + c) s;
        vga_set (r * VGA_COLS + c) v s }) (s\<lparr>vga := W (80 * r)\<rparr>) = Some t \<and> t = s\<lparr>vga := W (80 * r + VGA_COLS)\<rparr>"
    proof (rule for_range_inv [where P = "\<lambda>c t. t = s\<lparr>vga := W (80 * r + c)\<rparr>"])
      fix c t
      assume c: "c < VGA_COLS" and t: "t = s\<lparr>vga := W (80 * r + c)\<rparr>"
      let ?k = "80 * r + c"
      have k: "?k < 1920" using c r by simp
      have e: "(r + 1) * VGA_COLS + c = ?k + 80" "r * VGA_COLS + c = ?k" by simp_all
      show "\<exists>t'. (do { v \<leftarrow> vga_get ((r + 1) * VGA_COLS + c) t; vga_set (r * VGA_COLS + c) v t }) = Some t'
          \<and> t' = s\<lparr>vga := W (80 * r + Suc c)\<rparr>"
        unfolding e t using k st(1,2,3) [OF k] by (simp add: vga_get_def vga_set_def)
    qed simp_all
    then show ?thesis by simp
  qed
  have "\<exists>t. for_range 0 (VGA_ROWS - 1) (\<lambda>r. for_range 0 VGA_COLS (\<lambda>c s. do { v \<leftarrow> vga_get ((r + 1) * VGA_COLS + c) s;
        vga_set (r * VGA_COLS + c) v s })) s = Some t \<and> t = s\<lparr>vga := W (80 * (VGA_ROWS - 1))\<rparr>"
  proof (rule for_range_inv [where P = "\<lambda>r t. t = s\<lparr>vga := W (80 * r)\<rparr>"])
    show "s = s\<lparr>vga := W (80 * 0)\<rparr>" using W0 by simp
    show "\<exists>t'. for_range 0 VGA_COLS (\<lambda>c s. do { v \<leftarrow> vga_get ((r + 1) * VGA_COLS + c) s;
        vga_set (r * VGA_COLS + c) v s }) t = Some t' \<and> t' = s\<lparr>vga := W (80 * Suc r)\<rparr>"
      if "r < VGA_ROWS - 1" "t = s\<lparr>vga := W (80 * r)\<rparr>" for r t
      using that inner [of r] by (simp add: add.commute)
  qed simp
  then have up: "for_range 0 (VGA_ROWS - 1) (\<lambda>r. for_range 0 VGA_COLS (\<lambda>c s. do { v \<leftarrow> vga_get ((r + 1) * VGA_COLS + c) s;
        vga_set (r * VGA_COLS + c) v s })) s = Some (s\<lparr>vga := W 1920\<rparr>)" by simp
  have W: "W 1920 = drop 80 (vga s) @ drop 1920 (vga s)" using len by (simp add: W_def)
  define B where "B = (\<lambda>c. drop 80 (vga s) @ replicate c blank @ drop (1920 + c) (vga s))"
  have fill: "\<exists>t. for_range 0 VGA_COLS (\<lambda>c. vga_set ((VGA_ROWS - 1) * VGA_COLS + c) blank) (s\<lparr>vga := W 1920\<rparr>) = Some t
      \<and> t = s\<lparr>vga := B VGA_COLS\<rparr>"
  proof (rule for_range_inv [where P = "\<lambda>c t. t = s\<lparr>vga := B c\<rparr>"])
    show "s\<lparr>vga := W 1920\<rparr> = s\<lparr>vga := B 0\<rparr>" by (simp add: W B_def)
    fix c t
    assume c: "c < VGA_COLS" and t: "t = s\<lparr>vga := B c\<rparr>"
    have "drop (1920 + c) (vga s) = vga s ! (1920 + c) # drop (Suc (1920 + c)) (vga s)"
      by (rule Cons_nth_drop_Suc [symmetric]) (use c len in simp)
    then have p: "B c = (drop 80 (vga s) @ replicate c blank) @ vga s ! (1920 + c) # drop (Suc (1920 + c)) (vga s)"
      by (simp only: B_def append.assoc)
    have l: "length (drop 80 (vga s) @ replicate c blank) = 1920 + c" using len by simp
    have "(B c)[1920 + c := blank] = (drop 80 (vga s) @ replicate c blank) @ blank # drop (Suc (1920 + c)) (vga s)"
      unfolding p l [symmetric] list_update_length ..
    also have "\<dots> = B (Suc c)"
      by (simp only: B_def append.assoc replicate_Suc replicate_app_Cons_same append_Cons append_Nil) simp
    finally have "(B c)[1920 + c := blank] = B (Suc c)" .
    moreover have "length (B c) = 2000" using c len by (simp add: B_def)
    ultimately show "\<exists>t'. vga_set ((VGA_ROWS - 1) * VGA_COLS + c) blank t = Some t' \<and> t' = s\<lparr>vga := B (Suc c)\<rparr>"
      using c t by (simp add: vga_set_def)
  qed simp
  have "B VGA_COLS = drop 80 (vga s) @ blank_line" using len by (simp add: B_def blank_line_def)
  with up fill show ?thesis by (simp add: vga_scroll_def)
qed

section \<open>Characters on the screen\<close>

text \<open>The part of the state that output does not touch.\<close>

definition keyboard :: "tty \<Rightarrow> bytestr \<times> nat \<times> nat \<times> bool \<times> bool \<times> u8 list" where
  "keyboard s = (kb_buf s, kb_head s, kb_tail s, shift_held s, ctrl_held s, scancodes s)"

lemma keyboard_upd [simp]:
  "keyboard (s\<lparr>vga := v\<rparr>) = keyboard s" "keyboard (s\<lparr>cur_col := n\<rparr>) = keyboard s"
  "keyboard (s\<lparr>cur_row := n\<rparr>) = keyboard s" "keyboard (s\<lparr>vga_cursor := p\<rparr>) = keyboard s"
  "keyboard (s\<lparr>serial := b\<rparr>) = keyboard s"
  by (simp_all add: keyboard_def)

lemma vga_set_cell:
  assumes "vga s = concat ls" and "page ls" and "row < 25" and "col < 80"
  shows "vga_set (row * 80 + col) v s = Some (s\<lparr>vga := concat (set_cell row col v ls)\<rparr>)"
proof -
  have "length (vga s) = 2000" using assms(1,2) by (simp add: page_length)
  moreover have "row * 80 + col < 2000" using assms(3,4) by simp
  ultimately show ?thesis using assms by (simp add: vga_set_def page_update)
qed

lemma next_row_displays:
  assumes "vga s = concat ls" and "page ls" and "cur_row s = row" and "row < 25"
  obtains t where "next_row (s\<lparr>cur_col := 0\<rparr>) = Some t" "displays t (new_line (ls, row, col))"
    "serial t = serial s" "keyboard t = keyboard s"
proof (cases "row + 1 < 25")
  case True
  then have "next_row (s\<lparr>cur_col := 0\<rparr>) = Some (s\<lparr>cur_col := 0, cur_row := row + 1\<rparr>)"
    using assms(3) by (simp add: next_row_def)
  then show thesis by (rule that) (use assms True in \<open>simp_all add: displays_def new_line_def\<close>)
next
  case False
  have "length (vga s) = 2000" using assms(1,2) by (simp add: page_length)
  then have "next_row (s\<lparr>cur_col := 0\<rparr>)
      = Some (s\<lparr>cur_col := 0, vga := concat (tl ls @ [blank_line]), cur_row := 24\<rparr>)"
    using False assms(1,3,4) page_scroll(2) [OF assms(2)] by (simp add: next_row_def vga_scroll_eq)
  then show thesis
    by (rule that) (use assms False page_scroll(1) in \<open>auto simp: displays_def new_line_def\<close>)
qed

lemma tab_loop:
  assumes "vga s = concat ls" and "page ls" and "cur_row s = row" and "row < 25"
    and "cur_col s = col" and "col \<le> nxt" and "nxt \<le> 80"
  shows "for_range col nxt (\<lambda>i s. do { s \<leftarrow> vga_set (cur_row s * VGA_COLS + cur_col s) blank s;
      Some (s\<lparr>cur_col := cur_col s + 1\<rparr>) }) s
    = Some (s\<lparr>vga := concat (fold (\<lambda>i. set_cell row i blank) [col..<nxt] ls), cur_col := nxt\<rparr>)"
proof -
  let ?f = "\<lambda>i. fold (\<lambda>i. set_cell row i blank) [col..<i] ls"
  have "\<exists>t. for_range col nxt (\<lambda>i s. do { s \<leftarrow> vga_set (cur_row s * VGA_COLS + cur_col s) blank s;
      Some (s\<lparr>cur_col := cur_col s + 1\<rparr>) }) s = Some t \<and> t = s\<lparr>vga := concat (?f nxt), cur_col := nxt\<rparr>"
  proof (rule for_range_inv [where P = "\<lambda>i t. t = s\<lparr>vga := concat (?f i), cur_col := i\<rparr>"])
    show "s = s\<lparr>vga := concat (?f col), cur_col := col\<rparr>" using assms(1,5) by simp
    fix i t
    assume i: "col \<le> i" "i < nxt" and t: "t = s\<lparr>vga := concat (?f i), cur_col := i\<rparr>"
    have "vga_set (row * 80 + i) blank t = Some (t\<lparr>vga := concat (set_cell row i blank (?f i))\<rparr>)"
      using assms i by (intro vga_set_cell) (simp_all add: t page_fold_set_cell)
    then show "\<exists>t'. (do { s \<leftarrow> vga_set (cur_row t * VGA_COLS + cur_col t) blank t; Some (s\<lparr>cur_col := cur_col s + 1\<rparr>) }) = Some t'
        \<and> t' = s\<lparr>vga := concat (?f (Suc i)), cur_col := Suc i\<rparr>"
      using assms(3) i(1) by (simp add: t)
  qed (use assms in simp)
  then show ?thesis by simp
qed

lemma putchar_displays:
  assumes d: "displays s (ls, row, col)" and tab: "c = 9 \<longrightarrow> col < 72"
  obtains t where "tty_putchar c s = Some t" "displays t (type_char c (ls, row, col))"
    "serial t = serial s @ [c]" "keyboard t = keyboard s" "vga_cursor t = of_nat (cur_row t * 80 + cur_col t)"
proof -
  let ?s = "serial_write c s"
  have D: "vga ?s = concat ls" "page ls" "cur_row ?s = row" "row < 25"
    "cur_col ?s = col" "col < 80" "serial ?s = serial s @ [c]" "keyboard ?s = keyboard s"
    using d by (simp_all add: displays_def serial_write_def)
  note got = that
  have fin: thesis if "tty_putchar c s = Some (vga_update_cursor t)" "displays t (type_char c (ls, row, col))"
    "serial t = serial ?s" "keyboard t = keyboard ?s" for t
    by (rule got [of "vga_update_cursor t"], fact that(1))
      (use that(2-4) D(7,8) in \<open>simp_all add: vga_update_cursor_def displays_def split: prod.splits\<close>)
  consider "c = 10" | "c = 13" | "c = 8" | "c = 9" | "c \<noteq> 10" "c \<noteq> 13" "c \<noteq> 8" "c \<noteq> 9" by blast
  then show thesis
  proof cases
    case 1
    obtain t where t: "next_row (?s\<lparr>cur_col := 0\<rparr>) = Some t" "displays t (new_line (ls, row, col))"
      "serial t = serial ?s" "keyboard t = keyboard ?s" by (rule next_row_displays [OF D(1-4)])
    show thesis by (rule fin [of t]) (use t 1 in \<open>simp_all add: tty_putchar_def type_char_def\<close>)
  next
    case 2
    show thesis
      by (rule fin [of "?s\<lparr>cur_col := 0\<rparr>"])
        (use 2 D in \<open>simp_all add: tty_putchar_def type_char_def displays_def\<close>)
  next
    case 3
    show thesis
    proof (cases "0 < col")
      case True
      have "vga_set (row * 80 + (col - 1)) blank (?s\<lparr>cur_col := col - 1\<rparr>)
          = Some (?s\<lparr>cur_col := col - 1, vga := concat (set_cell row (col - 1) blank ls)\<rparr>)"
        by (subst vga_set_cell [where ls = ls]) (use D in simp_all)
      then show thesis
        by (intro fin [of "?s\<lparr>cur_col := col - 1, vga := concat (set_cell row (col - 1) blank ls)\<rparr>"])
          (use 3 True D in \<open>simp_all add: tty_putchar_def type_char_def displays_def\<close>)
    next
      case False
      show thesis
        by (rule fin [of ?s]) (use 3 False D in \<open>simp_all add: tty_putchar_def type_char_def displays_def\<close>)
    qed
  next
    case 4
    let ?n = "(col + 8) div 8 * 8"
    have n: "col \<le> ?n" "?n < 80" "?n \<le> 80" using tab 4 by simp_all
    let ?t = "?s\<lparr>vga := concat (fold (\<lambda>i. set_cell row i blank) [col..<?n] ls), cur_col := ?n\<rparr>"
    have "tty_putchar c s = Some (vga_update_cursor ?t)"
      using 4 D(5) tab_loop [OF D(1-5) n(1,3)] by (simp add: tty_putchar_def Let_def)
    then show thesis
      by (rule fin) (use 4 D n in \<open>simp_all add: type_char_def displays_def page_fold_set_cell\<close>)
  next
    case 5
    let ?ls = "set_cell row col (cell c) ls"
    let ?t = "?s\<lparr>vga := concat ?ls\<rparr>"
    have v: "vga_set (row * 80 + col) (cell c) ?s = Some ?t" by (rule vga_set_cell [OF D(1,2,4,6)])
    show thesis
    proof (cases "col + 1 < 80")
      case True
      show thesis
        by (rule fin [of "?t\<lparr>cur_col := col + 1\<rparr>"])
          (use 5 True D v in \<open>simp_all add: tty_putchar_def type_char_def displays_def Let_def\<close>)
    next
      case False
      obtain t where t: "next_row (?t\<lparr>cur_col := 0\<rparr>) = Some t" "displays t (new_line (?ls, row, col + 1))"
        "serial t = serial ?t" "keyboard t = keyboard ?t"
        by (rule next_row_displays [of ?t ?ls row "col + 1"]) (use D in simp_all)
      have "?t\<lparr>cur_col := col + 1\<rparr>\<lparr>cur_col := 0\<rparr> = ?t\<lparr>cur_col := 0\<rparr>" by simp
      then have "tty_putchar c s = Some (vga_update_cursor t)"
        using 5 False D v t(1) by (simp add: tty_putchar_def Let_def)
      then show thesis
        by (rule fin) (use 5 False t in \<open>simp_all add: type_char_def Let_def\<close>)
    qed
  qed
qed

section \<open>The interface of a bounded queue\<close>

text \<open>\<open>n\<close> removals, one after the other.\<close>

primrec take_out :: "('s \<Rightarrow> ('a \<times> 's) option) \<Rightarrow> nat \<Rightarrow> 's \<Rightarrow> ('a list \<times> 's) option" where
  "take_out rem 0 s = Some ([], s)"
| "take_out rem (Suc n) s = do { (x, s) \<leftarrow> rem s; (xs, s) \<leftarrow> take_out rem n s; Some (x # xs, s) }"

locale bounded_queue =
  fixes ok :: "'s \<Rightarrow> bool" and items :: "'s \<Rightarrow> 'a list" and cap :: nat
    and add :: "'a \<Rightarrow> 's \<Rightarrow> 's" and rem :: "'s \<Rightarrow> ('a \<times> 's) option"
  assumes add_ok: "ok s \<Longrightarrow> ok (add x s)"
    and add_items: "ok s \<Longrightarrow> items (add x s) = (if length (items s) < cap then items s @ [x] else items s)"
    and rem_none: "ok s \<Longrightarrow> items s = [] \<Longrightarrow> rem s = None"
    and rem_some: "ok s \<Longrightarrow> items s = x # xs \<Longrightarrow> \<exists>t. rem s = Some (x, t) \<and> ok t \<and> items t = xs"
begin

lemma fold_add:
  "ok s \<Longrightarrow> ok (fold add xs s) \<and> items (fold add xs s) = items s @ take (cap - length (items s)) xs"
proof (induction xs arbitrary: s)
  case (Cons x xs)
  have IH: "items (fold add xs (add x s)) = items (add x s) @ take (cap - length (items (add x s))) xs"
    "ok (fold add xs (add x s))" using Cons.IH [OF add_ok [OF Cons.prems]] by simp_all
  show ?case
  proof (cases "length (items s) < cap")
    case True
    then obtain k where "cap = Suc (length (items s) + k)" by (auto dest: less_imp_Suc_add)
    with True IH Cons.prems show ?thesis by (simp add: add_items)
  next
    case False
    with IH Cons.prems show ?thesis by (simp add: add_items)
  qed
qed simp

lemma take_out_items:
  "ok s \<Longrightarrow> n \<le> length (items s) \<Longrightarrow>
    \<exists>t. take_out rem n s = Some (take n (items s), t) \<and> ok t \<and> items t = drop n (items s)"
proof (induction n arbitrary: s)
  case (Suc n)
  then obtain x xs where x: "items s = x # xs" by (cases "items s") auto
  then obtain t where t: "rem s = Some (x, t)" "ok t" "items t = xs" using rem_some [OF Suc.prems(1)] by blast
  have "n \<le> length (items t)" using Suc.prems(2) x t(3) by simp
  from Suc.IH [OF t(2) this] t x show ?case by auto
qed simp

text \<open>First in, first out, and what does not fit is dropped.\<close>

lemma fifo:
  assumes "ok s" and "items s = []"
  shows "\<exists>t. take_out rem (min cap (length xs)) (fold add xs s) = Some (take cap xs, t) \<and> ok t \<and> items t = [] \<and> rem t = None"
proof -
  have F: "ok (fold add xs s)" "items (fold add xs s) = take cap xs" using fold_add [OF assms(1), of xs] assms(2) by simp_all
  have "min cap (length xs) \<le> length (items (fold add xs s))" using F(2) by simp
  from take_out_items [OF F(1) this] F(2)
  obtain t where "take_out rem (min cap (length xs)) (fold add xs s) = Some (take cap xs, t)" "ok t" "items t = []"
    by (auto simp: min_def)
  with rem_none show ?thesis by blast
qed

end

section \<open>The ring buffer is a bounded queue\<close>

definition kb_ok :: "tty \<Rightarrow> bool" where
  "kb_ok s \<longleftrightarrow> length (kb_buf s) = 256 \<and> kb_head s < 256 \<and> kb_tail s < 256"

text \<open>The number of characters waiting, and the characters, the oldest first.\<close>

definition kb_count :: "tty \<Rightarrow> nat" where
  "kb_count s = (if kb_tail s \<le> kb_head s then kb_head s - kb_tail s else kb_head s + 256 - kb_tail s)"

definition kb_items :: "tty \<Rightarrow> bytestr" where
  "kb_items s = map (\<lambda>i. kb_buf s ! ((kb_tail s + i) mod 256)) [0..<kb_count s]"

lemma kb_items_length [simp]: "length (kb_items s) = kb_count s"
  by (simp add: kb_items_def)

lemma succ_mod: "n < 256 \<Longrightarrow> Suc n mod 256 = (if n = 255 then 0 else Suc n)"
  by (cases "n = 255") simp_all

lemma kb_count_bound: "kb_ok s \<Longrightarrow> kb_count s \<le> 255"
  by (auto simp: kb_ok_def kb_count_def)

lemma kb_full_iff: "kb_ok s \<Longrightarrow> (kb_head s + 1) mod 256 = kb_tail s \<longleftrightarrow> kb_count s = 255"
  by (auto simp: kb_ok_def kb_count_def succ_mod)

lemma kb_push_items:
  assumes "kb_ok s"
  shows "kb_ok (kb_push c s)" "kb_items (kb_push c s) = (if length (kb_items s) < 255 then kb_items s @ [c] else kb_items s)"
proof -
  show "kb_ok (kb_push c s)" using assms by (simp add: kb_ok_def kb_push_def Let_def)
  show "kb_items (kb_push c s) = (if length (kb_items s) < 255 then kb_items s @ [c] else kb_items s)"
  proof (cases "kb_count s < 255")
    case True
    let ?t = "s\<lparr>kb_buf := (kb_buf s)[kb_head s := c], kb_head := (kb_head s + 1) mod 256\<rparr>"
    have t: "kb_push c s = ?t" using True kb_full_iff [OF assms] by (simp add: kb_push_def Let_def)
    have n: "kb_count ?t = Suc (kb_count s)"
      using assms True by (auto simp: kb_count_def kb_ok_def succ_mod)
    have pos: "(kb_tail s + kb_count s) mod 256 = kb_head s"
      using assms by (auto simp: kb_count_def kb_ok_def)
    have "kb_head s \<noteq> (kb_tail s + i) mod 256" if "i < kb_count s" for i
    proof -
      have "kb_tail s + i < 256 \<or> 256 \<le> kb_tail s + i \<and> (kb_tail s + i) mod 256 = kb_tail s + i - 256"
        using assms that kb_count_bound [OF assms] by (auto simp: kb_ok_def le_mod_geq)
      then show ?thesis using assms that by (auto simp: kb_count_def kb_ok_def split: if_splits)
    qed
    then have "(kb_buf s)[kb_head s := c] ! ((kb_tail s + i) mod 256) = kb_buf s ! ((kb_tail s + i) mod 256)"
      if "i < kb_count s" for i using that by (simp add: nth_list_update_neq)
    then have "kb_items ?t = kb_items s @ [c]"
      using assms pos n by (auto simp: kb_items_def kb_ok_def)
    with True t show ?thesis by simp
  next
    case False
    then have "kb_push c s = s" using kb_full_iff [OF assms] kb_count_bound [OF assms] by (simp add: kb_push_def Let_def)
    with False show ?thesis by simp
  qed
qed

lemma kb_pop_items:
  assumes "kb_ok s"
  shows "kb_items s = [] \<Longrightarrow> kb_pop s = None"
    and "kb_items s = c # cs \<Longrightarrow> \<exists>t. kb_pop s = Some (c, t) \<and> kb_ok t \<and> kb_items t = cs"
proof -
  have e: "kb_count s = 0 \<longleftrightarrow> kb_head s = kb_tail s" using assms by (auto simp: kb_count_def kb_ok_def)
  show "kb_items s = [] \<Longrightarrow> kb_pop s = None"
    using e by (simp add: kb_pop_def kb_items_def)
  assume c: "kb_items s = c # cs"
  then have ne: "0 < kb_count s" by (metis kb_items_length length_pos_if_in_set list.set_intros(1))
  let ?t = "s\<lparr>kb_tail := (kb_tail s + 1) mod 256\<rparr>"
  have n: "kb_count s = Suc (kb_count ?t)" using assms ne by (auto simp: kb_count_def kb_ok_def succ_mod)
  have m: "(Suc (kb_tail s) mod 256 + i) mod 256 = Suc (kb_tail s + i) mod 256" for i
    by (metis add_Suc mod_add_left_eq)
  have "kb_items s = kb_buf s ! kb_tail s # kb_items ?t"
    using assms by (simp add: kb_items_def n upt_conv_Cons map_Suc_upt [symmetric] m kb_ok_def comp_def del: upt_Suc)
  then have "kb_buf s ! kb_tail s = c" "kb_items ?t = cs" using c by simp_all
  moreover have "kb_ok ?t" using assms by (simp add: kb_ok_def)
  moreover have "kb_pop s = Some (kb_buf s ! kb_tail s, ?t)" using ne e by (simp add: kb_pop_def)
  ultimately show "\<exists>t. kb_pop s = Some (c, t) \<and> kb_ok t \<and> kb_items t = cs" by blast
qed

interpretation kbq: bounded_queue kb_ok kb_items 255 kb_push kb_pop
  by unfold_locales (auto simp: kb_push_items kb_pop_items)

section \<open>What has been typed\<close>

text \<open>The characters of a sequence of scan codes, from the state of the two modifier keys.\<close>

fun decode :: "bool \<Rightarrow> bool \<Rightarrow> u8 list \<Rightarrow> bytestr" where
  "decode shift ctrl [] = []"
| "decode shift ctrl (sc # scs) =
     (if sc = 0x2A \<or> sc = 0x36 then decode True ctrl scs
      else if sc = 0xAA \<or> sc = 0xB6 then decode False ctrl scs
      else if sc = 0x1D then decode shift True scs
      else if sc = 0x9D then decode shift False scs
      else if sc AND 0x80 \<noteq> 0 \<or> key_char shift ctrl sc = 0 then decode shift ctrl scs
      else key_char shift ctrl sc # decode shift ctrl scs)"

text \<open>All the characters that will be read: those in the buffer and those still to be typed.\<close>

definition typed :: "tty \<Rightarrow> bytestr" where
  "typed s = kb_items s @ decode (shift_held s) (ctrl_held s) (scancodes s)"

definition display :: "tty \<Rightarrow> u16 list \<times> nat \<times> nat \<times> u16 \<times> bytestr" where
  "display s = (vga s, cur_col s, cur_row s, vga_cursor s, serial s)"

lemma display_cong: "display t = display s \<Longrightarrow> displays t T = displays s T \<and> serial t = serial s"
  by (simp add: display_def displays_def split: prod.split)

lemma keyboard_cong:
  "keyboard t = keyboard s \<Longrightarrow> kb_ok t = kb_ok s \<and> typed t = typed s"
  by (simp add: keyboard_def kb_ok_def typed_def kb_items_def kb_count_def)

lemma handler_typed:
  assumes "kb_ok s" and "kb_items s = []" and "scancodes s = sc # rest"
  defines "t \<equiv> keyboard_handler sc (s\<lparr>scancodes := rest\<rparr>)"
  shows "kb_ok t" "typed t = typed s" "display t = display s"
proof -
  let ?s = "s\<lparr>scancodes := rest\<rparr>"
  have "kb_ok ?s = kb_ok s" "kb_items ?s = kb_items s" by (simp_all add: kb_ok_def kb_items_def kb_count_def)
  then have ok: "kb_ok ?s" "kb_items ?s = []" using assms(1,2) by simp_all
  have items: "kb_items (u\<lparr>shift_held := b\<rparr>) = kb_items u" "kb_items (u\<lparr>ctrl_held := b\<rparr>) = kb_items u"
    "kb_ok (u\<lparr>shift_held := b\<rparr>) = kb_ok u" "kb_ok (u\<lparr>ctrl_held := b\<rparr>) = kb_ok u" for u b
    by (simp_all add: kb_items_def kb_count_def kb_ok_def)
  have push: "shift_held (kb_push c ?s) = shift_held s" "ctrl_held (kb_push c ?s) = ctrl_held s"
    "scancodes (kb_push c ?s) = rest" "display (kb_push c ?s) = display s" for c
    by (simp_all add: kb_push_def Let_def display_def)
  have "kb_ok t \<and> typed t = typed s \<and> display t = display s"
    using ok kb_push_items [OF ok(1)] push assms(2,3) items
    unfolding t_def keyboard_handler_def typed_def
    by (simp add: Let_def display_def)
  then show "kb_ok t" "typed t = typed s" "display t = display s" by simp_all
qed

lemma getchar_typed:
  assumes "kb_ok s"
  shows "typed s = [] \<Longrightarrow> tty_getchar s = None"
    and "typed s = c # cs \<Longrightarrow> \<exists>t. tty_getchar s = Some (c, t) \<and> kb_ok t \<and> typed t = cs \<and> display t = display s"
proof -
  have "case typed s of [] \<Rightarrow> tty_getchar s = None
    | c # cs \<Rightarrow> \<exists>t. tty_getchar s = Some (c, t) \<and> kb_ok t \<and> typed t = cs \<and> display t = display s"
    using assms
  proof (induction s rule: tty_getchar.induct)
    case (1 s)
    show ?case
    proof (cases "kb_items s")
      case (Cons c cs)
      then obtain t where t: "kb_pop s = Some (c, t)" "kb_ok t" "kb_items t = cs"
        using kb_pop_items(2) [OF "1.prems"] by blast
      then have "t = s\<lparr>kb_tail := (kb_tail s + 1) mod KB_BUF_SIZE\<rparr>" by (auto simp: kb_pop_def split: if_splits)
      then have "typed t = cs @ decode (shift_held s) (ctrl_held s) (scancodes s)" "display t = display s"
        using t(3) by (simp_all add: typed_def display_def)
      with t(1,2) Cons show ?thesis by (subst tty_getchar.simps) (simp add: typed_def)
    next
      case Nil
      then have none: "kb_pop s = None" by (rule kb_pop_items(1) [OF "1.prems"])
      show ?thesis
      proof (cases "scancodes s")
        case Nil' : Nil
        with Nil none show ?thesis by (simp add: typed_def tty_getchar.simps)
      next
        case (Cons sc rest)
        note H = handler_typed [OF "1.prems" Nil Cons]
        have g: "tty_getchar s = tty_getchar (keyboard_handler sc (s\<lparr>scancodes := rest\<rparr>))"
          using none Cons by (subst tty_getchar.simps) simp
        show ?thesis
          using "1.IH" [OF none Cons H(1)] unfolding H(2,3) g .
      qed
    qed
  qed
  then show "typed s = [] \<Longrightarrow> tty_getchar s = None"
    "typed s = c # cs \<Longrightarrow> \<exists>t. tty_getchar s = Some (c, t) \<and> kb_ok t \<and> typed t = cs \<and> display t = display s"
    by simp_all
qed

section \<open>The line editor\<close>

lemma puts_displays:
  assumes "\<forall>c\<in>set xs. c \<noteq> 0 \<and> c \<noteq> 9" and "displays s T"
  shows "\<exists>t. tty_puts (xs @ [0]) s = Some t \<and> displays t (fold type_char xs T) \<and> serial t = serial s @ xs \<and> keyboard t = keyboard s"
  using assms
proof (induction xs arbitrary: s T)
  case (Cons c xs)
  obtain ls row col where T: "T = (ls, row, col)" by (cases T) auto
  obtain t where t: "tty_putchar c s = Some t" "displays t (type_char c T)" "serial t = serial s @ [c]" "keyboard t = keyboard s"
    unfolding T by (rule putchar_displays [of s ls row col c]) (use Cons.prems T in auto)
  with Cons.IH [OF _ t(2)] Cons.prems(1) show ?case by auto
qed simp

text \<open>
  What a line editor makes of the characters typed: the line (\<open>None\<close> for Ctrl-C), the characters it
  echoes, and the characters left; \<open>None\<close> when the line is not finished.
\<close>

fun edit :: "int \<Rightarrow> bytestr \<Rightarrow> bytestr \<Rightarrow> (bytestr option \<times> bytestr \<times> bytestr) option" where
  "edit maxlen line [] = None"
| "edit maxlen line (c # cs) =
     (if c = 10 \<or> c = 13 then Some (Some line, [10], cs)
      else if c = 8 \<and> line \<noteq> [] then map_option (\<lambda>(r, e, k). (r, 8 # e, k)) (edit maxlen (butlast line) cs)
      else if c = 3 then Some (None, map of_char ''^C'' @ [10], cs)
      else if 32 \<le> sint c \<and> int (length line) < maxlen - 1
        then map_option (\<lambda>(r, e, k). (r, c # e, k)) (edit maxlen (line @ [c]) cs)
      else edit maxlen line cs)"

definition line_in :: "bytestr option \<Rightarrow> int \<Rightarrow> bytestr \<Rightarrow> bool" where
  "line_in r n buf \<longleftrightarrow> (case r of None \<Rightarrow> n = - 1 \<and> buf ! 0 = 0
     | Some l \<Rightarrow> n = int (length l) \<and> take (Suc (length l)) buf = l @ [0])"

lemma readline_edits:
  assumes "kb_ok s" and "displays s T" and "1 \<le> maxlen" and "maxlen \<le> int (length buf)"
    and "take (length line) buf = line" and "int (length line) \<le> maxlen - 1"
  shows "case edit maxlen line (typed s) of None \<Rightarrow> readline_loop (length line) maxlen buf s = None
    | Some (r, e, k) \<Rightarrow> \<exists>n buf' t. readline_loop (length line) maxlen buf s = Some (n, buf', t) \<and> kb_ok t \<and> typed t = k
        \<and> serial t = serial s @ e \<and> displays t (fold type_char e T) \<and> length buf' = length buf
        \<and> drop (nat maxlen) buf' = drop (nat maxlen) buf \<and> line_in r n buf'"
  using assms
proof (induction "typed s" arbitrary: s T buf line)
  case Nil
  then have "tty_getchar s = None" by (intro getchar_typed(1)) simp_all
  with Nil.hyps show ?case by (subst readline_loop.simps) (simp flip: Nil.hyps)
next
  case (Cons c cs)
  obtain ls row col where T: "T = (ls, row, col)" by (cases T) auto
  obtain t where t: "tty_getchar s = Some (c, t)" "kb_ok t" "typed t = cs" "display t = display s"
    using getchar_typed(2) [OF Cons.prems(1) Cons.hyps(2) [symmetric]] by blast
  have dt: "displays t T" "serial t = serial s" using display_cong [OF t(4)] Cons.prems(2) by simp_all
  have put: "\<exists>u. tty_putchar d t = Some u \<and> displays u (type_char d T) \<and> serial u = serial s @ [d] \<and> kb_ok u \<and> typed u = cs"
    if d: "d \<noteq> 9" for d
  proof -
    obtain u where "tty_putchar d t = Some u" "displays u (type_char d T)" "serial u = serial t @ [d]" "keyboard u = keyboard t"
      unfolding T by (rule putchar_displays [of t ls row col d]) (use dt T d in auto)
    then show ?thesis using keyboard_cong t(2,3) dt(2) by metis
  qed
  have i: "length line < length buf" "length line < nat maxlen" using Cons.prems(3,4,6) by linarith+
  note ty = Cons.hyps(2) [symmetric]
  consider "c = 10 \<or> c = 13" | "c = 8" "line \<noteq> []" | "c = 3"
    | "c \<noteq> 10" "c \<noteq> 13" "c \<noteq> 8 \<or> line = []" "c \<noteq> 3" "32 \<le> sint c \<and> int (length line) < maxlen - 1"
    | "c \<noteq> 10" "c \<noteq> 13" "c \<noteq> 8 \<or> line = []" "c \<noteq> 3" "\<not> (32 \<le> sint c \<and> int (length line) < maxlen - 1)"
    by blast
  then show ?case
  proof cases
    case 1
    obtain u where u: "tty_putchar 10 t = Some u" "displays u (type_char 10 T)" "serial u = serial s @ [10]" "kb_ok u" "typed u = cs"
      using put [of 10] by auto
    have "readline_loop (length line) maxlen buf s = Some (int (length line), buf[length line := 0], u)"
      using t(1) 1 u(1) i by (subst readline_loop.simps) (simp add: buf_set_def)
    moreover have "line_in (Some line) (int (length line)) (buf[length line := 0])"
      using Cons.prems(5) i by (simp add: line_in_def take_Suc_conv_app_nth)
    ultimately show ?thesis using 1 u i ty by auto
  next
    case 2
    obtain u where u: "tty_putchar 8 t = Some u" "displays u (type_char 8 T)" "serial u = serial s @ [8]" "kb_ok u" "typed u = cs"
      using put [of 8] by auto
    have "readline_loop (length line) maxlen buf s = readline_loop (length (butlast line)) maxlen buf u"
      using t(1) 2 u(1) by (subst readline_loop.simps) simp
    moreover have "take (length (butlast line)) buf = butlast line"
      using Cons.prems(5) by (metis butlast_conv_take length_butlast take_take min.absorb1 diff_le_self)
    moreover have "int (length (butlast line)) \<le> maxlen - 1" using Cons.prems(6) by simp
    moreover note Cons.hyps(1) [OF u(5) [symmetric] u(4,2) Cons.prems(3,4), of "butlast line"]
    ultimately show ?thesis using 2 u ty by (auto split: option.splits)
  next
    case 3
    obtain u where u: "tty_puts (map of_char ''^C'' @ [10, 0]) t = Some u"
      "displays u (fold type_char (map of_char ''^C'' @ [10]) T)"
      "serial u = serial t @ (map of_char ''^C'' @ [10])" "keyboard u = keyboard t"
      using puts_displays [of "map of_char ''^C'' @ [10]" t T] dt(1) by auto
    have "readline_loop (length line) maxlen buf s = Some (- 1, buf[0 := 0], u)"
      using t(1) 3 u(1) i by (subst readline_loop.simps) (auto simp: buf_set_def simp del: tty_puts.simps)
    moreover have "line_in None (- 1) (buf[0 := 0])" "0 < nat maxlen" using i by (cases buf; simp add: line_in_def)+
    ultimately show ?thesis using 3 u(2-4) ty dt(2) keyboard_cong [OF u(4)] t(2,3) by auto
  next
    case 4
    then have "c \<noteq> 9" by auto
    then obtain u where u: "tty_putchar c t = Some u" "displays u (type_char c T)" "serial u = serial s @ [c]" "kb_ok u" "typed u = cs"
      using put [of c] by auto
    let ?buf = "buf[length line := c]"
    have "readline_loop (length line) maxlen buf s = readline_loop (length (line @ [c])) maxlen ?buf u"
      using t(1) 4 u(1) i by (subst readline_loop.simps) (auto simp: buf_set_def)
    moreover have "take (length (line @ [c])) ?buf = line @ [c]"
      using Cons.prems(5) i by (simp add: take_Suc_conv_app_nth)
    moreover have "int (length (line @ [c])) \<le> maxlen - 1" using 4(5) by simp
    moreover have "maxlen \<le> int (length ?buf)" using Cons.prems(4) by simp
    moreover have "drop (nat maxlen) ?buf = drop (nat maxlen) buf" using i(2) by simp
    moreover note Cons.hyps(1) [OF u(5) [symmetric] u(4,2) Cons.prems(3), of ?buf "line @ [c]"]
    ultimately show ?thesis using 4 u ty by (auto split: option.splits)
  next
    case 5
    have "readline_loop (length line) maxlen buf s = readline_loop (length line) maxlen buf t"
      using t(1) 5 by (subst readline_loop.simps) auto
    moreover have "edit maxlen line (typed s) = edit maxlen line (typed t)"
      unfolding ty t(3) using 5 by auto
    moreover note Cons.hyps(1) [OF t(3) [symmetric] t(2) dt(1) Cons.prems(3-6)]
    ultimately show ?thesis using dt(2) by (simp split: option.split_asm)
  qed
qed

section \<open>Properties\<close>

text \<open>An empty screen and an empty keyboard.\<close>

definition fresh_tty :: "u8 list \<Rightarrow> tty" where
  "fresh_tty scs = \<lparr>vga = replicate 2000 blank, cur_col = 0, cur_row = 0, vga_cursor = 0, serial = [],
     kb_buf = replicate 256 0, kb_head = 0, kb_tail = 0, shift_held = False, ctrl_held = False, scancodes = scs\<rparr>"

lemma blank_page: "page (replicate 25 blank_line)" "concat (replicate 25 blank_line) = replicate 2000 blank"
proof -
  have "concat (replicate n (replicate k b)) = replicate (n * k) b" for n k and b :: u16
    by (induction n) (simp_all add: replicate_add)
  from this [of 25 80 blank] show "concat (replicate 25 blank_line) = replicate 2000 blank" by (simp add: blank_line_def)
  show "page (replicate 25 blank_line)" by (simp add: page_def blank_line_def)
qed

lemma fresh_tty: "displays (fresh_tty scs) (replicate 25 blank_line, 0, 0)" "kb_ok (fresh_tty scs)"
  "typed (fresh_tty scs) = decode False False scs" "kb_items (fresh_tty scs) = []"
  by (simp_all add: displays_def fresh_tty_def blank_page kb_ok_def typed_def kb_items_def kb_count_def)

text \<open>
  C18. \<^verbatim>\<open>tty_putchar\<close> is the terminal: on a screen of 25 lines of 80 cells it does to the lines and the
  cursor what \<open>type_char\<close> says, newline, return, backspace, tab, wrap at the end of a line and scroll
  at the end of the screen included; it keeps the cursor on the screen, sets the VGA cursor to it and
  sends the character over the serial line. A tab has to start before column 72.
\<close>

theorem tty_putchar_refines_terminal:
  assumes "displays s (ls, row, col)" and "c = 9 \<longrightarrow> col < 72"
  shows "\<exists>t. tty_putchar c s = Some t \<and> displays t (type_char c (ls, row, col)) \<and> serial t = serial s @ [c]
    \<and> vga_cursor t = of_nat (cur_row t * 80 + cur_col t) \<and> keyboard t = keyboard s"
  by (rule putchar_displays [OF assms]) blast

theorem tty_putchar_refines_terminal_witness:
  "\<exists>t. tty_putchar 65 (fresh_tty []) = Some t
     \<and> displays t (set_cell 0 0 (cell 65) (replicate 25 blank_line), 0, 1)"
  using tty_putchar_refines_terminal [OF fresh_tty(1), of 65 "[]"] by (auto simp: type_char_def)

text \<open>
  A tab in the last eight columns leaves the cursor in column 80, outside the screen: on the last
  line the next character that is not a newline, a return or a backspace, another tab included, is
  written past the end of the VGA page.
\<close>

theorem tty_tab_leaves_screen:
  assumes "displays s (ls, 24, col)" and "72 \<le> col" and "c \<notin> {8, 10, 13}"
  shows "\<exists>t. tty_putchar 9 s = Some t \<and> cur_col t = 80 \<and> tty_putchar c t = None"
proof -
  let ?s = "serial_write 9 s"
  have D: "vga ?s = concat ls" "page ls" "cur_row ?s = 24" "(24 :: nat) < 25" "cur_col ?s = col" "col < 80"
    using assms(1) by (simp_all add: displays_def serial_write_def)
  have "(col + 8) div 8 = 10" using assms(2) D(6) by (intro div_nat_eqI) simp_all
  then have nx: "(col + 8) div 8 * 8 = 80" by simp
  define t where "t = vga_update_cursor (?s\<lparr>vga := concat (fold (\<lambda>i. set_cell 24 i blank) [col..<80] ls), cur_col := 80\<rparr>)"
  have "tty_putchar 9 s = Some t"
    using D(5,6) nx tab_loop [OF D(1-5), of 80] by (simp add: tty_putchar_def Let_def t_def)
  moreover have len: "length (vga t) = 2000" "cur_col t = 80" "cur_row t = 24"
    using page_length [OF page_fold_set_cell [OF D(2,4)]] D(3) by (simp_all add: t_def vga_update_cursor_def)
  have "vga_set 2000 v (u\<lparr>vga := vga t\<rparr>) = None" for u v using len by (simp add: vga_set_def)
  then have "vga_set 2000 v (serial_write c t) = None" for v using len by (simp add: vga_set_def serial_write_def)
  then have "tty_putchar c t = None"
    using assms(3) len by (auto simp: tty_putchar_def Let_def serial_write_def for_range_step vga_set_def)
  ultimately show ?thesis using len(2) by blast
qed

theorem tty_tab_leaves_screen_witness:
  "\<exists>s t. displays s (replicate 25 blank_line, 24, 72) \<and> tty_putchar 9 s = Some t \<and> tty_putchar 65 t = None"
proof -
  have "displays (fresh_tty []\<lparr>cur_row := 24, cur_col := 72\<rparr>) (replicate 25 blank_line, 24, 72)"
    using fresh_tty(1) by (simp add: displays_def)
  from this tty_tab_leaves_screen [OF this, of 65] show ?thesis by auto
qed

text \<open>
  C19. The keyboard buffer is a first-in first-out queue of 255 characters: after any keys have been
  pushed into the empty buffer, exactly the first 255 of them come out, in order, and then nothing;
  what arrives while the buffer is full is dropped without touching the rest.
\<close>

theorem keyboard_buffer_fifo:
  assumes "kb_ok s" and "kb_items s = []"
  shows "\<exists>t. take_out kb_pop (min 255 (length xs)) (fold kb_push xs s) = Some (take 255 xs, t) \<and> kb_pop t = None"
  using kbq.fifo [OF assms, of xs] by blast

theorem keyboard_buffer_fifo_witness:
  "\<exists>t. take_out kb_pop 255 (fold kb_push (replicate 300 65) (fresh_tty [])) = Some (replicate 255 65, t)"
  using keyboard_buffer_fifo [OF fresh_tty(2,4), of "replicate 300 65" "[]"] by auto

text \<open>
  C20. \<^verbatim>\<open>tty_readline\<close> is the line editor \<open>edit\<close> on the characters typed: it returns exactly when they
  finish a line, with its length and its text terminated in the buffer (-1 and an empty string for
  Ctrl-C), it never writes outside the first \<open>maxlen\<close> bytes, the screen and the serial line show
  exactly the echo, and the characters after the end of the line stay for the next read.
\<close>

theorem tty_readline_edits_line:
  assumes "kb_ok s" and "displays s T" and "1 \<le> maxlen" and "maxlen \<le> int (length buf)"
  shows "case edit maxlen [] (typed s) of None \<Rightarrow> tty_readline buf maxlen s = None
    | Some (r, e, k) \<Rightarrow> \<exists>n buf' t. tty_readline buf maxlen s = Some (n, buf', t) \<and> typed t = k
        \<and> serial t = serial s @ e \<and> displays t (fold type_char e T) \<and> length buf' = length buf
        \<and> drop (nat maxlen) buf' = drop (nat maxlen) buf \<and> line_in r n buf'"
proof -
  have "take (length ([] :: bytestr)) buf = []" "int (length ([] :: bytestr)) \<le> maxlen - 1" using assms(3) by simp_all
  from readline_edits [OF assms this] show ?thesis
    by (auto simp: tty_readline_def split: option.splits)
qed

text \<open>The keys h, i, i, backspace, return.\<close>

theorem tty_readline_edits_line_witness:
  "\<exists>buf' t. tty_readline (replicate 16 1) 16 (fresh_tty [0x23, 0x17, 0x17, 0x0E, 0x1C]) = Some (2, buf', t)
     \<and> take 3 buf' = map of_char ''hi'' @ [0]"
proof -
  let ?s = "fresh_tty [0x23, 0x17, 0x17, 0x0E, 0x1C]"
  have "decode False False [0x23, 0x17, 0x17, 0x0E, 0x1C] = map of_char ''hii'' @ [8, 10]" by code_simp
  then have "typed ?s = map of_char ''hii'' @ [8, 10]" by (simp only: fresh_tty(3))
  moreover have "edit 16 [] (map of_char ''hii'' @ [8, 10])
      = Some (Some (map of_char ''hi''), map of_char ''hii'' @ [8, 10], [])" by code_simp
  ultimately show ?thesis
    using tty_readline_edits_line [OF fresh_tty(2,1), of 16 "replicate 16 1" "[0x23, 0x17, 0x17, 0x0E, 0x1C]"]
    by (auto simp: line_in_def numeral_3_eq_3)
qed

text \<open>The two character tables have the size the C initialisers give them.\<close>

lemma sc_table_sizes: "length sc_normal = 59" "length sc_shift = 59"
  by code_simp+

end
