(* ===== verification/Vfs.thy ===== *)
theory Vfs
  imports Ramfs Tty
begin

text \<open>
  The virtual file system, \<^verbatim>\<open>fs/vfs.c\<close>: the tree that paths are looked up in, mount points, and the
  open files with their offset and reference count. The state extends that of the ramfs with the
  root, the static node of the terminal and the terminal itself, and the open files, which are
  objects of the heap; the address 0 is NULL. A node's operations are those of its file system:
  a node of the ramfs has all of them, the terminal \<^verbatim>\<open>read\<close> and \<^verbatim>\<open>write\<close> only.
\<close>

unbundle bit_operations_syntax

section \<open>State\<close>

record file_t =
  foffset :: u32
  fvnode :: vptr
  fflags :: u32
  fref :: u32

text \<open>\<open>status\<close> is the value of the variable \<^verbatim>\<open>serial_putchar\<close> never sets.\<close>

record vfs = fs +
  vfs_root :: "vptr option"
  tty_vnode :: vnode
  console :: tty
  status :: u8
  files :: "u32 \<Rightarrow> file_t option"

definition O_CREAT :: u32 where "O_CREAT = 0x40"
definition O_TRUNC :: u32 where "O_TRUNC = 0x200"
definition O_APPEND :: u32 where "O_APPEND = 0x400"
definition SEEK_SET :: u32 where "SEEK_SET = 0"
definition SEEK_CUR :: u32 where "SEEK_CUR = 1"
definition SEEK_END :: u32 where "SEEK_END = 2"

lemmas open_flags [err_defs] = O_CREAT_def O_TRUNC_def O_APPEND_def
lemmas seek_defs [err_defs] = SEEK_SET_def SEEK_CUR_def SEEK_END_def

text \<open>\<^verbatim>\<open>node->\<close>; a node of the ramfs that has been freed is \<open>None\<close>.\<close>

definition vnode_at :: "vptr \<Rightarrow> 'a vfs_scheme \<Rightarrow> vnode option" where
  "vnode_at v s = (case v of Ram a \<Rightarrow> map_option rvnode (nodes s a) | Tty \<Rightarrow> Some (tty_vnode s))"

definition upd_vnode :: "vptr \<Rightarrow> (vnode \<Rightarrow> vnode) \<Rightarrow> 'a vfs_scheme \<Rightarrow> 'a vfs_scheme" where
  "upd_vnode v f s = (case v of Ram a \<Rightarrow> upd_node a (\<lambda>n. n\<lparr>rvnode := f (rvnode n)\<rparr>) s
     | Tty \<Rightarrow> s\<lparr>tty_vnode := f (tty_vnode s)\<rparr>)"

section \<open>Paths\<close>

abbreviation slash :: u8 where "slash \<equiv> 47"

text \<open>
  \<^verbatim>\<open>while (*path && *path != '/') part[i++] = *path++\<close>: the component and the rest of the path. It is
  copied into an array of 128 bytes, which \<open>vfs_walk\<close> checks.
\<close>

fun cut_part :: "bytestr \<Rightarrow> (bytestr \<times> bytestr) option" where
  "cut_part [] = None"
| "cut_part (c # path) =
     (if c = 0 \<or> c = slash then Some ([], c # path)
      else map_option (\<lambda>(part, rest). (c # part, rest)) (cut_part path))"

text \<open>\<^verbatim>\<open>if (*path == '/') path++\<close>\<close>

fun skip_slash :: "bytestr \<Rightarrow> bytestr" where
  "skip_slash [] = []"
| "skip_slash (c # path) = (if c = slash then path else c # path)"

definition dot :: bytestr where "dot = [46, 0]"
definition dotdot :: bytestr where "dotdot = [46, 46, 0]"

text \<open>\<^verbatim>\<open>node->ops->finddir\<close>, with NULL for a node that has no such operation.\<close>

definition finddir :: "vptr \<Rightarrow> bytestr \<Rightarrow> 'a vfs_scheme \<Rightarrow> vptr option option" where
  "finddir v name s = (case v of Ram a \<Rightarrow> ramfs_finddir a name s | Tty \<Rightarrow> Some None)"

text \<open>\<^verbatim>\<open>if (node->mount_point) node = node->mount_point\<close>\<close>

definition cross :: "vptr \<Rightarrow> 'a vfs_scheme \<Rightarrow> vptr option" where
  "cross v s = do { n \<leftarrow> vnode_at v s; Some (case mount_point n of None \<Rightarrow> v | Some m \<Rightarrow> m) }"

lemma cut_part_length: "cut_part p = Some (x, r) \<Longrightarrow> length p = length x + length r"
  by (induction p arbitrary: x r) (auto split: if_splits)

lemma cut_part_head: "cut_part p = Some ([], r) \<Longrightarrow> r = p \<and> p \<noteq> [] \<and> (hd p = 0 \<or> hd p = slash)"
  by (cases p) (auto split: if_splits)

lemma cut_part_less:
  assumes "cut_part p = Some (x, r)" and "hd p \<noteq> 0"
  shows "length (skip_slash r) < length p"
proof (cases x)
  case Nil
  then have "r = p" "p \<noteq> []" "hd p = slash" using cut_part_head assms by auto
  then show ?thesis by (cases p) simp_all
next
  case (Cons c y)
  have "length (skip_slash r) \<le> length r" by (cases r) simp_all
  with Cons cut_part_length [OF assms(1)] show ?thesis by simp
qed

text \<open>The loop over the components.\<close>

function vfs_walk :: "'a vfs_scheme \<Rightarrow> bytestr \<Rightarrow> vptr \<Rightarrow> vptr option option" where
  "vfs_walk s path node =
     (case path of [] \<Rightarrow> None
      | c # _ \<Rightarrow>
          if c = 0 then Some (Some node)
          else (case cut_part path of None \<Rightarrow> None
            | Some (part, rest) \<Rightarrow>
                if VFS_NAME_LEN \<le> length part then None
                else if part = [] then vfs_walk s (skip_slash rest) node
                else if strcmp (part @ [0]) dot = Some 0 then vfs_walk s (skip_slash rest) node
                else if strcmp (part @ [0]) dotdot = Some 0 then vfs_walk s (skip_slash rest) node
                else do {
                  node \<leftarrow> cross node s;
                  n \<leftarrow> finddir node (part @ [0]) s;
                  case n of None \<Rightarrow> Some None | Some node \<Rightarrow> vfs_walk s (skip_slash rest) node }))"
  by pat_completeness auto
termination
  by (relation "measure (\<lambda>(_, path, _). length path)") (auto simp del: cut_part.simps dest: cut_part_less)

declare vfs_walk.simps [simp del]

definition vfs_lookup :: "bytestr option \<Rightarrow> 'a vfs_scheme \<Rightarrow> vptr option option" where
  "vfs_lookup path s =
     (case path of None \<Rightarrow> Some None
      | Some path \<Rightarrow>
          (case vfs_root s of None \<Rightarrow> Some None
           | Some root \<Rightarrow> do {
               node \<leftarrow> vfs_walk s (skip_slash path) root;
               case node of None \<Rightarrow> Some None | Some node \<Rightarrow> map_option Some (cross node s) }))"

section \<open>Mounting\<close>

definition vfs_init :: "'a vfs_scheme \<Rightarrow> 'a vfs_scheme" where
  "vfs_init s = s\<lparr>vfs_root := None\<rparr>"

definition vfs_mount :: "bytestr \<Rightarrow> vptr \<Rightarrow> 'a vfs_scheme \<Rightarrow> (u32 \<times> 'a vfs_scheme) option" where
  "vfs_mount path fs_root s = do {
     d \<leftarrow> strcmp path [slash, 0];
     if d = 0 then Some (0, s\<lparr>vfs_root := Some fs_root\<rparr>)
     else do {
       node \<leftarrow> vfs_lookup (Some path) s;
       case node of None \<Rightarrow> Some (- ENOENT, s)
       | Some node \<Rightarrow> do {
           _ \<leftarrow> vnode_at node s;
           Some (0, upd_vnode node (\<lambda>n. n\<lparr>mount_point := Some fs_root\<rparr>) s) } }
   }"

definition vfs_get_root :: "'a vfs_scheme \<Rightarrow> vptr option" where
  "vfs_get_root s = vfs_root s"

section \<open>Open files\<close>

text \<open>\<^verbatim>\<open>while (slash > path && *slash != '/') slash--\<close>, from offset \<open>i\<close>.\<close>

fun last_slash :: "bytestr \<Rightarrow> nat \<Rightarrow> nat" where
  "last_slash path 0 = 0"
| "last_slash path (Suc i) = (if path ! Suc i = slash then Suc i else last_slash path i)"

text \<open>Creating a name in the parent and finding it; NULL when there is no parent that can.\<close>

definition create_at :: "vptr option \<Rightarrow> bytestr \<Rightarrow> 'a vfs_scheme \<Rightarrow> (vptr option \<times> 'a vfs_scheme) option" where
  "create_at parent fname s =
     (case parent of
        Some (Ram a) \<Rightarrow> do {
          (r, s) \<leftarrow> ramfs_create a fname VFS_FILE s;
          if sint r < 0 then Some (None, s)
          else do { node \<leftarrow> ramfs_finddir a fname s; Some (node, s) } }
      | _ \<Rightarrow> Some (None, s))"

text \<open>
  The branch of \<^verbatim>\<open>file_open\<close> that makes the file. For the empty path the search for the slash would
  start before the string; a parent of 256 bytes and more does not fit its array.
\<close>

definition create_path :: "bytestr \<Rightarrow> 'a vfs_scheme \<Rightarrow> (vptr option \<times> 'a vfs_scheme) option" where
  "create_path path s = do {
     len \<leftarrow> strlen path;
     if len = 0 then None
     else do {
       let sl = last_slash path (len - 1);
       let plen = (if sl = 0 then 1 else sl);
       if VFS_PATH_LEN \<le> plen then None
       else do {
         let parent_path = take plen path @ [0];
         parent \<leftarrow> vfs_lookup (Some (if 1 < plen then parent_path else [slash, 0])) s;
         create_at parent (if path ! sl = slash \<and> sl = 0 then drop 1 path else drop (sl + 1) path) s
       }
     }
   }"

text \<open>\<^verbatim>\<open>node->ops->truncate(node, 0)\<close>, for a node that has the operation.\<close>

definition vnode_truncate :: "vptr \<Rightarrow> 'a vfs_scheme \<Rightarrow> 'a vfs_scheme option" where
  "vnode_truncate v s = (case v of Ram a \<Rightarrow> map_option snd (ramfs_truncate a 0 s) | Tty \<Rightarrow> Some s)"

text \<open>The result is the address of the open file, or 0.\<close>

definition file_open :: "bytestr option \<Rightarrow> u32 \<Rightarrow> 'a vfs_scheme \<Rightarrow> (u32 \<times> 'a vfs_scheme) option" where
  "file_open path flags s = do {
     node \<leftarrow> vfs_lookup path s;
     (node, s) \<leftarrow> (case node of Some v \<Rightarrow> Some (Some v, s)
        | None \<Rightarrow> if flags AND O_CREAT = 0 then Some (None, s) else do { path \<leftarrow> path; create_path path s });
     case node of None \<Rightarrow> Some (0, s)
     | Some v \<Rightarrow> do {
         _ \<leftarrow> vnode_at v s;
         s \<leftarrow> (if flags AND O_TRUNC \<noteq> 0 then vnode_truncate v s else Some s);
         n \<leftarrow> vnode_at v s;
         (f, s) \<leftarrow> new_addr s;
         let off = (if flags AND O_APPEND \<noteq> 0 then vsize n else 0);
         let s = s\<lparr>files := (files s)(f \<mapsto> \<lparr>foffset = off, fvnode = v, fflags = flags, fref = 1\<rparr>)\<rparr>;
         Some (f, upd_vnode v (\<lambda>n. n\<lparr>ref_count := ref_count n + 1\<rparr>) s) }
   }"

definition file_close :: "u32 \<Rightarrow> 'a vfs_scheme \<Rightarrow> (u32 \<times> 'a vfs_scheme) option" where
  "file_close f s =
     (if f = 0 then Some (- EBADF, s)
      else do {
        h \<leftarrow> files s f;
        let h = h\<lparr>fref := fref h - 1\<rparr>;
        if sint (fref h) \<le> 0
        then do {
          _ \<leftarrow> vnode_at (fvnode h) s;
          let s = upd_vnode (fvnode h) (\<lambda>n. n\<lparr>ref_count := ref_count n - 1\<rparr>) s;
          Some (0, s\<lparr>files := (files s)(f := None)\<rparr>)
        } else Some (0, s\<lparr>files := (files s)(f \<mapsto> h)\<rparr>)
      })"

text \<open>\<^verbatim>\<open>f->offset += n\<close>; the overflow of an \<^verbatim>\<open>off_t\<close>, a signed int, is undefined.\<close>

definition add_off :: "u32 \<Rightarrow> u32 \<Rightarrow> u32 option" where
  "add_off off n = (if in_int (sint off + sint n) then Some (off + n) else None)"

definition advance :: "u32 \<Rightarrow> u32 \<Rightarrow> 'a vfs_scheme \<Rightarrow> 'a vfs_scheme option" where
  "advance f n s =
     (if 0 < sint n
      then do { h \<leftarrow> files s f; off \<leftarrow> add_off (foffset h) n; Some (s\<lparr>files := (files s)(f \<mapsto> h\<lparr>foffset := off\<rparr>)\<rparr>) }
      else Some s)"

text \<open>The read operations: the return value, and the contents of the buffer of the caller afterwards.\<close>

definition vnode_read :: "vptr \<Rightarrow> u32 \<Rightarrow> u32 \<Rightarrow> bytestr \<Rightarrow> 'a vfs_scheme \<Rightarrow> (u32 \<times> bytestr \<times> 'a vfs_scheme) option" where
  "vnode_read v off sz buf s =
     (case v of
        Ram a \<Rightarrow> do {
          (n, bs) \<leftarrow> ramfs_read a off sz s;
          if length bs \<le> length buf then Some (n, bs @ drop (length bs) buf, s) else None }
      | Tty \<Rightarrow> do {
          (n, buf, t) \<leftarrow> tty_vfs_read buf (unat sz) (console s);
          Some (of_nat n, buf, s\<lparr>console := t\<rparr>) })"

definition vnode_write :: "vptr \<Rightarrow> u32 \<Rightarrow> u32 \<Rightarrow> bytestr \<Rightarrow> 'a vfs_scheme \<Rightarrow> (u32 \<times> 'a vfs_scheme) option" where
  "vnode_write v off sz buf s =
     (case v of
        Ram a \<Rightarrow> ramfs_write a off sz buf s
      | Tty \<Rightarrow> do { (n, t) \<leftarrow> tty_vfs_write (status s) sz buf (console s); Some (n, s\<lparr>console := t\<rparr>) })"

definition file_read :: "u32 \<Rightarrow> bytestr \<Rightarrow> u32 \<Rightarrow> 'a vfs_scheme \<Rightarrow> (u32 \<times> bytestr \<times> 'a vfs_scheme) option" where
  "file_read f buf sz s =
     (if f = 0 then Some (- EBADF, buf, s)
      else do {
        h \<leftarrow> files s f;
        _ \<leftarrow> vnode_at (fvnode h) s;
        (n, buf, s) \<leftarrow> vnode_read (fvnode h) (foffset h) sz buf s;
        s \<leftarrow> advance f n s;
        Some (n, buf, s)
      })"

definition file_write :: "u32 \<Rightarrow> bytestr \<Rightarrow> u32 \<Rightarrow> 'a vfs_scheme \<Rightarrow> (u32 \<times> 'a vfs_scheme) option" where
  "file_write f buf sz s =
     (if f = 0 then Some (- EBADF, s)
      else do {
        h \<leftarrow> files s f;
        _ \<leftarrow> vnode_at (fvnode h) s;
        (n, s) \<leftarrow> vnode_write (fvnode h) (foffset h) sz buf s;
        s \<leftarrow> advance f n s;
        Some (n, s)
      })"

definition file_readdir :: "u32 \<Rightarrow> u32 \<Rightarrow> bytestr \<Rightarrow> 'a vfs_scheme \<Rightarrow> (u32 \<times> bytestr) option" where
  "file_readdir f idx name_out s =
     (if f = 0 then Some (- EBADF, name_out)
      else do {
        h \<leftarrow> files s f;
        case fvnode h of Tty \<Rightarrow> Some (- EBADF, name_out) | Ram a \<Rightarrow> ramfs_readdir a idx name_out s
      })"

definition file_seek :: "u32 \<Rightarrow> u32 \<Rightarrow> u32 \<Rightarrow> 'a vfs_scheme \<Rightarrow> (u32 \<times> 'a vfs_scheme) option" where
  "file_seek f off whence s =
     (if f = 0 then Some (- EBADF, s)
      else do {
        h \<leftarrow> files s f;
        new \<leftarrow> (if whence = SEEK_SET then Some off
                else if whence = SEEK_CUR then add_off (foffset h) off
                else if whence = SEEK_END then do { n \<leftarrow> vnode_at (fvnode h) s; add_off (vsize n) off }
                else Some (foffset h));
        Some (new, s\<lparr>files := (files s)(f \<mapsto> h\<lparr>foffset := new\<rparr>)\<rparr>)
      })"

text \<open>\<open>st\<close> is the structure of the caller, \<open>None\<close> for NULL.\<close>

definition file_stat :: "u32 \<Rightarrow> stat option \<Rightarrow> 'a vfs_scheme \<Rightarrow> (u32 \<times> stat option) option" where
  "file_stat f st s =
     (case st of None \<Rightarrow> Some (- EBADF, None)
      | Some buf \<Rightarrow>
          if f = 0 then Some (- EBADF, st)
          else do {
            h \<leftarrow> files s f;
            case fvnode h of
              Ram a \<Rightarrow> do { (r, buf) \<leftarrow> ramfs_stat a s; Some (r, Some buf) }
            | Tty \<Rightarrow> let n = tty_vnode s
                     in Some (0, Some (buf\<lparr>st_ino := vinode n, st_size := vsize n,
                          st_mode := (if vtype n = VFS_DIR then S_IFDIR else S_IFREG)\<rparr>)) })"

section \<open>Paths as lists of names\<close>

fun splits :: "bytestr \<Rightarrow> bytestr list" where
  "splits [] = [[]]"
| "splits (c # p) = (if c = slash then [] # splits p else (c # hd (splits p)) # tl (splits p))"

definition components :: "bytestr \<Rightarrow> bytestr list" where
  "components p = filter (\<lambda>x. x \<noteq> [] \<and> x \<noteq> [46] \<and> x \<noteq> [46, 46]) (splits p)"

lemma splits_nonempty [simp]: "splits p \<noteq> []"
  by (cases p) auto

lemma components_Nil [simp]: "components [] = []"
  by (simp add: components_def)

lemma components_slash: "components (slash # p) = components p"
  by (simp add: components_def)

lemma hd_splits_set: "set (hd (splits p)) \<subseteq> set p"
  by (induction p) auto

text \<open>What one step of the loop cuts off.\<close>

lemma cut_part_splits:
  assumes "c_string p path"
  obtains r q where "cut_part path = Some (hd (splits p), r)" "c_string q (skip_slash r)" "length q \<le> length p"
    "p \<noteq> [] \<Longrightarrow> length q < length p" "splits q = tl (splits p) \<or> q = [] \<and> tl (splits p) = []"
  using assms
proof (induction p arbitrary: path thesis)
  case Nil
  then obtain rest where "path = 0 # rest" by (auto simp: c_string_def)
  with Nil.prems(1) [of path "[]"] show ?case by (simp add: c_string_def)
next
  case (Cons c p)
  obtain tail where path: "path = c # tail" "c \<noteq> 0" "c_string p tail" using Cons.prems(2) by (auto simp: c_string_def)
  show ?case
  proof (cases "c = slash")
    case True
    show ?thesis by (rule Cons.prems(1) [of path p]) (use True path in simp_all)
  next
    case False
    obtain r q where "cut_part tail = Some (hd (splits p), r)" "c_string q (skip_slash r)" "length q \<le> length p"
      "splits q = tl (splits p) \<or> q = [] \<and> tl (splits p) = []"
      by (rule Cons.IH [OF _ path(3)]) blast
    then show ?thesis by (intro Cons.prems(1) [of r q]) (use False path in simp_all)
  qed
qed

lemma strcmp_dots:
  assumes "0 \<notin> set x"
  shows "strcmp (x @ [0]) dot = Some 0 \<longleftrightarrow> x = [46]" and "strcmp (x @ [0]) dotdot = Some 0 \<longleftrightarrow> x = [46, 46]"
proof -
  have "c_string x (x @ [0])" using assms by (rule c_string_terminated)
  moreover have "c_string [46] dot" "c_string [46, 46] dotdot" by (simp_all add: c_string_def dot_def dotdot_def)
  ultimately show "strcmp (x @ [0]) dot = Some 0 \<longleftrightarrow> x = [46]" "strcmp (x @ [0]) dotdot = Some 0 \<longleftrightarrow> x = [46, 46]"
    using strcmp_c by fastforce+
qed

section \<open>The tree\<close>

text \<open>The node a node leads to, itself or what is mounted on it; the entry of a name in a directory.\<close>

definition through :: "'a vfs_scheme \<Rightarrow> u32 \<Rightarrow> u32" where
  "through s a = (case nodes s a of None \<Rightarrow> a
     | Some n \<Rightarrow> (case mount_point (rvnode n) of Some (Ram b) \<Rightarrow> b | _ \<Rightarrow> a))"

definition entry :: "'a vfs_scheme \<Rightarrow> u32 \<Rightarrow> bytestr \<Rightarrow> u32 option" where
  "entry s a nm = (case nodes s a of None \<Rightarrow> None | Some n \<Rightarrow> if rtype n = VFS_DIR then dir_map a s nm else None)"

fun descend :: "'a vfs_scheme \<Rightarrow> u32 \<Rightarrow> bytestr list \<Rightarrow> u32 option" where
  "descend s a [] = Some a"
| "descend s a (nm # names) = (case entry s (through s a) nm of None \<Rightarrow> None | Some b \<Rightarrow> descend s b names)"

definition resolve :: "'a vfs_scheme \<Rightarrow> u32 \<Rightarrow> bytestr list \<Rightarrow> u32 option" where
  "resolve s a names = map_option (through s) (descend s a names)"

text \<open>The directories are well formed, and only live nodes of the ramfs are mounted.\<close>

definition tree_ok :: "'a vfs_scheme \<Rightarrow> bool" where
  "tree_ok s \<longleftrightarrow> (\<forall>a n. nodes s a = Some n \<longrightarrow> (rtype n = VFS_DIR \<longrightarrow> ramdir_ok a s)
     \<and> (case mount_point (rvnode n) of None \<Rightarrow> True | Some v \<Rightarrow> \<exists>b. v = Ram b \<and> nodes s b \<noteq> None))"

lemma cross_through:
  assumes "tree_ok s" and "nodes s a \<noteq> None"
  shows "cross (Ram a) s = Some (Ram (through s a))" and "nodes s (through s a) \<noteq> None"
proof -
  obtain n where n: "nodes s a = Some n" using assms(2) by blast
  with assms(1) have "case mount_point (rvnode n) of None \<Rightarrow> True | Some v \<Rightarrow> \<exists>b. v = Ram b \<and> nodes s b \<noteq> None"
    by (simp add: tree_ok_def)
  with n show "cross (Ram a) s = Some (Ram (through s a))" "nodes s (through s a) \<noteq> None"
    by (auto simp: cross_def vnode_at_def through_def split: option.splits)
qed

lemma finddir_entry:
  assumes "tree_ok s" and "nodes s a \<noteq> None" and "0 \<notin> set nm"
  shows "finddir (Ram a) (nm @ [0]) s = Some (map_option Ram (entry s a nm))"
proof -
  obtain n where n: "nodes s a = Some n" using assms(2) by blast
  show ?thesis
  proof (cases "rtype n = VFS_DIR")
    case True
    with assms(1) n have "ramdir_ok a s" by (simp add: tree_ok_def)
    from finddir_map [OF this c_string_terminated [OF assms(3)]] n True show ?thesis by (simp add: finddir_def entry_def)
  next
    case False
    with n show ?thesis by (simp add: finddir_def entry_def ramfs_finddir_def)
  qed
qed

lemma entry_live:
  assumes "tree_ok s" and "entry s a nm = Some b"
  shows "nodes s b \<noteq> None"
proof -
  obtain n where n: "nodes s a = Some n" "rtype n = VFS_DIR" "dir_map a s nm = Some b"
    using assms(2) by (auto simp: entry_def split: option.splits if_splits)
  then have ok: "ramdir_ok a s" using assms(1) by (simp add: tree_ok_def)
  have "distinct (map (cname s) (kids s a))" "\<forall>c\<in>set (kids s a). child_ok s c" using ok by (simp_all add: ramdir_ok_def)
  then show ?thesis using n(3) dir_map_iff by (fastforce simp: child_ok_def)
qed

lemma walk_descend:
  assumes "tree_ok s" and "nodes s a \<noteq> None" and "c_string p path" and "\<forall>x\<in>set (splits p). length x < 128"
  shows "vfs_walk s path (Ram a) = Some (map_option Ram (descend s a (components p)))"
    and "descend s a (components p) = Some b \<Longrightarrow> nodes s b \<noteq> None"
proof -
  have "vfs_walk s path (Ram a) = Some (map_option Ram (descend s a (components p)))
    \<and> (\<forall>b. descend s a (components p) = Some b \<longrightarrow> nodes s b \<noteq> None)"
    using assms(2-4)
  proof (induction p arbitrary: path a rule: measure_induct_rule [where f = length])
    case (less p)
    show ?case
    proof (cases "p = []")
      case True
      then obtain rest where "path = 0 # rest" using less.prems(2) by (auto simp: c_string_def)
      with True less.prems(1) show ?thesis by (simp add: vfs_walk.simps)
    next
      case False
      then obtain c tail where path: "path = c # tail" "c \<noteq> 0" using less.prems(2) by (cases p) (auto simp: c_string_def)
      obtain r q where q: "cut_part path = Some (hd (splits p), r)" "c_string q (skip_slash r)" "length q < length p"
        "splits q = tl (splits p) \<or> q = [] \<and> tl (splits p) = []"
        by (rule cut_part_splits [OF less.prems(2)]) (use False in blast)
      let ?x = "hd (splits p)"
      obtain y ys where sp: "splits p = y # ys" by (cases "splits p") simp_all
      have comp: "components p = (if ?x \<noteq> [] \<and> ?x \<noteq> [46] \<and> ?x \<noteq> [46, 46] then [?x] else []) @ components q"
        using q(4) by (auto simp: components_def sp)
      have short: "length ?x < 128" "\<forall>x\<in>set (splits q). length x < 128"
        using less.prems(3) q(4) by (auto simp: sp)
      have zero: "0 \<notin> set ?x" using hd_splits_set [of p] less.prems(2) by (auto simp: c_string_def)
      note IH = less.IH [OF q(3) _ q(2) short(2)]
      have part: "cut_part (c # tail) = Some (?x, r)" "\<not> VFS_NAME_LEN \<le> length ?x"
        using q(1) path short(1) by (simp_all add: VFS_NAME_LEN_def)
      note unfold = vfs_walk.simps [of s path "Ram a", unfolded path(1) list.case part(1) option.case prod.case]
      show ?thesis
      proof (cases "?x = [] \<or> ?x = [46] \<or> ?x = [46, 46]")
        case True
        then have "vfs_walk s path (Ram a) = vfs_walk s (skip_slash r) (Ram a)"
          unfolding path(1) unfold using path(2) part(2) strcmp_dots [OF zero] by (auto simp: dot_def dotdot_def)
        moreover have "components p = components q" using comp True by auto
        ultimately show ?thesis using IH [OF less.prems(1)] by simp
      next
        case False
        then have c: "components p = ?x # components q" using comp by auto
        have walk: "vfs_walk s path (Ram a) = Option.bind (cross (Ram a) s) (\<lambda>node. Option.bind (finddir node (?x @ [0]) s)
            (\<lambda>n. case n of None \<Rightarrow> Some None | Some node \<Rightarrow> vfs_walk s (skip_slash r) node))"
          unfolding path(1) unfold using False path(2) part(2) strcmp_dots [OF zero] by simp
        note cr = cross_through [OF assms(1) less.prems(1)]
        note fd = finddir_entry [OF assms(1) cr(2) zero]
        show ?thesis
        proof (cases "entry s (through s a) ?x")
          case None
          then show ?thesis unfolding walk cr(1) c by (simp add: fd)
        next
          case (Some b)
          then show ?thesis unfolding walk cr(1) c using IH [OF entry_live [OF assms(1) Some]] by (simp add: fd)
        qed
      qed
    qed
  qed
  then show "vfs_walk s path (Ram a) = Some (map_option Ram (descend s a (components p)))"
    and "descend s a (components p) = Some b \<Longrightarrow> nodes s b \<noteq> None" by blast+
qed


lemma lookup_some:
  assumes "tree_ok s" and "vfs_root s = Some (Ram r)" and "nodes s r \<noteq> None"
    and "c_string p path" and "\<forall>x\<in>set (splits p). length x < 128"
  shows "vfs_lookup (Some path) s = Some (map_option Ram (resolve s r (components p)))"
proof -
  obtain q where q: "c_string q (skip_slash path)" "components q = components p" "\<forall>x\<in>set (splits q). length x < 128"
  proof (cases "\<exists>q. p = slash # q")
    case True
    then obtain q where p: "p = slash # q" by blast
    then have "c_string q (skip_slash path)" using assms(4) by (auto simp: c_string_def)
    with p assms(5) show ?thesis by (intro that [of q]) (simp_all add: components_slash)
  next
    case False
    then have "skip_slash path = path" using assms(4) by (cases p) (auto simp: c_string_def)
    with assms(4,5) show ?thesis by (intro that [of p]) simp_all
  qed
  note w = walk_descend [OF assms(1,3) q(1,3)]
  show ?thesis
    using w(1) w(2) cross_through(1) [OF assms(1)] assms(2) q(2)
    by (auto simp: vfs_lookup_def resolve_def split: option.split)
qed

text \<open>What a node has that the tree depends on.\<close>

definition shape :: "'a fs_scheme \<Rightarrow> u32 \<Rightarrow> (bytestr \<times> u32 \<times> u32 list) option" where
  "shape s x = map_option (\<lambda>n. (rname n, rtype n, children n)) (nodes s x)"

lemma same_shape:
  assumes "\<And>x. shape t x = shape s x"
  shows "ramdir_ok a t = ramdir_ok a s" and "dir_map a t = dir_map a s"
proof -
  have "cname t c = cname s c \<and> child_ok t c = child_ok s c \<and> kids t c = kids s c" for c
    using assms [of c] by (auto simp: shape_def cname_def child_ok_def kids_def split: option.splits)
  then have eq: "cname t = cname s" "child_ok t = child_ok s" "kids t = kids s" by auto
  have "(\<exists>n. nodes t a = Some n \<and> rtype n = VFS_DIR) = (\<exists>n. nodes s a = Some n \<and> rtype n = VFS_DIR)"
    using assms [of a] by (cases "nodes t a"; cases "nodes s a") (auto simp: shape_def)
  then show "ramdir_ok a t = ramdir_ok a s" by (simp only: ramdir_ok_def eq)
  show "dir_map a t = dir_map a s" by (simp only: dir_map_def eq)
qed

section \<open>Properties\<close>

text \<open>
  C14. \<^verbatim>\<open>vfs_lookup\<close> walks the tree: on a path whose parts are shorter than 128 bytes it returns, and
  gives the node reached from the root through the entries its parts name, crossing the mount point
  of every node on the way, or NULL when an entry is missing or a file is used as a directory. Empty
  parts, \<^verbatim>\<open>.\<close> and \<^verbatim>\<open>..\<close> are left out, and a leading slash makes no difference.
\<close>

theorem vfs_lookup_resolves:
  assumes "tree_ok s" and "vfs_root s = Some (Ram r)" and "nodes s r \<noteq> None"
    and "c_string p path" and "\<forall>x\<in>set (splits p). length x < 128"
  shows "vfs_lookup (Some path) s = Some (map_option Ram (resolve s r (components p)))"
  by (rule lookup_some [OF assms])

lemma sint_small: "unat x < 2147483648 \<Longrightarrow> sint x = int (unat x)" for x :: u32
proof -
  assume "unat x < 2147483648"
  moreover have u: "int (unat x) = uint x" by simp
  ultimately have "uint x < 2147483648" by linarith
  moreover have "- 2147483648 \<le> uint x" using uint_ge_0 [of x] by linarith
  ultimately show ?thesis unfolding u by (simp add: sint_uint signed_take_bit_int_eq_self_iff)
qed

text \<open>The selectors of the extension.\<close>

lemma more_eq:
  assumes "fs.more t = fs.more (s :: 'a vfs_scheme)"
  shows "vfs_root t = vfs_root s" "tty_vnode t = tty_vnode s" "console t = console s" "status t = status s" "files t = files s"
proof -
  have "t = s\<lparr>nodes := nodes t, next_inode := next_inode t, fresh := fresh t, stale := stale t\<rparr>"
    by (rule fs.equality) (simp_all add: assms)
  then obtain m i f j where t: "t = s\<lparr>nodes := m, next_inode := i, fresh := f, stale := j\<rparr>" by blast
  show "vfs_root t = vfs_root s" "tty_vnode t = tty_vnode s" "console t = console s" "status t = status s" "files t = files s"
    by (simp_all add: t)
qed

lemma last_slash_at:
  assumes "slash \<notin> set nm" and "k < length nm"
  shows "last_slash (dir @ slash # nm @ r) (length dir + Suc k) = length dir"
  using assms(2)
proof (induction k)
  case 0
  have "(dir @ slash # nm @ r) ! Suc (length dir) = nm ! 0" using 0 by (simp add: nth_append)
  then have "(dir @ slash # nm @ r) ! Suc (length dir) \<noteq> slash" using assms(1) 0 by (metis nth_mem)
  moreover have "last_slash (dir @ slash # nm @ r) (length dir) = length dir"
    by (cases "length dir") (simp_all add: nth_append)
  ultimately show ?case by simp
next
  case (Suc k)
  have "(dir @ slash # nm @ r) ! Suc (length dir + Suc k) = nm ! Suc k" using Suc.prems by (simp add: nth_append)
  then have "(dir @ slash # nm @ r) ! Suc (length dir + Suc k) \<noteq> slash" using assms(1) Suc.prems by (metis nth_mem)
  with Suc show ?case by simp
qed

lemma strlen_string: "c_string p path \<Longrightarrow> strlen path = Some (length p)"
  by (rule strlen_c)

lemma splits_append: "slash \<notin> set nm \<Longrightarrow> splits (dir @ slash # nm) = splits dir @ [nm]"
proof (induction dir)
  case Nil
  have "splits nm = [nm]" using Nil by (induction nm) auto
  then show ?case by simp
next
  case (Cons c dir)
  then show ?case by (cases "splits dir") auto
qed

lemma components_append:
  assumes "slash \<notin> set nm" and "nm \<noteq> []" "nm \<noteq> [46]" "nm \<noteq> [46, 46]"
  shows "components (dir @ slash # nm) = components dir @ [nm]"
  using assms by (simp add: components_def splits_append)

lemma descend_append: "descend s a (xs @ [x]) = (case descend s a xs of None \<Rightarrow> None | Some b \<Rightarrow> entry s (through s b) x)"
  by (induction s a xs rule: descend.induct) (auto split: option.split)

lemma resolve_append: "resolve s a xs = Some b \<Longrightarrow> resolve s a (xs @ [x]) = map_option (through s) (entry s b x)"
  by (auto simp: resolve_def descend_append)

text \<open>The file is made in the directory of the path, under the last name.\<close>

lemma create_path_some:
  assumes tree: "tree_ok s" and root: "vfs_root s = Some (Ram r)" "nodes s r \<noteq> None"
    and path: "c_string (dir @ slash # nm) path" "\<forall>x\<in>set (splits dir). length x < 128" "length dir < 256"
    and abs: "dir \<noteq> [] \<Longrightarrow> hd dir = slash"
    and nm: "name_ok nm" "slash \<notin> set nm" "nm \<noteq> []" "nm \<noteq> [46]" "nm \<noteq> [46, 46]"
    and none: "vfs_lookup (Some path) s = Some None"
    and a: "resolve s r (components dir) = Some a" "ramdir_ok a s" "can_create a s"
  obtains t n where "create_path path s = Some (Some (Ram (fresh s)), t)" "nodes t (fresh s) = Some n" "rsize n = 0"
    "vsize (rvnode n) = 0" "fresh t = fresh s + 1" "fs.more t = fs.more s" "ramdir_ok a t"
    "dir_map a t = (dir_map a s)(nm \<mapsto> fresh s)"
proof -
  let ?p = "dir @ slash # nm"
  obtain rest where p: "path = ?p @ 0 # rest" "0 \<notin> set ?p" using path(1) by (auto simp: c_string_def)
  let ?pp = "if 1 < (if length dir = 0 then 1 else length dir) then dir @ [0] else [slash, 0]"
  obtain k where k: "length nm = Suc k" using nm(3) by (cases nm) simp_all
  have sl: "last_slash path (length ?p - 1) = length dir"
    using last_slash_at [OF nm(2), of k dir "0 # rest"] by (simp add: p(1) k)
  have parent: "vfs_lookup (Some ?pp) s = Some (Some (Ram a))"
  proof (cases "1 < length dir")
    case True
    have "c_string dir (dir @ [0])" using p(2) by (intro c_string_terminated) simp
    from lookup_some [OF tree root this path(2)] True a(1) show ?thesis by auto
  next
    case False
    then have "dir = [] \<or> dir = [slash]" using abs by (cases dir) auto
    then have "components dir = components [slash]" by (auto simp: components_slash)
    moreover have "c_string [slash] [slash, 0]" by (simp add: c_string_def)
    note lookup_some [OF tree root this]
    ultimately show ?thesis using False a(1) by simp
  qed
  obtain pn where pn: "nodes s a = Some pn" "rtype pn = VFS_DIR" by (rule ramdir_okD [OF a(2)])
  have "\<forall>x\<in>set (splits ?p). length x < 128" using path(2) nm(1) by (auto simp: splits_append [OF nm(2)] name_ok_def)
  from lookup_some [OF tree root path(1) this] none
  have "map_option (through s) (entry s a nm) = None"
    by (simp add: components_append [OF nm(2-5)] resolve_append [OF a(1)])
  then have free: "dir_map a s nm = None" using pn by (simp add: entry_def)
  have fname: "drop (length dir + 1) path = nm @ 0 # rest" by (simp add: p(1))
  have cs: "c_string nm (nm @ 0 # rest)" "length nm < 128" using p(2) nm(1) by (auto simp: c_string_def name_ok_def)
  obtain t1 n where t1: "ramfs_create a (nm @ 0 # rest) VFS_FILE s = Some (0, t1)" "nodes t1 (fresh s) = Some n"
    "rsize n = 0" "vsize (rvnode n) = 0" "fresh t1 = fresh s + 1" "fs.more t1 = fs.more s"
    by (rule ramfs_create_some [OF a(2,3) cs]) blast
  note made = create_dir_map [OF a(2,3) cs free t1(1)]
  let ?b = "fresh s"
  have find1: "ramfs_finddir a (nm @ 0 # rest) t1 = Some (Some (Ram ?b))" using finddir_map [OF made(2) cs(1)] made(3) by simp
  let ?plen = "if length dir = 0 then 1 else length dir"
  have pp: "(if 1 < ?plen then take ?plen path @ [0] else [slash, 0]) = ?pp" by (simp add: p(1))
  have fn: "(if path ! length dir = slash \<and> length dir = 0 then drop 1 path else drop (length dir + 1) path) = nm @ 0 # rest"
    using fname by auto
  have len: "strlen path = Some (length ?p)" "length ?p \<noteq> 0" "\<not> VFS_PATH_LEN \<le> ?plen"
    using strlen_string [OF path(1)] path(3) by (simp_all add: VFS_PATH_LEN_def)
  have created: "create_path path s = Some (Some (Ram ?b), t1)"
    unfolding create_path_def create_at_def len(1) Let_def Option.bind.simps sl pp parent option.case vptr.case fn t1(1) prod.case find1
    using len(2,3) by simp
  show thesis by (rule that [OF created t1(2-6) made(2,3)])
qed

lemma truncate_new:
  assumes "nodes s b = Some n" "rsize n = 0" "vsize (rvnode n) = 0"
  obtains t m where "(if flags AND O_TRUNC \<noteq> 0 then vnode_truncate (Ram b) s else Some s) = Some t" "nodes t b = Some m"
    "vsize (rvnode m) = 0" "fresh t = fresh s" "fs.more t = fs.more s" "\<And>x. shape t x = shape s x"
proof (cases "flags AND O_TRUNC \<noteq> 0")
  case True
  show thesis
    by (rule that [of "s\<lparr>nodes := (nodes s)(b \<mapsto> n\<lparr>rdata := None, rsize := 0, capacity := 0, rvnode := (rvnode n)\<lparr>vsize := 0\<rparr>\<rparr>)\<rparr>"
        "n\<lparr>rdata := None, rsize := 0, capacity := 0, rvnode := (rvnode n)\<lparr>vsize := 0\<rparr>\<rparr>"])
      (use True assms in \<open>simp_all add: vnode_truncate_def ramfs_truncate_def Let_def shape_def\<close>)
next
  case False
  show thesis by (rule that [of s n]) (use False assms in simp_all)
qed

text \<open>
  C32. Opening an absolute path that names nothing, with \<^verbatim>\<open>O_CREAT\<close>, makes the file: the call returns an
  open file at offset 0 on a new node, which the directory of the path now has under the last name;
  the other names of that directory find what they found.
\<close>

theorem file_open_creates:
  assumes tree: "tree_ok s" and root: "vfs_root s = Some (Ram r)" "nodes s r \<noteq> None"
    and path: "c_string (dir @ slash # nm) path" "\<forall>x\<in>set (splits dir). length x < 128" "length dir < 256"
    and abs: "dir \<noteq> [] \<Longrightarrow> hd dir = slash"
    and nm: "name_ok nm" "slash \<notin> set nm" "nm \<noteq> []" "nm \<noteq> [46]" "nm \<noteq> [46, 46]"
    and none: "vfs_lookup (Some path) s = Some None" and creat: "flags AND O_CREAT \<noteq> 0"
    and a: "resolve s r (components dir) = Some a" "ramdir_ok a s" "can_create a s" and "fresh s + 1 \<noteq> 0"
  shows "\<exists>f t b. file_open (Some path) flags s = Some (f, t) \<and> f \<noteq> 0
    \<and> files t f = Some \<lparr>foffset = 0, fvnode = Ram b, fflags = flags, fref = 1\<rparr>
    \<and> ramfs_finddir a (nm @ [0]) t = Some (Some (Ram b))
    \<and> (\<forall>m. name_ok m \<longrightarrow> m \<noteq> nm \<longrightarrow> ramfs_finddir a (m @ [0]) t = ramfs_finddir a (m @ [0]) s)"
proof -
  let ?b = "fresh s"
  obtain t1 n where created: "create_path path s = Some (Some (Ram ?b), t1)" and t1: "nodes t1 ?b = Some n" "rsize n = 0"
      "vsize (rvnode n) = 0" "fresh t1 = fresh s + 1" "fs.more t1 = fs.more s"
    and made: "ramdir_ok a t1" "dir_map a t1 = (dir_map a s)(nm \<mapsto> ?b)"
    by (rule create_path_some [OF tree root path abs nm none a])
  obtain t2 n2 where t2: "(if flags AND O_TRUNC \<noteq> 0 then vnode_truncate (Ram ?b) t1 else Some t1) = Some t2" "nodes t2 ?b = Some n2"
    "vsize (rvnode n2) = 0" "fresh t2 = fresh t1" "fs.more t2 = fs.more t1" "\<And>x. shape t2 x = shape t1 x"
    by (rule truncate_new [OF t1(1-3), of flags], rule that)
  let ?f = "fresh s + 1" and ?h = "\<lparr>foffset = 0, fvnode = Ram ?b, fflags = flags, fref = 1\<rparr>"
  define t3 where "t3 = t2\<lparr>fresh := fresh t2 + 1\<rparr>"
  define t where "t = upd_vnode (Ram ?b) (\<lambda>n. n\<lparr>ref_count := ref_count n + 1\<rparr>) (t3\<lparr>files := (files t3)(?f \<mapsto> ?h)\<rparr>)"
  have opened: "file_open (Some path) flags s = Some (?f, t)"
    using none creat created t2(1-4) t1(1,4) \<open>fresh s + 1 \<noteq> 0\<close>
    by (simp add: file_open_def vnode_at_def new_addr_def Let_def t3_def t_def)
  have h: "files t ?f = Some ?h" by (simp add: t_def upd_vnode_def upd_node_def)
  have "shape t x = shape t1 x" for x
    using t2(2) t2(6) [of x] by (auto simp: t_def t3_def upd_vnode_def upd_node_def shape_def)
  note same = same_shape [OF this]
  have dirs: "ramdir_ok a t" "dir_map a t = (dir_map a s)(nm \<mapsto> ?b)" using same made by simp_all
  have found: "ramfs_finddir a (m @ [0]) t = Some (map_option Ram (dir_map a t m))"
      "ramfs_finddir a (m @ [0]) s = Some (map_option Ram (dir_map a s m))" if "name_ok m" for m
    using finddir_map [OF dirs(1) c_string_terminated] finddir_map [OF a(2) c_string_terminated] that by (simp_all add: name_ok_def)
  have "ramfs_finddir a (nm @ [0]) t = Some (Some (Ram ?b))" using found(1) [OF nm(1)] dirs(2) by simp
  moreover have "ramfs_finddir a (m @ [0]) t = ramfs_finddir a (m @ [0]) s" if "name_ok m" "m \<noteq> nm" for m
    using found [OF that(1)] dirs(2) that(2) by simp
  ultimately show ?thesis using opened h \<open>fresh s + 1 \<noteq> 0\<close> by blast
qed

text \<open>
  C15. What is written to an open file is read back from where it was written: \<^verbatim>\<open>file_write\<close> at the
  offset of the file returns the number of bytes and advances the offset, \<^verbatim>\<open>file_seek\<close> takes it back,
  and \<^verbatim>\<open>file_read\<close> of as many bytes puts exactly these into the buffer and advances the offset again.
\<close>

theorem file_write_seek_read:
  assumes f: "files s f = Some h" "f \<noteq> 0" "fvnode h = Ram a" and n: "nodes s a = Some n" "rtype n = VFS_FILE" "file_ok n"
    and "fresh s \<noteq> 0" and lim: "unat (foffset h) + unat sz + 4096 < 2147483648"
    and buf: "unat sz \<le> length buf" "unat sz \<le> length rbuf" and "sz \<noteq> 0" and off: "unat (foffset h) \<le> length (content n)"
  shows "\<exists>t u v. file_write f buf sz s = Some (sz, t) \<and> file_seek f (foffset h) SEEK_SET t = Some (foffset h, u)
    \<and> file_read f rbuf sz u = Some (sz, take (unat sz) buf @ drop (unat sz) rbuf, v)
    \<and> files v f = Some (h\<lparr>foffset := foffset h + sz\<rparr>)"
proof -
  let ?o = "foffset h"
  obtain t n' junk where t: "ramfs_write a ?o sz buf s = Some (sz, t)" "nodes t a = Some n'" "file_ok n'"
    "n' = n\<lparr>rdata := rdata n', rsize := rsize n', capacity := capacity n', rvnode := (rvnode n)\<lparr>vsize := rsize n'\<rparr>\<rparr>"
    "content n' = patched junk (content n) (unat ?o) (take (unat sz) buf)" "fs.more t = fs.more s"
    by (rule ramfs_write_some [OF n \<open>fresh s \<noteq> 0\<close> _ buf(1) \<open>sz \<noteq> 0\<close>, of "?o"]) (use lim in auto)
  have ty: "rtype n' = VFS_FILE" by (subst t(4)) (simp add: n(2))
  have ft: "files t = files s" by (rule more_eq [OF t(6)])
  have s31: "sint sz = int (unat sz)" "sint ?o = int (unat ?o)" using lim by (simp_all add: sint_small)
  have "0 < unat sz" using \<open>sz \<noteq> 0\<close> by (simp add: unat_gt_0)
  then have pos: "0 < sint sz" unfolding s31(1) by (simp only: of_nat_0_less_iff)
  have adv: "add_off ?o sz = Some (?o + sz)"
  proof -
    have "- 2147483648 \<le> int (unat ?o) + int (unat sz) \<and> int (unat ?o) + int (unat sz) < 2147483648" using lim by linarith
    then show ?thesis unfolding add_off_def in_int_def s31 by (simp only: if_True simp_thms)
  qed
  define t' where "t' = t\<lparr>files := (files t)(f \<mapsto> h\<lparr>foffset := ?o + sz\<rparr>)\<rparr>"
  have w: "file_write f buf sz s = Some (sz, t')"
    using f n(1) t(1) ft pos adv by (simp add: file_write_def vnode_at_def vnode_write_def advance_def t'_def)
  define u where "u = t'\<lparr>files := (files t')(f \<mapsto> h)\<rparr>"
  have sk: "file_seek f ?o SEEK_SET t' = Some (?o, u)"
    using f(2) by (simp add: file_seek_def t'_def u_def)
  have nu: "nodes u a = Some n'" using t(2) by (simp add: u_def t'_def)
  have rd: "take (unat sz) (drop (unat ?o) (content n')) = take (unat sz) buf"
    using patched_read [of "take (unat sz) buf" "unat ?o" junk "content n"] buf(1) by (simp add: t(5) min_absorb2)
  have "ramfs_read a ?o sz u = Some (sz, take (unat sz) buf)"
    using ramfs_read_some [OF nu ty t(3), of ?o sz] buf(1) unfolding rd by (simp add: min_absorb2)
  then have "file_read f rbuf sz u = Some (sz, take (unat sz) buf @ drop (unat sz) rbuf,
      u\<lparr>files := (files u)(f \<mapsto> h\<lparr>foffset := ?o + sz\<rparr>)\<rparr>)"
    using f nu buf pos adv by (simp add: file_read_def vnode_at_def vnode_read_def advance_def u_def min_absorb2)
  with w sk show ?thesis by fastforce
qed

text \<open>
  Removing a file that is open frees its node all the same: from then on reading from the open
  file, writing to it or closing its last reference uses the freed node.
\<close>

theorem unlink_open_file_dangles:
  assumes f: "files s f = Some h" "f \<noteq> 0" "fvnode h = Ram c" and "fref h = 1"
    and a: "ramdir_ok a s" "c_string nm name" "ramfs_finddir a name s = Some (Some (Ram c))"
  shows "\<exists>t. ramfs_unlink a name s = Some (0, t) \<and> files t f = Some h
    \<and> file_read f buf sz t = None \<and> file_write f buf sz t = None \<and> file_close f t = None"
proof -
  have "dir_map a s nm = Some c" using finddir_map [OF a(1,2)] a(3) by (cases "dir_map a s nm") auto
  from unlink_dir_map [OF a(1,2) this]
  obtain t where t: "ramfs_unlink a name s = Some (0, t)" "nodes t c = None" "fs.more t = fs.more s" by blast
  have "files t f = Some h" using more_eq(5) [OF t(3)] f(1) by simp
  with t f assms(4) show ?thesis by (simp add: file_read_def file_write_def file_close_def vnode_at_def)
qed


text \<open>
  A small tree: the root 1 with a directory \<^verbatim>\<open>d\<close>, and in it an empty file \<^verbatim>\<open>f\<close>, open at the address 4.
\<close>

definition small_node :: "bytestr \<Rightarrow> u32 \<Rightarrow> u32 list \<Rightarrow> ramfs_node" where
  "small_node nm ty cs = \<lparr>rname = nm @ [0], rtype = ty, rdata = None, rsize = 0, capacity = 0, rinode = 1, children = cs,
     rvnode = \<lparr>vname = nm @ [0], vtype = ty, vsize = 0, vinode = 1, permissions = 0, mount_point = None, ref_count = 0\<rparr>\<rparr>"

definition dark_tty :: tty where
  "dark_tty = \<lparr>vga = [], cur_col = 0, cur_row = 0, vga_cursor = 0, serial = [], kb_buf = [], kb_head = 0, kb_tail = 0,
     shift_held = False, ctrl_held = False, scancodes = []\<rparr>"

definition some_vfs :: vfs where
  "some_vfs = \<lparr>nodes = [1 \<mapsto> small_node [slash] VFS_DIR [2], 2 \<mapsto> small_node [100] VFS_DIR [3], 3 \<mapsto> small_node [102] VFS_FILE []],
     next_inode = 2, fresh = 5, stale = (\<lambda>a i. 0), vfs_root = Some (Ram 1),
     tty_vnode = \<lparr>vname = [0], vtype = VFS_CHARDEV, vsize = 0, vinode = 0, permissions = 0, mount_point = None, ref_count = 0\<rparr>,
     console = dark_tty, status = 0x20,
     files = [4 \<mapsto> \<lparr>foffset = 0, fvnode = Ram 3, fflags = 0, fref = 1\<rparr>]\<rparr>"

lemma some_vfs_nodes:
  "nodes some_vfs a = (if a = 1 then Some (small_node [slash] VFS_DIR [2]) else if a = 2 then Some (small_node [100] VFS_DIR [3])
     else if a = 3 then Some (small_node [102] VFS_FILE []) else None)"
  by (simp add: some_vfs_def)

lemma some_vfs_sel:
  "vfs_root some_vfs = Some (Ram 1)" "fresh some_vfs = 5" "files some_vfs 4 = Some \<lparr>foffset = 0, fvnode = Ram 3, fflags = 0, fref = 1\<rparr>"
  by (simp_all add: some_vfs_def)

text \<open>Any state with these nodes is such a tree.\<close>

lemma small_tree:
  assumes "nodes s = nodes some_vfs"
  shows "tree_ok s" "ramdir_ok 1 s" "ramdir_ok 2 s" "fresh s = 5 \<Longrightarrow> can_create 2 s" "through s a = a"
    "dir_map 1 s [100] = Some 2" "dir_map 2 s [102] = Some 3" "dir_map 2 s [103] = None"
proof -
  note n = assms some_vfs_nodes
  have k: "kids s 1 = [2]" "kids s 2 = [3]" by (simp_all add: kids_def n small_node_def)
  have c: "cname s 2 = [100]" "cname s 3 = [102]" "child_ok s 2" "child_ok s 3"
    by (simp_all add: cname_def child_ok_def n small_node_def)
  show d: "ramdir_ok 1 s" "ramdir_ok 2 s" by (simp_all add: ramdir_ok_def k c n small_node_def)
  have ty: "VFS_FILE \<noteq> VFS_DIR" by (simp add: VFS_FILE_def VFS_DIR_def)
  show "tree_ok s" using d ty by (auto simp: tree_ok_def n small_node_def split: if_split_asm)
  show "fresh s = 5 \<Longrightarrow> can_create 2 s" by (simp add: can_create_def k n)
  show "through s a = a" by (simp add: through_def n small_node_def)
  show "dir_map 1 s [100] = Some 2" "dir_map 2 s [102] = Some 3" "dir_map 2 s [103] = None"
    by (simp_all add: dir_map_def k c)
qed

lemma small_resolve:
  assumes "nodes s = nodes some_vfs"
  shows "resolve s 1 [[100]] = Some 2" "resolve s 1 [[100], [102]] = Some 3" "resolve s 1 [[100], [103]] = None"
  using small_tree [OF assms] by (simp_all add: resolve_def entry_def assms some_vfs_nodes small_node_def)

lemmas some_vfs_tree = small_tree [OF refl [of "nodes some_vfs"]]
lemmas some_vfs_resolve = small_resolve [OF refl [of "nodes some_vfs"]]

theorem vfs_lookup_resolves_witness:
  "vfs_lookup (Some [slash, 100, slash, 46, 46, slash, 102, 0]) some_vfs = Some (Some (Ram 3))"
  using vfs_lookup_resolves [OF some_vfs_tree(1) some_vfs_sel(1), of "[slash, 100, slash, 46, 46, slash, 102]"
      "[slash, 100, slash, 46, 46, slash, 102, 0]"] some_vfs_resolve(2)
  by (simp add: some_vfs_nodes c_string_def components_def)

lemma some_vfs_new: "vfs_lookup (Some [slash, 100, slash, 103, 0]) some_vfs = Some None"
  using lookup_some [OF some_vfs_tree(1) some_vfs_sel(1), of "[slash, 100, slash, 103]" "[slash, 100, slash, 103, 0]"] some_vfs_resolve(3)
  by (simp add: some_vfs_nodes c_string_def components_def)

theorem file_open_creates_witness:
  "\<exists>f t b. file_open (Some [slash, 100, slash, 103, 0]) 0x40 some_vfs = Some (f, t) \<and> f \<noteq> 0
    \<and> ramfs_finddir 2 ([103] @ [0]) t = Some (Some (Ram b))"
  using file_open_creates [OF some_vfs_tree(1) some_vfs_sel(1), of "[slash, 100]" "[103]" "[slash, 100, slash, 103, 0]" "0x40" 2]
    some_vfs_new some_vfs_resolve(1) some_vfs_tree some_vfs_sel
  by (simp add: some_vfs_nodes c_string_def components_def name_ok_def O_CREAT_def) blast

theorem file_write_seek_read_witness:
  "\<exists>t u v. file_write 4 [104, 105] 2 some_vfs = Some (2, t) \<and> file_seek 4 0 SEEK_SET t = Some (0, u)
    \<and> file_read 4 [0, 0, 7] 2 u = Some (2, [104, 105, 7], v)"
proof -
  let ?n = "small_node [102] VFS_FILE []"
  have "nodes some_vfs 3 = Some ?n" "rtype ?n = VFS_FILE" "file_ok ?n" by (simp_all add: some_vfs_nodes small_node_def file_ok_def)
  from file_write_seek_read [OF some_vfs_sel(3) _ _ this, of 2 "[104, 105]" "[0, 0, 7]"]
  show ?thesis by (simp add: some_vfs_sel) blast
qed

theorem unlink_open_file_dangles_witness:
  "\<exists>t. ramfs_unlink 2 [102, 0] some_vfs = Some (0, t) \<and> file_read 4 [0] 1 t = None \<and> file_close 4 t = None"
proof -
  have c: "c_string [102] [102, 0]" by (simp add: c_string_def)
  have "ramfs_finddir 2 [102, 0] some_vfs = Some (Some (Ram 3))"
    using finddir_map [OF some_vfs_tree(3) c] some_vfs_tree(7) by simp
  from unlink_open_file_dangles [OF some_vfs_sel(3) _ _ _ some_vfs_tree(3) c this, of "[0]" 1] show ?thesis by simp blast
qed

text \<open>
  A relative name is not made as it is written: the part after the slash is taken to start one
  character behind the beginning, so that opening \<^verbatim>\<open>ab\<close> with \<^verbatim>\<open>O_CREAT\<close> makes the file \<^verbatim>\<open>b\<close> in the root.
\<close>

lemma file_open_relative_name:
  "map_option (\<lambda>(f, t). (ramfs_finddir 1 [97, 98, 0] t, ramfs_finddir 1 [98, 0] t)) (file_open (Some [97, 98, 0]) O_CREAT some_vfs)
    = Some (Some None, Some (Some (Ram 5)))"
  by code_simp

end
