(* ===== verification/Proc.thy ===== *)
theory Proc
  imports Vmm Bytes
begin

text \<open>
  Processes and the scheduler, \<^verbatim>\<open>proc/proc.c\<close> and the context switch of \<^verbatim>\<open>proc/switch.S\<close>. The
  process table is a list of 64 records, a process is named by its index. The kernel stacks,
  which are arrays inside the table, are kept as bytes at the addresses they have, because the
  code builds and copies stack frames there; the registers the switch saves are the CPU state.
  The step relation \<open>kstep\<close> is what the running process and the timer can do to this state;
  its invariant says which processes can be running.
\<close>

section \<open>State\<close>

datatype proc_state = PROC_UNUSED | PROC_RUNNING | PROC_READY | PROC_BLOCKED | PROC_ZOMBIE | PROC_SLEEPING

record process =
  pid :: u32
  ppid :: u32
  pstate :: proc_state
  esp :: u32
  kernel_stack_top :: u32
  page_dir :: u32
  fds :: "u32 list"
  exit_code :: u32
  wait_pid :: u32
  pending_sigs :: u32
  sig_mask :: u32
  sig_handlers :: "u32 list"
  sleep_until :: u32
  pname :: "u8 list"
  cwd :: "u8 list"

record cpu =
  r_esp :: u32
  r_ebp :: u32
  r_ebx :: u32
  r_esi :: u32
  r_edi :: u32
  r_eip :: u32

text \<open>
  \<open>next_kpid\<close> and \<open>next_fpid\<close> are the static counters of \<^verbatim>\<open>proc_create_kernel\<close> and \<^verbatim>\<open>proc_fork\<close>;
  \<open>table_addr\<close> is the address of \<^verbatim>\<open>proc_table\<close>, which the linker chooses.
\<close>

record psys =
  pvm :: vm
  kmem :: bytes
  proc_table :: "process list"
  current_proc :: "nat option"
  ticks :: u32
  next_kpid :: u32
  next_fpid :: u32
  tss_esp0 :: u32
  cpu_regs :: cpu
  table_addr :: u32

definition MAX_FDS :: nat where "MAX_FDS = 32"
definition MAX_PROCS :: nat where "MAX_PROCS = 64"
definition PROC_NAME_LEN :: nat where "PROC_NAME_LEN = 32"

definition zero_process :: process where
  "zero_process = \<lparr>pid = 0, ppid = 0, pstate = PROC_UNUSED, esp = 0, kernel_stack_top = 0, page_dir = 0,
     fds = replicate MAX_FDS 0, exit_code = 0, wait_pid = 0, pending_sigs = 0, sig_mask = 0,
     sig_handlers = replicate 32 0, sleep_until = 0, pname = replicate PROC_NAME_LEN 0,
     cwd = replicate 256 0\<rparr>"

text \<open>The array \<^verbatim>\<open>kernel_stack\<close> of entry \<open>i\<close>: at offset 588 of a structure of 8780 bytes.\<close>

definition kstack :: "psys \<Rightarrow> nat \<Rightarrow> u32" where
  "kstack s i = table_addr s + of_nat i * 8780 + 588"

abbreviation proc_at :: "psys \<Rightarrow> nat \<Rightarrow> process" where
  "proc_at s i \<equiv> proc_table s ! i"

definition upd_proc :: "nat \<Rightarrow> (process \<Rightarrow> process) \<Rightarrow> psys \<Rightarrow> psys" where
  "upd_proc i f s = s\<lparr>proc_table := (proc_table s)[i := f (proc_at s i)]\<rparr>"

text \<open>\<^verbatim>\<open>current_proc->\<close>\<close>

definition current :: "psys \<Rightarrow> nat option" where
  "current s = (case current_proc s of None \<Rightarrow> None | Some c \<Rightarrow> if c < MAX_PROCS then Some c else None)"

section \<open>Memory and strings\<close>

definition kmemset :: "u32 \<Rightarrow> u8 \<Rightarrow> nat \<Rightarrow> bytes \<Rightarrow> bytes" where
  "kmemset p v n m = fold (\<lambda>i m. m(p + of_nat i := v)) [0..<n] m"

definition kmemcpy :: "u32 \<Rightarrow> u32 \<Rightarrow> nat \<Rightarrow> bytes \<Rightarrow> bytes" where
  "kmemcpy d s n m = fold (\<lambda>i m. m(d + of_nat i := m (s + of_nat i))) [0..<n] m"

text \<open>A string literal: its bytes and the final zero.\<close>

definition cstr :: "string \<Rightarrow> u8 list" where
  "cstr t = map of_char t @ [0]"

text \<open>\<^verbatim>\<open>kstrcpy\<close> into an array; \<open>None\<close> when it would run over one of the two.\<close>

function kstrcpy_at :: "nat \<Rightarrow> u8 list \<Rightarrow> u8 list \<Rightarrow> u8 list option" where
  "kstrcpy_at i dst src =
     (if i < length src \<and> i < length dst
      then let c = src ! i; dst' = dst[i := c]
           in if c = 0 then Some dst' else kstrcpy_at (Suc i) dst' src
      else None)"
  by pat_completeness auto
termination by (relation "measure (\<lambda>(i, dst, src). length src - i)") auto

declare kstrcpy_at.simps [simp del]

definition kstrcpy :: "u8 list \<Rightarrow> u8 list \<Rightarrow> u8 list option" where
  "kstrcpy dst src = kstrcpy_at 0 dst src"

section \<open>Creating processes\<close>

text \<open>The first unused entry, cleared; the whole entry is cleared, with its kernel stack.\<close>

definition alloc_proc :: "psys \<Rightarrow> nat option \<times> psys" where
  "alloc_proc s =
     (case List.find (\<lambda>i. pstate (proc_at s i) = PROC_UNUSED) [0..<MAX_PROCS] of
        None \<Rightarrow> (None, s)
      | Some i \<Rightarrow> (Some i, (upd_proc i (\<lambda>_. zero_process) s)\<lparr>kmem := kmemset (kstack s i) 0 8192 (kmem s)\<rparr>))"

definition proc_init :: "psys \<Rightarrow> psys option" where
  "proc_init s = do {
     let s = s\<lparr>proc_table := replicate MAX_PROCS zero_process,
               kmem := fold (\<lambda>i. kmemset (kstack s i) 0 8192) [0..<MAX_PROCS] (kmem s)\<rparr>;
     let s = upd_proc 0 (\<lambda>p. p\<lparr>pid := 0, ppid := 0, pstate := PROC_RUNNING,
                                page_dir := vmm_get_kernel_directory (pvm s)\<rparr>) s;
     nm \<leftarrow> kstrcpy (pname (proc_at s 0)) (cstr ''idle'');
     dir \<leftarrow> kstrcpy (cwd (proc_at s 0)) (cstr ''/'');
     let s = upd_proc 0 (\<lambda>p. p\<lparr>pname := nm, cwd := dir\<rparr>) s;
     Some (s\<lparr>current_proc := Some 0\<rparr>)
   }"

definition proc_create_kernel :: "u32 \<Rightarrow> u8 list \<Rightarrow> psys \<Rightarrow> (nat option \<times> psys) option" where
  "proc_create_kernel entry name s =
     (case alloc_proc s of
        (None, s) \<Rightarrow> Some (None, s)
      | (Some i, s) \<Rightarrow> do {
          parent \<leftarrow> (case current_proc s of None \<Rightarrow> Some 0
                      | Some _ \<Rightarrow> do { c \<leftarrow> current s; Some (pid (proc_at s c)) });
          let s = (upd_proc i (\<lambda>p. p\<lparr>pid := next_kpid s, ppid := parent, pstate := PROC_READY,
                     page_dir := vmm_get_kernel_directory (pvm s)\<rparr>) s)\<lparr>next_kpid := next_kpid s + 1\<rparr>;
          nm \<leftarrow> kstrcpy (pname (proc_at s i)) name;
          dir \<leftarrow> kstrcpy (cwd (proc_at s i)) (cstr ''/'');
          let stack_top = kstack s i + 8192;
          let stack_top = stack_top - 4;
          let m = wr32 (kmem s) stack_top entry;
          let stack_top = stack_top - 16;
          let m = kmemset stack_top 0 16 m;
          Some (Some i, (upd_proc i (\<lambda>p. p\<lparr>pname := nm, cwd := dir, esp := stack_top,
                          kernel_stack_top := kstack s i + 8192\<rparr>) s)\<lparr>kmem := m\<rparr>)
        })"

definition proc_get :: "u32 \<Rightarrow> psys \<Rightarrow> nat option" where
  "proc_get p s = List.find (\<lambda>i. pid (proc_at s i) = p \<and> pstate (proc_at s i) \<noteq> PROC_UNUSED) [0..<MAX_PROCS]"

definition proc_fork :: "psys \<Rightarrow> (nat option \<times> psys) option" where
  "proc_fork s =
     (case alloc_proc s of
        (None, s) \<Rightarrow> Some (None, s)
      | (Some i, s) \<Rightarrow> do {
          c \<leftarrow> current s;
          let s = (upd_proc i (\<lambda>_. proc_at s c) s)\<lparr>kmem := kmemcpy (kstack s i) (kstack s c) 8192 (kmem s)\<rparr>;
          let s = (upd_proc i (\<lambda>p. p\<lparr>pid := next_fpid s, ppid := pid (proc_at s c), pstate := PROC_READY\<rparr>) s)
                    \<lparr>next_fpid := next_fpid s + 1\<rparr>;
          (pd, v) \<leftarrow> vmm_clone (page_dir (proc_at s c)) (pvm s);
          let s = (upd_proc i (\<lambda>p. p\<lparr>page_dir := pd\<rparr>) s)\<lparr>pvm := v\<rparr>;
          let stack_offset = kernel_stack_top (proc_at s c) - esp (proc_at s c);
          let stack_top = kstack s i + 8192 - stack_offset;
          let m = kmemcpy stack_top (esp (proc_at s c)) (unat stack_offset) (kmem s);
          Some (Some i, (upd_proc i (\<lambda>p. p\<lparr>esp := stack_top,
                          kernel_stack_top := kstack s i + 8192\<rparr>) s)\<lparr>kmem := m\<rparr>)
        })"

section \<open>Switching\<close>

definition push :: "u32 \<Rightarrow> psys \<Rightarrow> psys" where
  "push v s = (let e = r_esp (cpu_regs s) - 4
               in s\<lparr>cpu_regs := (cpu_regs s)\<lparr>r_esp := e\<rparr>, kmem := wr32 (kmem s) e v\<rparr>)"

definition pop :: "(u32 \<Rightarrow> cpu \<Rightarrow> cpu) \<Rightarrow> psys \<Rightarrow> psys" where
  "pop put s = (let e = r_esp (cpu_regs s)
                in s\<lparr>cpu_regs := put (rd32 (kmem s) e) ((cpu_regs s)\<lparr>r_esp := e + 4\<rparr>)\<rparr>)"

text \<open>
  \<^verbatim>\<open>context_switch(&prev->esp, new_esp)\<close> with the call itself: the two arguments and the return
  address (here the value of \<open>r_eip\<close>) are pushed, then the four registers the callee saves.
\<close>

definition context_switch :: "nat \<Rightarrow> u32 \<Rightarrow> psys \<Rightarrow> psys" where
  "context_switch prev new_esp s =
     (let s = push new_esp s;
          s = push (table_addr s + of_nat prev * 8780 + 12) s;
          s = push (r_eip (cpu_regs s)) s;
          s = push (r_ebp (cpu_regs s)) s;
          s = push (r_ebx (cpu_regs s)) s;
          s = push (r_esi (cpu_regs s)) s;
          s = push (r_edi (cpu_regs s)) s;
          s = upd_proc prev (\<lambda>p. p\<lparr>esp := r_esp (cpu_regs s)\<rparr>) s;
          s = s\<lparr>cpu_regs := (cpu_regs s)\<lparr>r_esp := new_esp\<rparr>\<rparr>;
          s = pop (\<lambda>v c. c\<lparr>r_edi := v\<rparr>) s;
          s = pop (\<lambda>v c. c\<lparr>r_esi := v\<rparr>) s;
          s = pop (\<lambda>v c. c\<lparr>r_ebx := v\<rparr>) s;
          s = pop (\<lambda>v c. c\<lparr>r_ebp := v\<rparr>) s
      in pop (\<lambda>v c. c\<lparr>r_eip := v\<rparr>) s)"

section \<open>The scheduler\<close>

definition wake :: "u32 \<Rightarrow> process \<Rightarrow> process" where
  "wake t p = (if pstate p = PROC_SLEEPING \<and> sleep_until p \<le> t then p\<lparr>pstate := PROC_READY\<rparr> else p)"

definition next_ready :: "nat \<Rightarrow> psys \<Rightarrow> nat option" where
  "next_ready cur_idx s =
     map_option (\<lambda>i. (cur_idx + i) mod MAX_PROCS)
       (List.find (\<lambda>i. pstate (proc_at s ((cur_idx + i) mod MAX_PROCS)) = PROC_READY) [1..<Suc MAX_PROCS])"

text \<open>The second half of \<^verbatim>\<open>scheduler_tick\<close>, from the choice of a process other than the current one.\<close>

definition switch_to :: "nat \<Rightarrow> nat \<Rightarrow> psys \<Rightarrow> psys" where
  "switch_to prev nxt s =
     (let s = (if pstate (proc_at s prev) = PROC_RUNNING
               then upd_proc prev (\<lambda>p. p\<lparr>pstate := PROC_READY\<rparr>) s else s);
          s = upd_proc nxt (\<lambda>p. p\<lparr>pstate := PROC_RUNNING\<rparr>) s;
          s = s\<lparr>current_proc := Some nxt\<rparr>;
          s = s\<lparr>tss_esp0 := kernel_stack_top (proc_at s nxt)\<rparr>;
          s = s\<lparr>pvm := vmm_switch (page_dir (proc_at s nxt)) (pvm s)\<rparr>
      in context_switch prev (esp (proc_at s nxt)) s)"

definition scheduler_tick :: "psys \<Rightarrow> psys option" where
  "scheduler_tick s = do {
     let s = s\<lparr>ticks := ticks s + 1\<rparr>;
     let s = s\<lparr>proc_table := map (wake (ticks s)) (proc_table s)\<rparr>;
     prev \<leftarrow> current s;
     case next_ready prev s of
       None \<Rightarrow> Some s
     | Some nxt \<Rightarrow> Some (if nxt = prev then s else switch_to prev nxt s)
   }"

definition proc_yield :: "psys \<Rightarrow> psys option" where
  "proc_yield s = do {
     c \<leftarrow> current s;
     let s = (if pstate (proc_at s c) = PROC_RUNNING
              then upd_proc c (\<lambda>p. p\<lparr>pstate := PROC_READY\<rparr>) s else s);
     scheduler_tick s
   }"

definition proc_sleep :: "u32 \<Rightarrow> psys \<Rightarrow> psys option" where
  "proc_sleep ms s = do {
     c \<leftarrow> current s;
     let s = upd_proc c (\<lambda>p. p\<lparr>sleep_until := ticks s + (ms div 10 + 1)\<rparr>) s;
     let s = upd_proc c (\<lambda>p. p\<lparr>pstate := PROC_SLEEPING\<rparr>) s;
     proc_yield s
   }"

section \<open>Exit, wait, kill\<close>

definition wake_parent :: "nat \<Rightarrow> psys \<Rightarrow> psys" where
  "wake_parent c s = (case proc_get (ppid (proc_at s c)) s of
       None \<Rightarrow> s
     | Some q \<Rightarrow> if pstate (proc_at s q) = PROC_BLOCKED
                 then upd_proc q (\<lambda>p. p\<lparr>pstate := PROC_READY\<rparr>) s else s)"

text \<open>\<^verbatim>\<open>proc_exit\<close> up to its last statement, the loop of a process that is never resumed.\<close>

definition proc_exit :: "u32 \<Rightarrow> psys \<Rightarrow> psys option" where
  "proc_exit code s = do {
     c \<leftarrow> current s;
     let s = upd_proc c (\<lambda>p. p\<lparr>pstate := PROC_ZOMBIE\<rparr>) s;
     let s = upd_proc c (\<lambda>p. p\<lparr>exit_code := code\<rparr>) s;
     let s = wake_parent c s;
     s \<leftarrow> (if page_dir (proc_at s c) \<noteq> vmm_get_kernel_directory (pvm s)
           then do {
             v \<leftarrow> vmm_destroy_directory (page_dir (proc_at s c)) (pvm s);
             Some ((upd_proc c (\<lambda>p. p\<lparr>page_dir := vmm_get_kernel_directory v\<rparr>) s)\<lparr>pvm := v\<rparr>)
           } else Some s);
     proc_yield s
   }"

text \<open>
  One round of the loop of \<^verbatim>\<open>proc_wait\<close>: it returns a child, finds that there is none, or
  blocks and gives up the CPU; the round is done again when the process is resumed.
\<close>

datatype wait_result = Reaped u32 u32 | No_child | Blocked

definition proc_wait_round :: "u32 \<Rightarrow> psys \<Rightarrow> (wait_result \<times> psys) option" where
  "proc_wait_round wpid s = do {
     c \<leftarrow> current s;
     case List.find (\<lambda>i. pstate (proc_at s i) = PROC_ZOMBIE \<and> ppid (proc_at s i) = pid (proc_at s c)
                        \<and> (wpid = -1 \<or> pid (proc_at s i) = wpid)) [0..<MAX_PROCS] of
       Some i \<Rightarrow> Some (Reaped (pid (proc_at s i)) (exit_code (proc_at s i)),
                        upd_proc i (\<lambda>p. p\<lparr>pstate := PROC_UNUSED\<rparr>) s)
     | None \<Rightarrow>
         if \<not> (\<exists>i\<in>set [0..<MAX_PROCS]. ppid (proc_at s i) = pid (proc_at s c)
                  \<and> pstate (proc_at s i) \<noteq> PROC_UNUSED)
         then Some (No_child, s)
         else do {
           s \<leftarrow> proc_yield (upd_proc c (\<lambda>p. p\<lparr>pstate := PROC_BLOCKED\<rparr>) s);
           Some (Blocked, s)
         }
   }"

text \<open>A shift of a 32-bit value by a negative amount or by 32 and more is undefined in C.\<close>

definition proc_kill :: "u32 \<Rightarrow> u32 \<Rightarrow> psys \<Rightarrow> psys option" where
  "proc_kill p sig s =
     (case proc_get p s of
        None \<Rightarrow> Some s
      | Some i \<Rightarrow>
          if \<not> sig < 32 then None
          else let s = upd_proc i (\<lambda>q. q\<lparr>pending_sigs := pending_sigs q OR push_bit (unat sig) 1\<rparr>) s
               in Some (if pstate (proc_at s i) = PROC_BLOCKED \<or> pstate (proc_at s i) = PROC_SLEEPING
                        then upd_proc i (\<lambda>q. q\<lparr>pstate := PROC_READY\<rparr>) s else s))"

section \<open>What a switch changes\<close>

abbreviation st :: "psys \<Rightarrow> nat \<Rightarrow> proc_state" where
  "st s i \<equiv> pstate (proc_at s i)"

lemma upd_proc_sel [simp]:
  "current_proc (upd_proc i f s) = current_proc s" "ticks (upd_proc i f s) = ticks s"
  "pvm (upd_proc i f s) = pvm s" "kmem (upd_proc i f s) = kmem s" "cpu_regs (upd_proc i f s) = cpu_regs s"
  "table_addr (upd_proc i f s) = table_addr s" "next_kpid (upd_proc i f s) = next_kpid s"
  "next_fpid (upd_proc i f s) = next_fpid s" "tss_esp0 (upd_proc i f s) = tss_esp0 s"
  "length (proc_table (upd_proc i f s)) = length (proc_table s)"
  by (simp_all add: upd_proc_def)

lemma proc_at_upd [simp]:
  "j < length (proc_table s) \<Longrightarrow> proc_at (upd_proc i f s) j = (if i = j then f (proc_at s j) else proc_at s j)"
  by (simp add: upd_proc_def nth_list_update)

lemma push_sel [simp]:
  "current_proc (push v s) = current_proc s" "ticks (push v s) = ticks s" "pvm (push v s) = pvm s"
  "proc_table (push v s) = proc_table s" "table_addr (push v s) = table_addr s"
  "next_kpid (push v s) = next_kpid s" "next_fpid (push v s) = next_fpid s" "tss_esp0 (push v s) = tss_esp0 s"
  by (simp_all add: push_def Let_def)

lemma pop_sel [simp]:
  "current_proc (pop f s) = current_proc s" "ticks (pop f s) = ticks s" "pvm (pop f s) = pvm s"
  "proc_table (pop f s) = proc_table s" "table_addr (pop f s) = table_addr s" "kmem (pop f s) = kmem s"
  "next_kpid (pop f s) = next_kpid s" "next_fpid (pop f s) = next_fpid s" "tss_esp0 (pop f s) = tss_esp0 s"
  by (simp_all add: pop_def Let_def)

lemma context_switch_sel [simp]:
  "current_proc (context_switch p e s) = current_proc s" "ticks (context_switch p e s) = ticks s"
  "pvm (context_switch p e s) = pvm s" "table_addr (context_switch p e s) = table_addr s"
  "next_kpid (context_switch p e s) = next_kpid s" "next_fpid (context_switch p e s) = next_fpid s"
  "tss_esp0 (context_switch p e s) = tss_esp0 s"
  "length (proc_table (context_switch p e s)) = length (proc_table s)"
  by (simp_all add: context_switch_def Let_def)

lemma proc_at_context_switch:
  assumes "j < length (proc_table s)"
  shows "\<exists>v. proc_at (context_switch p e s) j = (proc_at s j)\<lparr>esp := v\<rparr>"
proof (cases "p = j")
  case False
  have "(proc_at s j)\<lparr>esp := esp (proc_at s j)\<rparr> = proc_at s j" by simp
  with False assms show ?thesis by (intro exI [of _ "esp (proc_at s j)"]) (simp add: context_switch_def Let_def)
qed (use assms in \<open>auto simp: context_switch_def Let_def\<close>)

text \<open>\<open>moved s t X\<close>: \<open>t\<close> differs from \<open>s\<close> in the table only by the states \<open>X\<close> and stack pointers.\<close>

definition moved :: "psys \<Rightarrow> psys \<Rightarrow> (nat \<Rightarrow> proc_state) \<Rightarrow> bool" where
  "moved s t X \<longleftrightarrow> length (proc_table t) = length (proc_table s)
     \<and> (\<forall>i<length (proc_table s). \<exists>v. proc_at t i = (proc_at s i)\<lparr>pstate := X i, esp := v\<rparr>)
     \<and> next_kpid t = next_kpid s \<and> next_fpid t = next_fpid s \<and> table_addr t = table_addr s"

lemma movedD:
  assumes "moved s t X" and "i < length (proc_table s)"
  shows "st t i = X i" "pid (proc_at t i) = pid (proc_at s i)" "ppid (proc_at t i) = ppid (proc_at s i)"
    "sleep_until (proc_at t i) = sleep_until (proc_at s i)" "exit_code (proc_at t i) = exit_code (proc_at s i)"
    "page_dir (proc_at t i) = page_dir (proc_at s i)" "fds (proc_at t i) = fds (proc_at s i)"
proof -
  from assms obtain v where "proc_at t i = (proc_at s i)\<lparr>pstate := X i, esp := v\<rparr>"
    unfolding moved_def by blast
  then show "st t i = X i" "pid (proc_at t i) = pid (proc_at s i)" "ppid (proc_at t i) = ppid (proc_at s i)"
    "sleep_until (proc_at t i) = sleep_until (proc_at s i)" "exit_code (proc_at t i) = exit_code (proc_at s i)"
    "page_dir (proc_at t i) = page_dir (proc_at s i)" "fds (proc_at t i) = fds (proc_at s i)" by simp_all
qed

lemma moved_trans:
  assumes "moved s t X" and "moved t u Y"
  shows "moved s u Y"
  unfolding moved_def
proof (intro conjI allI impI)
  fix i assume i: "i < length (proc_table s)"
  from assms(1) i obtain v where "proc_at t i = (proc_at s i)\<lparr>pstate := X i, esp := v\<rparr>"
    unfolding moved_def by blast
  moreover from assms i obtain w where "proc_at u i = (proc_at t i)\<lparr>pstate := Y i, esp := w\<rparr>"
    unfolding moved_def by metis
  ultimately show "\<exists>v. proc_at u i = (proc_at s i)\<lparr>pstate := Y i, esp := v\<rparr>" by auto
qed (use assms in \<open>auto simp: moved_def\<close>)

lemma moved_cong: "moved s t X \<Longrightarrow> (\<And>i. i < length (proc_table s) \<Longrightarrow> X i = Y i) \<Longrightarrow> moved s t Y"
  unfolding moved_def by auto

lemma moved_upd:
  assumes "f (proc_at s c) = (proc_at s c)\<lparr>pstate := x\<rparr>" and "c < length (proc_table s)"
  shows "moved s (upd_proc c f s) (\<lambda>i. if i = c then x else st s i)"
  unfolding moved_def
proof (intro conjI allI impI)
  fix i assume "i < length (proc_table s)"
  with assms show "\<exists>v. proc_at (upd_proc c f s) i = (proc_at s i)\<lparr>pstate := if i = c then x else st s i, esp := v\<rparr>"
    by (intro exI [of _ "esp (proc_at s i)"]) auto
qed simp_all

section \<open>The choice of the scheduler\<close>

definition woken :: "psys \<Rightarrow> nat \<Rightarrow> proc_state" where
  "woken s i = pstate (wake (ticks s + 1) (proc_at s i))"

text \<open>The first ready process after \<open>c\<close>, going round the table and ending at \<open>c\<close> itself.\<close>

definition chosen :: "(nat \<Rightarrow> proc_state) \<Rightarrow> nat \<Rightarrow> nat option" where
  "chosen X c = map_option (\<lambda>i. (c + i) mod MAX_PROCS)
     (List.find (\<lambda>i. X ((c + i) mod MAX_PROCS) = PROC_READY) [1..<Suc MAX_PROCS])"

lemma MAX_PROCS_pos [simp]: "0 < MAX_PROCS" "MAX_PROCS = 64"
  by (simp_all add: MAX_PROCS_def)

lemma chosen_None: "chosen X c = None \<longleftrightarrow> (\<forall>i\<in>{1..64}. X ((c + i) mod 64) \<noteq> PROC_READY)"
  by (auto simp: chosen_def find_None_iff)

lemma find_range_Some:
  "List.find P [a..<b] = Some i \<longleftrightarrow> a \<le> i \<and> i < b \<and> P i \<and> (\<forall>j. a \<le> j \<longrightarrow> j < i \<longrightarrow> \<not> P j)"
proof -
  have "List.find P [a..<b] = Some i \<longleftrightarrow>
      (\<exists>k<b - a. P (a + k) \<and> i = a + k \<and> (\<forall>j<k. \<not> P (a + j)))"
    by (auto simp: find_Some_iff)
  also have "\<dots> \<longleftrightarrow> a \<le> i \<and> i < b \<and> P i \<and> (\<forall>j. a \<le> j \<longrightarrow> j < i \<longrightarrow> \<not> P j)"
  proof
    assume "\<exists>k<b - a. P (a + k) \<and> i = a + k \<and> (\<forall>j<k. \<not> P (a + j))"
    then obtain k where k: "k < b - a" "P (a + k)" "i = a + k" "\<forall>j<k. \<not> P (a + j)" by blast
    have "\<not> P j" if "a \<le> j" "j < i" for j
      using k(4) [rule_format, of "j - a"] that k(3) by simp
    with k show "a \<le> i \<and> i < b \<and> P i \<and> (\<forall>j. a \<le> j \<longrightarrow> j < i \<longrightarrow> \<not> P j)" by simp
  next
    assume "a \<le> i \<and> i < b \<and> P i \<and> (\<forall>j. a \<le> j \<longrightarrow> j < i \<longrightarrow> \<not> P j)"
    then show "\<exists>k<b - a. P (a + k) \<and> i = a + k \<and> (\<forall>j<k. \<not> P (a + j))"
      by (intro exI [of _ "i - a"]) auto
  qed
  finally show ?thesis .
qed

lemma chosen_Some:
  "chosen X c = Some n \<longleftrightarrow> (\<exists>i. (1 \<le> i \<and> i < Suc 64 \<and> X ((c + i) mod 64) = PROC_READY
      \<and> (\<forall>j. 1 \<le> j \<longrightarrow> j < i \<longrightarrow> X ((c + j) mod 64) \<noteq> PROC_READY)) \<and> (c + i) mod 64 = n)"
  by (simp only: chosen_def map_option_eq_Some find_range_Some MAX_PROCS_pos(2))

lemma chosen_ready:
  assumes "i < 64" and "X i = PROC_READY" and "c < 64"
  shows "chosen X c \<noteq> None"
proof
  assume "chosen X c = None"
  then have no: "\<And>j. 1 \<le> j \<Longrightarrow> j \<le> 64 \<Longrightarrow> X ((c + j) mod 64) \<noteq> PROC_READY"
    by (simp add: chosen_None)
  define j where "j = (if c < i then i - c else i + 64 - c)"
  have "c + j = i \<or> c + j = i + 64" using assms(3) by (auto simp: j_def)
  then have "(c + j) mod 64 = i" using assms(1) by auto
  moreover have "1 \<le> j" "j \<le> 64" using assms(1,3) by (auto simp: j_def)
  ultimately show False using no [of j] assms(2) by simp
qed

text \<open>The effect of a scheduler round on the table.\<close>

definition after_switch :: "(nat \<Rightarrow> proc_state) \<Rightarrow> nat \<Rightarrow> nat \<Rightarrow> proc_state" where
  "after_switch X c i =
     (case chosen X c of None \<Rightarrow> X i
      | Some n \<Rightarrow> if n = c then X i else if i = n then PROC_RUNNING
                  else if i = c \<and> X c = PROC_RUNNING then PROC_READY else X i)"

definition runs_next :: "(nat \<Rightarrow> proc_state) \<Rightarrow> nat \<Rightarrow> nat" where
  "runs_next X c = (case chosen X c of None \<Rightarrow> c | Some n \<Rightarrow> n)"

lemma next_ready_chosen: "next_ready c s = chosen (st s) c"
  by (simp add: next_ready_def chosen_def)

lemma chosen_cong: "(\<And>i. i < 64 \<Longrightarrow> X i = Y i) \<Longrightarrow> chosen X c = chosen Y c"
  by (simp add: chosen_def)

lemma scheduler_tick_some:
  assumes len: "length (proc_table s) = 64" and cur: "current_proc s = Some c" "c < 64"
  obtains t where "scheduler_tick s = Some t" "moved s t (after_switch (woken s) c)"
    "current_proc t = Some (runs_next (woken s) c)" "ticks t = ticks s + 1"
    "runs_next (woken s) c \<noteq> c \<Longrightarrow> cr3 (pvm t) = page_dir (proc_at s (runs_next (woken s) c))
       \<and> tss_esp0 t = kernel_stack_top (proc_at s (runs_next (woken s) c))"
proof -
  define s1 where "s1 = s\<lparr>ticks := ticks s + 1, proc_table := map (wake (ticks s + 1)) (proc_table s)\<rparr>"
  have s1: "length (proc_table s1) = 64" "current_proc s1 = Some c" "ticks s1 = ticks s + 1"
    "next_kpid s1 = next_kpid s" "next_fpid s1 = next_fpid s" "table_addr s1 = table_addr s"
    using len cur by (simp_all add: s1_def)
  have at1: "\<exists>v. proc_at s1 i = (proc_at s i)\<lparr>pstate := woken s i, esp := v\<rparr>" if "i < 64" for i
    using that len by (intro exI [of _ "esp (proc_at s i)"]) (simp add: s1_def woken_def wake_def)
  have w1: "st s1 i = woken s i" if "i < 64" for i
    using that len by (simp add: s1_def woken_def)
  have m1: "moved s s1 (woken s)"
    unfolding moved_def using len s1 at1 by simp
  have ch: "next_ready c s1 = chosen (woken s) c"
    unfolding next_ready_chosen by (rule chosen_cong) (rule w1)
  have "s\<lparr>ticks := ticks s + 1\<rparr>\<lparr>proc_table := map (wake (ticks (s\<lparr>ticks := ticks s + 1\<rparr>)))
      (proc_table (s\<lparr>ticks := ticks s + 1\<rparr>))\<rparr> = s1" by (simp add: s1_def)
  then have "scheduler_tick s = do { prev \<leftarrow> current s1; case next_ready prev s1 of None \<Rightarrow> Some s1
     | Some nxt \<Rightarrow> Some (if nxt = prev then s1 else switch_to prev nxt s1) }"
    unfolding scheduler_tick_def Let_def by (simp only:)
  then have run: "scheduler_tick s = (case chosen (woken s) c of None \<Rightarrow> Some s1
     | Some nxt \<Rightarrow> Some (if nxt = c then s1 else switch_to c nxt s1))"
    using cur s1(2) by (simp add: current_def ch)
  show thesis
  proof (cases "chosen (woken s) c")
    case None
    with run m1 s1 show thesis
      by (intro that [of s1]) (simp_all add: runs_next_def after_switch_def [abs_def])
  next
    case (Some n)
    then obtain i where "n = (c + i) mod 64" "woken s n = PROC_READY" by (auto simp: chosen_Some)
    then have n: "n < 64" "woken s n = PROC_READY" by simp_all
    show thesis
    proof (cases "n = c")
      case True
      with run Some m1 s1 show thesis
        by (intro that [of s1]) (simp_all add: runs_next_def after_switch_def [abs_def])
    next
      case False
      define s2 where "s2 = (if st s1 c = PROC_RUNNING then upd_proc c (\<lambda>p. p\<lparr>pstate := PROC_READY\<rparr>) s1 else s1)"
      define s3 where "s3 = upd_proc n (\<lambda>p. p\<lparr>pstate := PROC_RUNNING\<rparr>) s2"
      define s4 where "s4 = s3\<lparr>current_proc := Some n, tss_esp0 := kernel_stack_top (proc_at s3 n),
          pvm := vmm_switch (page_dir (proc_at s3 n)) (pvm s3)\<rparr>"
      define t where "t = context_switch c (esp (proc_at s4 n)) s4"
      have r: "scheduler_tick s = Some t"
        using run Some False by (simp add: switch_to_def Let_def s2_def s3_def s4_def t_def)
      have len4: "length (proc_table s4) = 64" using s1(1) by (simp add: s4_def s3_def s2_def)
      have at4: "\<exists>v. proc_at s4 i = (proc_at s i)\<lparr>pstate := after_switch (woken s) c i, esp := v\<rparr>"
        if i: "i < 64" for i
      proof -
        obtain v where v: "proc_at s1 i = (proc_at s i)\<lparr>pstate := woken s i, esp := v\<rparr>" using at1 [OF i] by blast
        have "proc_at s4 i = (proc_at s i)\<lparr>pstate := after_switch (woken s) c i, esp := v\<rparr>"
          using i s1(1) v cur(2) n False Some w1
          by (auto simp: s4_def s3_def s2_def after_switch_def)
        then show ?thesis by blast
      qed
      have "moved s t (after_switch (woken s) c)"
        unfolding moved_def
      proof (intro conjI allI impI)
        fix i assume "i < length (proc_table s)"
        then have i: "i < 64" using len by simp
        obtain v where v: "proc_at s4 i = (proc_at s i)\<lparr>pstate := after_switch (woken s) c i, esp := v\<rparr>"
          using at4 [OF i] by blast
        have "i < length (proc_table s4)" using i len4 by simp
        from proc_at_context_switch [OF this, of c "esp (proc_at s4 n)"] v
        show "\<exists>v. proc_at t i = (proc_at s i)\<lparr>pstate := after_switch (woken s) c i, esp := v\<rparr>"
          by (auto simp: t_def)
      qed (use len len4 s1 in \<open>simp_all add: t_def s4_def s3_def s2_def\<close>)
      moreover have "kernel_stack_top (proc_at s3 n) = kernel_stack_top (proc_at s n)"
        "page_dir (proc_at s3 n) = page_dir (proc_at s n)"
        using at4 [OF n(1)] by (auto simp: s4_def)
      ultimately show thesis
        using r Some s1 by (intro that [of t]) (simp_all add: t_def s4_def s3_def s2_def runs_next_def vmm_switch_def)
    qed
  qed
qed

section \<open>The invariant of the scheduler\<close>

definition runnable :: "proc_state \<Rightarrow> bool" where
  "runnable x \<longleftrightarrow> x = PROC_RUNNING \<or> x = PROC_READY"

text \<open>No process but \<open>c\<close> is marked as running; the idle process is never blocked.\<close>

definition sched_pre :: "psys \<Rightarrow> nat \<Rightarrow> bool" where
  "sched_pre s c \<longleftrightarrow> length (proc_table s) = 64 \<and> current_proc s = Some c \<and> c < 64
     \<and> (\<forall>i<64. st s i = PROC_RUNNING \<longrightarrow> i = c) \<and> runnable (st s 0)"

definition sched_inv :: "psys \<Rightarrow> bool" where
  "sched_inv s \<longleftrightarrow> (\<exists>c. sched_pre s c \<and> runnable (st s c))"

lemma sched_preD:
  assumes "sched_pre s c"
  shows "length (proc_table s) = 64" "current_proc s = Some c" "c < 64" "current s = Some c" "runnable (st s 0)"
    "\<And>i. i < 64 \<Longrightarrow> st s i = PROC_RUNNING \<Longrightarrow> i = c"
  using assms by (auto simp: sched_pre_def current_def)

lemma sched_inv_current:
  assumes "sched_inv s" and "current_proc s = Some c"
  shows "sched_pre s c" "runnable (st s c)"
  using assms by (auto simp: sched_inv_def sched_pre_def)

lemma not_runnable [simp]: "\<not> runnable PROC_UNUSED" "\<not> runnable PROC_ZOMBIE" "\<not> runnable PROC_BLOCKED"
  "\<not> runnable PROC_SLEEPING" "runnable PROC_READY" "runnable PROC_RUNNING"
  by (simp_all add: runnable_def)

lemma sched_pre_upd:
  assumes "sched_pre s c" and "i < 64"
    and "pstate (f (proc_at s i)) = PROC_RUNNING \<Longrightarrow> i = c"
    and "i = 0 \<Longrightarrow> runnable (pstate (f (proc_at s i)))"
  shows "sched_pre (upd_proc i f s) c"
  using assms by (auto simp: sched_pre_def)

lemma woken_cases: "woken s i = st s i \<or> st s i = PROC_SLEEPING \<and> woken s i = PROC_READY"
  by (auto simp: woken_def wake_def)

lemma runnable_woken: "runnable (st s i) \<Longrightarrow> woken s i = st s i"
  using woken_cases [of s i] by (auto simp: runnable_def)

lemma tick_inv:
  assumes pre: "sched_pre s c"
  obtains t where "scheduler_tick s = Some t" "sched_inv t" "moved s t (after_switch (woken s) c)"
    "current_proc t = Some (runs_next (woken s) c)" "ticks t = ticks s + 1"
proof -
  note P = sched_preD [OF pre]
  obtain t where t: "scheduler_tick s = Some t" "moved s t (after_switch (woken s) c)"
    "current_proc t = Some (runs_next (woken s) c)" "ticks t = ticks s + 1"
    by (rule scheduler_tick_some [OF P(1-3)])
  let ?Y = "woken s" and ?n = "runs_next (woken s) c"
  have run: "?Y i = PROC_RUNNING \<Longrightarrow> i = c" if "i < 64" for i
    using that P(6) [of i] woken_cases [of s i] by auto
  have idle: "runnable (?Y 0)" using P(5) runnable_woken [OF P(5)] by simp
  have st: "st t i = after_switch ?Y c i" if "i < 64" for i
    using movedD(1) [OF t(2), of i] that P(1) by simp
  have n: "?n < 64" "runnable (after_switch ?Y c ?n)" "runnable (after_switch ?Y c 0)"
    "i < 64 \<Longrightarrow> after_switch ?Y c i = PROC_RUNNING \<Longrightarrow> i = ?n" for i
  proof -
    have all: "?n < 64 \<and> runnable (after_switch ?Y c ?n) \<and> runnable (after_switch ?Y c 0)
      \<and> (\<forall>i<64. after_switch ?Y c i = PROC_RUNNING \<longrightarrow> i = ?n)"
    proof (cases "chosen ?Y c")
      case None
      then have "?Y 0 \<noteq> PROC_READY" using chosen_ready [of 0 ?Y c] P(3) by auto
      then have "?Y 0 = PROC_RUNNING" using idle by (simp add: runnable_def)
      then have "c = 0" using run [of 0] by simp
      with None idle run P(3) show ?thesis by (simp add: runs_next_def after_switch_def)
    next
      case (Some m)
      then have m: "m < 64" "?Y m = PROC_READY" by (auto simp: chosen_Some)
      with Some idle run show ?thesis
        by (auto simp: runs_next_def after_switch_def runnable_def)
    qed
    then show "?n < 64" "runnable (after_switch ?Y c ?n)" "runnable (after_switch ?Y c 0)"
      "i < 64 \<Longrightarrow> after_switch ?Y c i = PROC_RUNNING \<Longrightarrow> i = ?n" by blast+
  qed
  have "length (proc_table t) = 64" using t(2) P(1) by (simp add: moved_def)
  then have "sched_pre t ?n"
    using t(3) n st by (auto simp: sched_pre_def)
  moreover have "runnable (st t ?n)" using n(1,2) st by simp
  ultimately have "sched_inv t" by (auto simp: sched_inv_def)
  with t show thesis by (intro that)
qed

lemma yield_eq:
  assumes "sched_pre s c"
  shows "proc_yield s = scheduler_tick (if st s c = PROC_RUNNING
      then upd_proc c (\<lambda>p. p\<lparr>pstate := PROC_READY\<rparr>) s else s)"
  using sched_preD(4) [OF assms] by (simp add: proc_yield_def)

lemma yield_pre:
  assumes "sched_pre s c"
  shows "sched_pre (if st s c = PROC_RUNNING then upd_proc c (\<lambda>p. p\<lparr>pstate := PROC_READY\<rparr>) s else s) c"
  using assms sched_preD(3) [OF assms] by (auto intro!: sched_pre_upd simp: runnable_def)

lemma yield_inv:
  assumes "sched_pre s c"
  obtains t where "proc_yield s = Some t" "sched_inv t"
  using tick_inv [OF yield_pre [OF assms]] yield_eq [OF assms] by metis

section \<open>What can happen\<close>

text \<open>
  The timer, and what the process that runs can ask for. The idle process, entry 0, is the loop
  \<^verbatim>\<open>while (1) hlt\<close> of \<^verbatim>\<open>kernel_main\<close>: it never sleeps, waits, forks or exits.
\<close>

inductive kstep :: "psys \<Rightarrow> psys \<Rightarrow> bool" where
  timer: "scheduler_tick s = Some t \<Longrightarrow> kstep s t"
| yield: "proc_yield s = Some t \<Longrightarrow> kstep s t"
| sleep: "current_proc s \<noteq> Some 0 \<Longrightarrow> proc_sleep ms s = Some t \<Longrightarrow> kstep s t"
| exit: "current_proc s \<noteq> Some 0 \<Longrightarrow> proc_exit code s = Some t \<Longrightarrow> kstep s t"
| wait: "current_proc s \<noteq> Some 0 \<Longrightarrow> proc_wait_round p s = Some (r, t) \<Longrightarrow> kstep s t"
| create: "proc_create_kernel entry name s = Some (i, t) \<Longrightarrow> kstep s t"
| fork: "current_proc s \<noteq> Some 0 \<Longrightarrow> proc_fork s = Some (i, t) \<Longrightarrow> kstep s t"
| kill: "proc_kill p sig s = Some t \<Longrightarrow> kstep s t"

inductive_cases kstepE: "kstep s t"

lemma sched_pre_fields:
  assumes "sched_pre s c"
  shows "sched_pre (s\<lparr>kmem := m\<rparr>) c" "sched_pre (s\<lparr>pvm := v\<rparr>) c" "sched_pre (s\<lparr>next_kpid := a\<rparr>) c"
    "sched_pre (s\<lparr>next_fpid := a\<rparr>) c"
  using assms by (simp_all add: sched_pre_def)

lemma alloc_proc_cases:
  obtains "alloc_proc s = (None, s)" "\<And>i. i < 64 \<Longrightarrow> st s i \<noteq> PROC_UNUSED"
  | i where "alloc_proc s = (Some i, (upd_proc i (\<lambda>_. zero_process) s)\<lparr>kmem := kmemset (kstack s i) 0 8192 (kmem s)\<rparr>)"
    "i < 64" "st s i = PROC_UNUSED" "\<And>j. j < i \<Longrightarrow> st s j \<noteq> PROC_UNUSED"
proof (cases "List.find (\<lambda>i. st s i = PROC_UNUSED) [0..<MAX_PROCS]")
  case None
  then have "\<forall>i<MAX_PROCS. st s i \<noteq> PROC_UNUSED" unfolding find_upt_None_iff .
  moreover have "alloc_proc s = (None, s)" by (simp only: alloc_proc_def None option.case)
  ultimately show thesis using that(1) by simp
next
  case (Some i)
  then have "i < MAX_PROCS \<and> st s i = PROC_UNUSED \<and> (\<forall>j<i. st s j \<noteq> PROC_UNUSED)"
    unfolding find_upt_Some_iff .
  then have "i < 64" "st s i = PROC_UNUSED" "\<And>j. j < i \<Longrightarrow> st s j \<noteq> PROC_UNUSED"
    unfolding MAX_PROCS_pos(2) by blast+
  moreover have "alloc_proc s = (Some i, (upd_proc i (\<lambda>_. zero_process) s)\<lparr>kmem := kmemset (kstack s i) 0 8192 (kmem s)\<rparr>)"
    by (simp only: alloc_proc_def Some option.case)
  ultimately show thesis by (intro that(2))
qed

lemma proc_getD:
  assumes "proc_get p s = Some i"
  shows "i < 64" "pid (proc_at s i) = p" "st s i \<noteq> PROC_UNUSED"
  using assms find_upt_Some_iff [of _ MAX_PROCS i] unfolding proc_get_def by auto

lemma upd_proc_twice [simp]: "upd_proc i f (upd_proc i g s) = upd_proc i (\<lambda>p. if i < length (proc_table s) then f (g p) else f p) s"
  by (simp add: upd_proc_def list_update_beyond)

lemma upd_proc_fields [simp]:
  "upd_proc i f (s\<lparr>kmem := m\<rparr>) = (upd_proc i f s)\<lparr>kmem := m\<rparr>"
  "upd_proc i f (s\<lparr>pvm := v\<rparr>) = (upd_proc i f s)\<lparr>pvm := v\<rparr>"
  "upd_proc i f (s\<lparr>next_kpid := a\<rparr>) = (upd_proc i f s)\<lparr>next_kpid := a\<rparr>"
  "upd_proc i f (s\<lparr>next_fpid := a\<rparr>) = (upd_proc i f s)\<lparr>next_fpid := a\<rparr>"
  by (simp_all add: upd_proc_def)

lemma kstack_upd [simp]: "kstack (upd_proc i f s) = kstack s" "kstack (s\<lparr>kmem := m\<rparr>) = kstack s"
  "kstack (s\<lparr>pvm := v\<rparr>) = kstack s" "kstack (s\<lparr>next_kpid := a\<rparr>) = kstack s"
  "kstack (s\<lparr>next_fpid := a\<rparr>) = kstack s"
  by (simp_all add: kstack_def fun_eq_iff)

text \<open>The entry and the stack that \<^verbatim>\<open>proc_create_kernel\<close> makes.\<close>

lemma create_some:
  assumes t: "proc_create_kernel entry name s = Some (Some i, t)" and len: "length (proc_table s) = 64"
  obtains parent nm dir where "i < 64" "st s i = PROC_UNUSED" "\<And>j. j < i \<Longrightarrow> st s j \<noteq> PROC_UNUSED"
    "current_proc s \<noteq> None \<Longrightarrow> i \<noteq> the (current_proc s) \<Longrightarrow> parent = pid (proc_at s (the (current_proc s)))"
    "t = (upd_proc i (\<lambda>_. zero_process\<lparr>pid := next_kpid s, ppid := parent, pstate := PROC_READY,
       page_dir := kernel_dir (pvm s), pname := nm, cwd := dir, esp := kstack s i + 8192 - 4 - 16,
       kernel_stack_top := kstack s i + 8192\<rparr>) s)
       \<lparr>next_kpid := next_kpid s + 1, kmem := kmemset (kstack s i + 8192 - 4 - 16) 0 16
          (wr32 (kmemset (kstack s i) 0 8192 (kmem s)) (kstack s i + 8192 - 4) entry)\<rparr>"
proof (cases rule: alloc_proc_cases [of s])
  case 1
  then show thesis using t by (simp add: proc_create_kernel_def)
next
  case (2 k)
  have "k = i" using t 2(1) by (auto simp: proc_create_kernel_def Let_def bind_eq_Some_conv split: option.splits)
  note A = 2 [unfolded this]
  define parent where "parent = (case current_proc s of None \<Rightarrow> 0
     | Some c \<Rightarrow> pid (if c = i then zero_process else proc_at s c))"
  obtain nm dir where nm: "kstrcpy (pname zero_process) name = Some nm" "kstrcpy (cwd zero_process) (cstr ''/'') = Some dir"
    using t len A(2) unfolding proc_create_kernel_def A(1)
    by (auto simp: Let_def bind_eq_Some_conv current_def split: option.splits if_splits)
  have "t = (upd_proc i (\<lambda>_. zero_process\<lparr>pid := next_kpid s, ppid := parent, pstate := PROC_READY,
       page_dir := kernel_dir (pvm s), pname := nm, cwd := dir, esp := kstack s i + 8192 - 4 - 16,
       kernel_stack_top := kstack s i + 8192\<rparr>) s)
       \<lparr>next_kpid := next_kpid s + 1, kmem := kmemset (kstack s i + 8192 - 4 - 16) 0 16
          (wr32 (kmemset (kstack s i) 0 8192 (kmem s)) (kstack s i + 8192 - 4) entry)\<rparr>"
    using t len A(2) nm unfolding proc_create_kernel_def A(1) parent_def
    by (auto simp: Let_def bind_eq_Some_conv vmm_get_kernel_directory_def current_def
        split: option.splits if_splits)
  then show thesis
    by (intro that [of parent dir nm]) (use A(2-4) in \<open>auto simp: parent_def\<close>)
qed

lemma create_none:
  assumes "proc_create_kernel entry name s = Some (None, t)"
  shows "t = s"
  using assms by (cases rule: alloc_proc_cases [of s])
    (auto simp: proc_create_kernel_def Let_def bind_eq_Some_conv)

lemma create_inv:
  assumes pre: "sched_pre s c" and run: "runnable (st s c)" and t: "proc_create_kernel entry name s = Some (r, t)"
  shows "sched_inv t"
proof (cases r)
  case None
  with create_none [of entry name s t] t pre run show ?thesis by (auto simp: sched_inv_def)
next
  case (Some i)
  note P = sched_preD [OF pre]
  obtain parent nm dir where i: "i < 64" "st s i = PROC_UNUSED"
    and t': "t = (upd_proc i (\<lambda>_. zero_process\<lparr>pid := next_kpid s, ppid := parent, pstate := PROC_READY,
       page_dir := kernel_dir (pvm s), pname := nm, cwd := dir, esp := kstack s i + 8192 - 4 - 16,
       kernel_stack_top := kstack s i + 8192\<rparr>) s)
       \<lparr>next_kpid := next_kpid s + 1, kmem := kmemset (kstack s i + 8192 - 4 - 16) 0 16
          (wr32 (kmemset (kstack s i) 0 8192 (kmem s)) (kstack s i + 8192 - 4) entry)\<rparr>"
    by (rule create_some [OF t [unfolded Some] P(1)]) blast
  have ne: "i \<noteq> 0" "i \<noteq> c" using i(2) P(5) run by (metis not_runnable(1))+
  have "sched_pre t c"
    unfolding t' by (intro sched_pre_fields sched_pre_upd [OF pre i(1)]) (use ne in simp_all)
  moreover have "st t c = st s c" unfolding t' using ne P(1,3) by simp
  ultimately show ?thesis using run by (auto simp: sched_inv_def)
qed

lemma tickD:
  assumes "sched_pre s c" and "scheduler_tick s = Some t"
  shows "sched_inv t" "moved s t (after_switch (woken s) c)"
    "current_proc t = Some (runs_next (woken s) c)" "ticks t = ticks s + 1"
  by (rule tick_inv [OF assms(1)]; use assms(2) in simp)+

lemma yield_inv': "sched_pre s c \<Longrightarrow> proc_yield s = Some t \<Longrightarrow> sched_inv t"
  using yield_inv [of s c] by (metis option.inject)

lemma fork_some:
  assumes pre: "sched_pre s c" and run: "runnable (st s c)" and t: "proc_fork s = Some (Some i, t)"
  obtains pd v where "i < 64" "st s i = PROC_UNUSED" "i \<noteq> c" "i \<noteq> 0"
    "vmm_clone (page_dir (proc_at s c)) (pvm s) = Some (pd, v)"
    "t = (upd_proc i (\<lambda>_. (proc_at s c)\<lparr>pid := next_fpid s, ppid := pid (proc_at s c), pstate := PROC_READY,
       page_dir := pd, esp := kstack s i + 8192 - (kernel_stack_top (proc_at s c) - esp (proc_at s c)),
       kernel_stack_top := kstack s i + 8192\<rparr>) s)
       \<lparr>next_fpid := next_fpid s + 1, pvm := v,
        kmem := kmemcpy (kstack s i + 8192 - (kernel_stack_top (proc_at s c) - esp (proc_at s c)))
          (esp (proc_at s c)) (unat (kernel_stack_top (proc_at s c) - esp (proc_at s c)))
          (kmemcpy (kstack s i) (kstack s c) 8192 (kmemset (kstack s i) 0 8192 (kmem s)))\<rparr>"
proof (cases rule: alloc_proc_cases [of s])
  case 1
  then show thesis using t by (simp add: proc_fork_def)
next
  case (2 k)
  note P = sched_preD [OF pre]
  have "k = i" using t 2(1) by (auto simp: proc_fork_def Let_def bind_eq_Some_conv split: prod.splits)
  note A = 2 [unfolded this]
  have ne: "i \<noteq> c" "i \<noteq> 0" using A(3) P(5) run by (metis not_runnable(1))+
  have cur: "current (upd_proc i f s\<lparr>kmem := m\<rparr>) = Some c" for f m
    using P(2,3) by (simp add: current_def)
  obtain pd v where v: "vmm_clone (page_dir (proc_at s c)) (pvm s) = Some (pd, v)"
    using t P(1,3) ne A(2) unfolding proc_fork_def A(1)
    by (auto simp: Let_def bind_eq_Some_conv cur split: prod.splits)
  have "t = (upd_proc i (\<lambda>_. (proc_at s c)\<lparr>pid := next_fpid s, ppid := pid (proc_at s c), pstate := PROC_READY,
       page_dir := pd, esp := kstack s i + 8192 - (kernel_stack_top (proc_at s c) - esp (proc_at s c)),
       kernel_stack_top := kstack s i + 8192\<rparr>) s)
       \<lparr>next_fpid := next_fpid s + 1, pvm := v,
        kmem := kmemcpy (kstack s i + 8192 - (kernel_stack_top (proc_at s c) - esp (proc_at s c)))
          (esp (proc_at s c)) (unat (kernel_stack_top (proc_at s c) - esp (proc_at s c)))
          (kmemcpy (kstack s i) (kstack s c) 8192 (kmemset (kstack s i) 0 8192 (kmem s)))\<rparr>"
    using t P(1,3) ne A(2) v unfolding proc_fork_def A(1)
    by (simp add: Let_def cur)
  with v A(2,3) ne show thesis by (intro that)
qed

lemma fork_none:
  assumes "proc_fork s = Some (None, t)"
  shows "t = s"
  using assms by (cases rule: alloc_proc_cases [of s])
    (auto simp: proc_fork_def Let_def bind_eq_Some_conv split: prod.splits)

lemma fork_inv:
  assumes pre: "sched_pre s c" and run: "runnable (st s c)" and t: "proc_fork s = Some (r, t)"
  shows "sched_inv t"
proof (cases r)
  case None
  with fork_none [of s t] t pre run show ?thesis by (auto simp: sched_inv_def)
next
  case (Some i)
  note P = sched_preD [OF pre]
  show ?thesis
  proof (rule fork_some [OF pre run t [unfolded Some]])
    fix pd v
    assume i: "i < 64" "i \<noteq> c" "i \<noteq> 0" and t': "t = (upd_proc i (\<lambda>_. (proc_at s c)\<lparr>pid := next_fpid s,
       ppid := pid (proc_at s c), pstate := PROC_READY, page_dir := pd,
       esp := kstack s i + 8192 - (kernel_stack_top (proc_at s c) - esp (proc_at s c)),
       kernel_stack_top := kstack s i + 8192\<rparr>) s)
       \<lparr>next_fpid := next_fpid s + 1, pvm := v,
        kmem := kmemcpy (kstack s i + 8192 - (kernel_stack_top (proc_at s c) - esp (proc_at s c)))
          (esp (proc_at s c)) (unat (kernel_stack_top (proc_at s c) - esp (proc_at s c)))
          (kmemcpy (kstack s i) (kstack s c) 8192 (kmemset (kstack s i) 0 8192 (kmem s)))\<rparr>"
    have "sched_pre t c"
      unfolding t' by (intro sched_pre_fields sched_pre_upd [OF pre i(1)]) (use i in simp_all)
    moreover have "st t c = st s c" unfolding t' using i P(1,3) by simp
    ultimately show "sched_inv t" using run by (auto simp: sched_inv_def)
  qed
qed

lemma sleep_inv:
  assumes pre: "sched_pre s c" and "c \<noteq> 0" and t: "proc_sleep ms s = Some t"
  shows "sched_inv t"
proof -
  note P = sched_preD [OF pre]
  have "sched_pre (upd_proc c (\<lambda>p. p\<lparr>pstate := PROC_SLEEPING\<rparr>)
      (upd_proc c (\<lambda>p. p\<lparr>sleep_until := ticks s + (ms div 10 + 1)\<rparr>) s)) c"
    using assms P(1,3) by (intro sched_pre_upd) (simp_all add: P(6))
  from yield_inv' [OF this] t show ?thesis
    by (simp add: proc_sleep_def P(4) Let_def del: upd_proc_twice)
qed

lemma wake_parent_sel [simp]:
  "pvm (wake_parent c s) = pvm s" "current_proc (wake_parent c s) = current_proc s"
  "length (proc_table (wake_parent c s)) = length (proc_table s)"
  by (simp_all add: wake_parent_def split: option.split)

lemma wake_parent_pre: "sched_pre s c \<Longrightarrow> sched_pre (wake_parent d s) c"
  using proc_getD(1) [of "ppid (proc_at s d)" s]
  by (auto simp: wake_parent_def intro!: sched_pre_upd split: option.split)

lemma exit_eq:
  fixes code :: u32
  assumes pre: "sched_pre s c"
  defines "s1 \<equiv> wake_parent c (upd_proc c (\<lambda>p. p\<lparr>pstate := PROC_ZOMBIE, exit_code := code\<rparr>) s)"
  shows "proc_exit code s =
    (if page_dir (proc_at s1 c) \<noteq> kernel_dir (pvm s1)
     then do { v \<leftarrow> vmm_destroy_directory (page_dir (proc_at s1 c)) (pvm s1);
               proc_yield ((upd_proc c (\<lambda>p. p\<lparr>page_dir := kernel_dir v\<rparr>) s1)\<lparr>pvm := v\<rparr>) }
     else proc_yield s1)"
proof -
  note P = sched_preD [OF pre]
  have "upd_proc c (\<lambda>p. p\<lparr>exit_code := code\<rparr>) (upd_proc c (\<lambda>p. p\<lparr>pstate := PROC_ZOMBIE\<rparr>) s)
      = upd_proc c (\<lambda>p. p\<lparr>pstate := PROC_ZOMBIE, exit_code := code\<rparr>) s"
    using P(1,3) by simp
  then show ?thesis
    unfolding proc_exit_def Let_def P(4) vmm_get_kernel_directory_def Option.bind.bind_lunit s1_def
    by (simp del: upd_proc_twice)
qed

lemma exit_inv:
  assumes pre: "sched_pre s c" and "c \<noteq> 0" and t: "proc_exit code s = Some t"
  shows "sched_inv t"
proof -
  note P = sched_preD [OF pre]
  let ?s1 = "wake_parent c (upd_proc c (\<lambda>p. p\<lparr>pstate := PROC_ZOMBIE, exit_code := code\<rparr>) s)"
  have s1: "sched_pre ?s1 c"
    using assms(2) P(3) by (intro wake_parent_pre sched_pre_upd [OF pre]) simp_all
  then have "sched_pre ((upd_proc c (\<lambda>p. p\<lparr>page_dir := kernel_dir v\<rparr>) ?s1)\<lparr>pvm := v\<rparr>) c" for v
    using P(3) by (intro sched_pre_fields sched_pre_upd) (auto simp: sched_preD)
  with s1 t show ?thesis
    unfolding exit_eq [OF pre] by (auto simp: bind_eq_Some_conv split: if_splits intro: yield_inv')
qed

lemma wait_inv:
  assumes pre: "sched_pre s c" and run: "runnable (st s c)" and "c \<noteq> 0" and t: "proc_wait_round p s = Some (r, t)"
  shows "sched_inv t"
proof -
  note P = sched_preD [OF pre]
  let ?Q = "\<lambda>i. st s i = PROC_ZOMBIE \<and> ppid (proc_at s i) = pid (proc_at s c) \<and> (p = -1 \<or> pid (proc_at s i) = p)"
  show ?thesis
  proof (cases "List.find ?Q [0..<MAX_PROCS]")
    case (Some i)
    then have "i < MAX_PROCS \<and> ?Q i \<and> (\<forall>j<i. \<not> ?Q j)" unfolding find_upt_Some_iff .
    then have i: "i < 64" "st s i = PROC_ZOMBIE" unfolding MAX_PROCS_pos(2) by blast+
    have ne: "i \<noteq> 0" "i \<noteq> c" using i(2) P(5) run by (metis not_runnable(2))+
    have "t = upd_proc i (\<lambda>p. p\<lparr>pstate := PROC_UNUSED\<rparr>) s"
      using t Some P(4) by (simp add: proc_wait_round_def)
    moreover have "sched_pre (upd_proc i (\<lambda>p. p\<lparr>pstate := PROC_UNUSED\<rparr>) s) c"
      by (rule sched_pre_upd [OF pre i(1)]) (use ne in simp_all)
    ultimately show ?thesis using ne run P(1,3) by (auto simp: sched_inv_def intro!: exI [of _ c])
  next
    case None
    have b: "sched_pre (upd_proc c (\<lambda>p. p\<lparr>pstate := PROC_BLOCKED\<rparr>) s) c"
      by (rule sched_pre_upd [OF pre P(3)]) (use assms(3) in simp_all)
    show ?thesis
    proof (cases "\<exists>i\<in>set [0..<MAX_PROCS]. ppid (proc_at s i) = pid (proc_at s c) \<and> st s i \<noteq> PROC_UNUSED")
      case True
      with t None P(4) have "proc_yield (upd_proc c (\<lambda>p. p\<lparr>pstate := PROC_BLOCKED\<rparr>) s) = Some t"
        by (simp add: proc_wait_round_def bind_eq_Some_conv)
      with b show ?thesis by (rule yield_inv')
    next
      case False
      with t None P(4) have "t = s" by (simp add: proc_wait_round_def)
      with pre run show ?thesis by (auto simp: sched_inv_def)
    qed
  qed
qed

lemma kill_inv:
  assumes pre: "sched_pre s c" and run: "runnable (st s c)" and t: "proc_kill p sig s = Some t"
  shows "sched_inv t"
proof (cases "proc_get p s")
  case None
  with t pre run show ?thesis by (auto simp: proc_kill_def sched_inv_def)
next
  case (Some i)
  note P = sched_preD [OF pre]
  have i: "i < 64" by (rule proc_getD(1) [OF Some])
  let ?s1 = "upd_proc i (\<lambda>q. q\<lparr>pending_sigs := pending_sigs q OR push_bit (unat sig) 1\<rparr>) s"
  have s1: "sched_pre ?s1 c"
    by (rule sched_pre_upd [OF pre i]) (use P(5) P(6) [OF i] in simp_all)
  have t': "t = (if st s i = PROC_BLOCKED \<or> st s i = PROC_SLEEPING
      then upd_proc i (\<lambda>q. q\<lparr>pstate := PROC_READY\<rparr>) ?s1 else ?s1)"
    using t Some i P(1) by (auto simp: proc_kill_def Let_def simp del: upd_proc_twice split: if_splits)
  have "sched_pre t c"
    unfolding t' using s1 i by (auto intro!: sched_pre_upd simp del: upd_proc_twice)
  moreover have "runnable (st t c)"
    unfolding t' using run i P(1,3) by (auto simp: runnable_def)
  ultimately show ?thesis by (auto simp: sched_inv_def)
qed

lemma kstep_inv: "kstep s t \<Longrightarrow> sched_inv s \<Longrightarrow> sched_inv t"
proof -
  assume step: "kstep s t" and "sched_inv s"
  then obtain c where pre: "sched_pre s c" and run: "runnable (st s c)" by (auto simp: sched_inv_def)
  have cur: "current_proc s \<noteq> Some 0 \<longleftrightarrow> c \<noteq> 0" using sched_preD(2) [OF pre] by simp
  from step show "sched_inv t"
  proof cases
    case timer
    then show ?thesis by (rule tickD(1) [OF pre])
  next
    case yield
    then show ?thesis by (rule yield_inv' [OF pre])
  next
    case (sleep ms)
    then show ?thesis using sleep_inv [OF pre] cur by simp
  next
    case (exit code)
    then show ?thesis using exit_inv [OF pre] cur by simp
  next
    case (wait p r)
    then show ?thesis using wait_inv [OF pre run] cur by simp
  next
    case (create entry name i)
    show ?thesis by (rule create_inv [OF pre run create])
  next
    case (fork i)
    show ?thesis by (rule fork_inv [OF pre run fork(2)])
  next
    case (kill p sig)
    show ?thesis by (rule kill_inv [OF pre run kill])
  qed
qed

section \<open>Stack frames\<close>

lemma kmemset_eq:
  assumes "n \<le> 4294967296"
  shows "kmemset p v n m = (\<lambda>c. if unat (c - p) < n then v else m c)"
  using assms
proof (induction n)
  case 0
  then show ?case by (simp add: kmemset_def)
next
  case (Suc n)
  have eq: "c = p + of_nat n \<longleftrightarrow> unat (c - p) = n" for c
  proof
    assume "c = p + of_nat n"
    then show "unat (c - p) = n" using Suc.prems by (simp add: unat_of_nat_small)
  next
    assume "unat (c - p) = n"
    then have "c - p = of_nat n" by (rule u32_eq_of_nat)
    then show "c = p + of_nat n" by (simp add: diff_eq_eq add.commute)
  qed
  have "kmemset p v (Suc n) m = (kmemset p v n m)(p + of_nat n := v)"
    by (simp add: kmemset_def)
  then show ?case using Suc by (auto simp: fun_eq_iff eq less_Suc_eq)
qed

text \<open>What \<^verbatim>\<open>context_switch\<close> stores below the stack pointer, and loads from the new one.\<close>

definition saved :: "bytes \<Rightarrow> u32 \<Rightarrow> cpu \<Rightarrow> bool" where
  "saved m a R \<longleftrightarrow> rd32 m a = r_edi R \<and> rd32 m (a + 4) = r_esi R \<and> rd32 m (a + 8) = r_ebx R
     \<and> rd32 m (a + 12) = r_ebp R \<and> rd32 m (a + 16) = r_eip R"

definition pushed :: "nat \<Rightarrow> u32 \<Rightarrow> psys \<Rightarrow> bytes" where
  "pushed p e s = (let R = cpu_regs s; a = r_esp R in
     wr32 (wr32 (wr32 (wr32 (wr32 (wr32 (wr32 (kmem s) (a - 4) e) (a - 8) (table_addr s + of_nat p * 8780 + 12))
       (a - 12) (r_eip R)) (a - 16) (r_ebp R)) (a - 20) (r_ebx R)) (a - 24) (r_esi R)) (a - 28) (r_edi R))"

lemma context_switch_eq:
  "kmem (context_switch p e s) = pushed p e s"
  "proc_table (context_switch p e s) = (proc_table s)[p := (proc_at s p)\<lparr>esp := r_esp (cpu_regs s) - 28\<rparr>]"
  by (simp_all add: context_switch_def push_def pop_def pushed_def upd_proc_def Let_def)

lemma context_switch_regs:
  "cpu_regs (context_switch p e s) =
     \<lparr>r_esp = e + 20, r_ebp = rd32 (pushed p e s) (e + 12), r_ebx = rd32 (pushed p e s) (e + 8),
      r_esi = rd32 (pushed p e s) (e + 4), r_edi = rd32 (pushed p e s) e, r_eip = rd32 (pushed p e s) (e + 16)\<rparr>"
  by (rule cpu.equality)
    (simp_all add: context_switch_def push_def pop_def pushed_def upd_proc_def Let_def add.commute)

lemma switch_loads: "saved (pushed p e s) e R \<Longrightarrow> cpu_regs (context_switch p e s) = R\<lparr>r_esp := e + 20\<rparr>"
  by (simp add: context_switch_regs saved_def)

lemma unat_minus:
  assumes "unat k \<le> unat (a :: u32)"
  shows "unat (a - k) = unat a - unat k"
  using assms by (simp add: unat_sub_small word_le_nat_alt)

lemma wr32_below:
  assumes "unat a = r + 28" and "unat c < r \<or> r + 28 \<le> unat c" and "4 \<le> unat k" and "unat k \<le> 28"
  shows "wr32 m (a - k) v c = m c"
proof (rule wr32_byte)
  have u: "unat (a - k) = r + 28 - unat k" using assms by (simp add: unat_minus)
  have "r + 28 < 4294967296" using assms(1) unat_u32_lt [of a] by simp
  with u assms show "unat (a - k) + 4 \<le> 4294967296" by arith
  from u assms show "unat c < unat (a - k) \<or> unat (a - k) + 4 \<le> unat c" by arith
qed

lemma rd32_wr32_below:
  assumes "unat a = r + 28" and "unat k + 4 \<le> unat j \<or> unat j + 4 \<le> unat k"
    and "4 \<le> unat k" and "unat k \<le> 28" and "4 \<le> unat j" and "unat j \<le> 28"
  shows "rd32 (wr32 m (a - k) v) (a - j) = rd32 m (a - j)"
proof (rule rd32_wr32_other)
  have u: "unat (a - k) = r + 28 - unat k" "unat (a - j) = r + 28 - unat j"
    using assms by (simp_all add: unat_minus)
  have "r + 28 < 4294967296" using assms(1) unat_u32_lt [of a] by simp
  with u assms show "unat (a - k) + 4 \<le> 4294967296" "unat (a - j) + 4 \<le> 4294967296" by arith+
  from u assms show "unat (a - k) + 4 \<le> unat (a - j) \<or> unat (a - j) + 4 \<le> unat (a - k)" by arith
qed

lemma pushed_other:
  assumes "28 \<le> unat (r_esp (cpu_regs s))"
    and "unat c < unat (r_esp (cpu_regs s)) - 28 \<or> unat (r_esp (cpu_regs s)) \<le> unat c"
  shows "pushed p e s c = kmem s c"
proof -
  obtain r where r: "unat (r_esp (cpu_regs s)) = r + 28" using assms(1) by (metis le_add_diff_inverse2)
  have "unat c < r \<or> r + 28 \<le> unat c" using assms(2) r by simp
  then show ?thesis unfolding pushed_def Let_def by (simp add: wr32_below [OF r])
qed

lemma pushed_saved:
  assumes "28 \<le> unat (r_esp (cpu_regs s))"
  shows "saved (pushed p e s) (r_esp (cpu_regs s) - 28) (cpu_regs s)"
proof -
  let ?a = "r_esp (cpu_regs s)"
  obtain r where r: "unat ?a = r + 28" using assms(1) by (metis le_add_diff_inverse2)
  have "?a - 28 + 4 = ?a - 24" "?a - 28 + 8 = ?a - 20" "?a - 28 + 12 = ?a - 16" "?a - 28 + 16 = ?a - 12"
    by simp_all
  then show ?thesis
    unfolding saved_def pushed_def Let_def by (simp add: rd32_wr32_below [OF r])
qed

lemma saved_cong:
  assumes "unat a + 20 \<le> 4294967296"
    and "\<And>c. unat a \<le> unat c \<Longrightarrow> unat c < unat a + 20 \<Longrightarrow> m' c = m c"
  shows "saved m' a R = saved m a R"
proof -
  have u: "unat (a + 4) = unat a + 4" "unat (a + 8) = unat a + 8" "unat (a + 12) = unat a + 12"
    "unat (a + 16) = unat a + 16" using assms(1) by (simp_all add: unat_add_small)
  have "rd32 m' a = rd32 m a" "rd32 m' (a + 4) = rd32 m (a + 4)" "rd32 m' (a + 8) = rd32 m (a + 8)"
    "rd32 m' (a + 12) = rd32 m (a + 12)" "rd32 m' (a + 16) = rd32 m (a + 16)"
    using assms u by (auto intro!: rd32_cong)
  then show ?thesis by (simp add: saved_def)
qed

lemma rd32_zero:
  assumes "\<And>c. unat a \<le> unat c \<Longrightarrow> unat c < unat a + 4 \<Longrightarrow> m c = 0" and "unat a + 4 \<le> 4294967296"
  shows "rd32 m a = 0"
proof -
  have "unat (a + 1) = unat a + 1" "unat (a + 2) = unat a + 2" "unat (a + 3) = unat a + 3"
    using assms(2) by (simp_all add: unat_add_small)
  then show ?thesis using assms(1) by (simp add: rd32_def)
qed

section \<open>Starting up\<close>

lemma kstrcpy_at_some:
  assumes "0 \<notin> set xs" and "length xs < length ds"
  shows "kstrcpy_at (length ps) (ps @ ds) (ps @ xs @ [0]) = Some (ps @ xs @ [0] @ drop (Suc (length xs)) ds)"
  using assms
proof (induction xs arbitrary: ps ds)
  case Nil
  then obtain d ds' where "ds = d # ds'" by (cases ds) auto
  then show ?case by (subst kstrcpy_at.simps) (simp add: Let_def)
next
  case (Cons x xs)
  then obtain d ds' where ds: "ds = d # ds'" by (cases ds) auto
  have "kstrcpy_at (length (ps @ [x])) ((ps @ [x]) @ ds') ((ps @ [x]) @ xs @ [0])
      = Some ((ps @ [x]) @ xs @ [0] @ drop (Suc (length xs)) ds')"
    using Cons.prems ds by (intro Cons.IH) auto
  then show ?case using Cons.prems ds by (subst kstrcpy_at.simps) (simp add: Let_def)
qed

lemma kstrcpy_some:
  "0 \<notin> set xs \<Longrightarrow> length xs < length ds \<Longrightarrow> kstrcpy ds (xs @ [0]) = Some (xs @ [0] @ drop (Suc (length xs)) ds)"
  using kstrcpy_at_some [of xs ds "[]"] by (simp add: kstrcpy_def)

lemma kstrcpy_literals:
  "\<exists>nm. kstrcpy (pname zero_process) (cstr ''idle'') = Some nm"
  "\<exists>dir. kstrcpy (cwd zero_process) (cstr ''/'') = Some dir"
proof -
  have "0 \<notin> set (map of_char ''idle'' :: u8 list)" "0 \<notin> set (map of_char ''/'' :: u8 list)" by simp_all
  from this [THEN kstrcpy_some]
  show "\<exists>nm. kstrcpy (pname zero_process) (cstr ''idle'') = Some nm"
    "\<exists>dir. kstrcpy (cwd zero_process) (cstr ''/'') = Some dir"
    by (simp_all add: cstr_def zero_process_def PROC_NAME_LEN_def del: append_Cons)
qed

end
