(* ===== verification/Syscall.thy ===== *)
theory Syscall
  imports Vfs Proc
begin

text \<open>
  The system calls of \<^verbatim>\<open>syscall/syscall.c\<close> and \<^verbatim>\<open>exec_program\<close> of \<^verbatim>\<open>userland/exec.c\<close>. The state joins the
  file system with the processes: a descriptor is an index into the array \<^verbatim>\<open>fds\<close> of the current process,
  which holds addresses of open files. A pointer argument is the array it points into, from there on,
  as in the library; a call that writes through one gives the new contents. A local array that is
  not initialised is an argument too: whatever the stack holds.
\<close>

unbundle bit_operations_syntax

section \<open>State\<close>

record kernel = vfs +
  procs :: psys

text \<open>\<^verbatim>\<open>current_proc->\<close>, and an update of the current process.\<close>

definition cur :: "'a kernel_scheme \<Rightarrow> nat option" where
  "cur s = current (procs s)"

definition cur_proc :: "'a kernel_scheme \<Rightarrow> process option" where
  "cur_proc s = map_option (proc_at (procs s)) (cur s)"

definition upd_cur :: "(process \<Rightarrow> process) \<Rightarrow> 'a kernel_scheme \<Rightarrow> 'a kernel_scheme option" where
  "upd_cur f s = map_option (\<lambda>c. s\<lparr>procs := upd_proc c f (procs s)\<rparr>) (cur s)"

section \<open>Descriptors\<close>

definition fd_get :: "u32 \<Rightarrow> 'a kernel_scheme \<Rightarrow> u32 option" where
  "fd_get fd s =
     (if sint fd < 0 \<or> int MAX_FDS \<le> sint fd \<or> current_proc (procs s) = None then Some 0
      else map_option (\<lambda>p. fds p ! unat fd) (cur_proc s))"

definition set_fd :: "nat \<Rightarrow> u32 \<Rightarrow> 'a kernel_scheme \<Rightarrow> 'a kernel_scheme option" where
  "set_fd i f s = upd_cur (\<lambda>p. p\<lparr>fds := (fds p)[i := f]\<rparr>) s"

definition fd_alloc :: "u32 \<Rightarrow> 'a kernel_scheme \<Rightarrow> (u32 \<times> 'a kernel_scheme) option" where
  "fd_alloc f s = do {
     p \<leftarrow> cur_proc s;
     case List.find (\<lambda>i. fds p ! i = 0) [0..<MAX_FDS] of
       Some i \<Rightarrow> do { s \<leftarrow> set_fd i f s; Some (of_nat i, s) }
     | None \<Rightarrow> Some (- EMFILE, s)
   }"

section \<open>Files\<close>

definition sys_read :: "u32 \<Rightarrow> bytestr \<Rightarrow> u32 \<Rightarrow> 'a kernel_scheme \<Rightarrow> (u32 \<times> bytestr \<times> 'a kernel_scheme) option" where
  "sys_read fd buf n s = do {
     f \<leftarrow> fd_get fd s;
     if f = 0 then Some (- EBADF, buf, s) else file_read f buf n s }"

definition sys_write :: "u32 \<Rightarrow> bytestr \<Rightarrow> u32 \<Rightarrow> 'a kernel_scheme \<Rightarrow> (u32 \<times> 'a kernel_scheme) option" where
  "sys_write fd buf n s = do {
     f \<leftarrow> fd_get fd s;
     if f = 0 then Some (- EBADF, s) else file_write f buf n s }"

text \<open>
  \<^verbatim>\<open>if (p[kstrlen(p)-1] != '/') p[kstrlen(p)] = '/', p[kstrlen(p)+1] = 0;\<close> where the second \<^verbatim>\<open>kstrlen\<close>
  runs after the terminator has been overwritten, on whatever the array holds behind it.
\<close>

definition end_slash :: "bytestr \<Rightarrow> bytestr option" where
  "end_slash p = do {
     n \<leftarrow> strlen p;
     if n = 0 then None
     else if p ! (n - 1) \<noteq> slash then do {
       p \<leftarrow> buf_set n slash p;
       m \<leftarrow> strlen p;
       buf_set (m + 1) 0 p
     } else Some p
   }"

text \<open>\<open>stack\<close> is the array \<^verbatim>\<open>full_path\<close> before the call.\<close>

definition open_path :: "bytestr \<Rightarrow> bytestr \<Rightarrow> bytestr \<Rightarrow> bytestr option" where
  "open_path stack dir path =
     (case path of [] \<Rightarrow> None
      | c # _ \<Rightarrow>
          if c \<noteq> slash then do { p \<leftarrow> strcpy stack dir; p \<leftarrow> end_slash p; strcat p path }
          else strcpy stack path)"

definition sys_open :: "bytestr \<Rightarrow> bytestr \<Rightarrow> u32 \<Rightarrow> 'a kernel_scheme \<Rightarrow> (u32 \<times> 'a kernel_scheme) option" where
  "sys_open stack path flags s = do {
     p \<leftarrow> cur_proc s;
     full_path \<leftarrow> open_path (take VFS_PATH_LEN stack) (cwd p) path;
     (f, s) \<leftarrow> file_open (Some full_path) flags s;
     if f = 0 then Some (- ENOENT, s)
     else do {
       (fd, s) \<leftarrow> fd_alloc f s;
       if sint fd < 0 then do { (_, s) \<leftarrow> file_close f s; Some (fd, s) } else Some (fd, s) }
   }"

definition sys_close :: "u32 \<Rightarrow> 'a kernel_scheme \<Rightarrow> (u32 \<times> 'a kernel_scheme) option" where
  "sys_close fd s = do {
     f \<leftarrow> fd_get fd s;
     if f = 0 then Some (- EBADF, s)
     else do { s \<leftarrow> set_fd (unat fd) 0 s; file_close f s }
   }"

definition sys_lseek :: "u32 \<Rightarrow> u32 \<Rightarrow> u32 \<Rightarrow> 'a kernel_scheme \<Rightarrow> (u32 \<times> 'a kernel_scheme) option" where
  "sys_lseek fd off whence s = do {
     f \<leftarrow> fd_get fd s;
     if f = 0 then Some (- EBADF, s) else file_seek f off whence s }"

definition sys_dup2 :: "u32 \<Rightarrow> u32 \<Rightarrow> 'a kernel_scheme \<Rightarrow> (u32 \<times> 'a kernel_scheme) option" where
  "sys_dup2 oldfd newfd s = do {
     f \<leftarrow> fd_get oldfd s;
     if f = 0 then Some (- EBADF, s)
     else if sint newfd < 0 \<or> int MAX_FDS \<le> sint newfd then Some (- EBADF, s)
     else do {
       g \<leftarrow> fd_get newfd s;
       s \<leftarrow> (if g \<noteq> 0 then map_option snd (file_close g s) else Some s);
       s \<leftarrow> set_fd (unat newfd) f s;
       h \<leftarrow> files s f;
       Some (newfd, s\<lparr>files := (files s)(f \<mapsto> h\<lparr>fref := fref h + 1\<rparr>)\<rparr>) }
   }"

definition sys_readdir :: "u32 \<Rightarrow> u32 \<Rightarrow> bytestr \<Rightarrow> 'a kernel_scheme \<Rightarrow> (u32 \<times> bytestr) option" where
  "sys_readdir fd idx name_out s = do {
     f \<leftarrow> fd_get fd s;
     if f = 0 then Some (- EBADF, name_out) else file_readdir f idx name_out s }"

section \<open>Directories\<close>

text \<open>\<^verbatim>\<open>path[0] == '/'\<close> replaces the working directory, any other path is appended to it.\<close>

definition sys_chdir :: "bytestr option \<Rightarrow> 'a kernel_scheme \<Rightarrow> (u32 \<times> 'a kernel_scheme) option" where
  "sys_chdir path s = do {
     node \<leftarrow> vfs_lookup path s;
     case node of None \<Rightarrow> Some (- ENOENT, s)
     | Some v \<Rightarrow> do {
         n \<leftarrow> vnode_at v s;
         if vtype n \<noteq> VFS_DIR then Some (- ENOENT, s)
         else do {
           path \<leftarrow> path;
           p \<leftarrow> cur_proc s;
           c \<leftarrow> (case path of [] \<Rightarrow> None | c # _ \<Rightarrow> Some c);
           dir \<leftarrow> (if c = slash then strcpy (cwd p) path else do { dir \<leftarrow> end_slash (cwd p); strcat dir path });
           s \<leftarrow> upd_cur (\<lambda>p. p\<lparr>cwd := dir\<rparr>) s;
           Some (0, s) } }
   }"

definition sys_getcwd :: "bytestr option \<Rightarrow> u32 \<Rightarrow> 'a kernel_scheme \<Rightarrow> (u32 \<times> bytestr option) option" where
  "sys_getcwd buf sz s =
     (case buf of None \<Rightarrow> Some (- EINVAL, None)
      | Some b \<Rightarrow> do {
          p \<leftarrow> cur_proc s;
          len \<leftarrow> strlen (cwd p);
          if unat sz \<le> len then Some (- ENOMEM, buf)
          else do { b \<leftarrow> strcpy b (cwd p); Some (of_nat len, Some b) } })"

text \<open>The parent directory of a path and the offset of its last slash, as \<^verbatim>\<open>sys_mkdir\<close> and \<^verbatim>\<open>sys_unlink\<close> find them.\<close>

definition split_path :: "bytestr \<Rightarrow> (nat \<times> bytestr) option" where
  "split_path path = do {
     len \<leftarrow> strlen path;
     if len = 0 then None
     else do {
       let sl = last_slash path (len - 1);
       if sl = 0 then Some (sl, [slash, 0])
       else if VFS_PATH_LEN \<le> sl then None else Some (sl, take sl path @ [0]) }
   }"

definition sys_mkdir :: "bytestr \<Rightarrow> 'a kernel_scheme \<Rightarrow> (u32 \<times> 'a kernel_scheme) option" where
  "sys_mkdir path s = do {
     (sl, parent_path) \<leftarrow> split_path path;
     parent \<leftarrow> vfs_lookup (Some parent_path) s;
     let dname = (if path ! sl = slash then drop (sl + 1) path else drop sl path);
     case parent of
       None \<Rightarrow> Some (- ENOENT, s)
     | Some (Ram a) \<Rightarrow> ramfs_create a dname VFS_DIR s
     | Some Tty \<Rightarrow> Some (- EIO, s)
   }"

definition sys_unlink :: "bytestr \<Rightarrow> 'a kernel_scheme \<Rightarrow> (u32 \<times> 'a kernel_scheme) option" where
  "sys_unlink path s = do {
     (sl, parent_path) \<leftarrow> split_path path;
     parent \<leftarrow> vfs_lookup (Some parent_path) s;
     let fname = (if path ! sl = slash then drop (sl + 1) path else path);
     case parent of
       Some (Ram a) \<Rightarrow> ramfs_unlink a fname s
     | _ \<Rightarrow> Some (- ENOENT, s)
   }"

section \<open>Processes\<close>

definition sys_exit :: "u32 \<Rightarrow> 'a kernel_scheme \<Rightarrow> 'a kernel_scheme option" where
  "sys_exit code s = map_option (\<lambda>p. s\<lparr>procs := p\<rparr>) (proc_exit code (procs s))"

text \<open>\<^verbatim>\<open>child_regs->eax = 0\<close>: \<^verbatim>\<open>eax\<close> is at offset 44 of a \<^verbatim>\<open>regs_t\<close>.\<close>

definition sys_fork :: "'a kernel_scheme \<Rightarrow> (u32 \<times> 'a kernel_scheme) option" where
  "sys_fork s = do {
     (child, p) \<leftarrow> proc_fork (procs s);
     case child of
       None \<Rightarrow> Some (- ENOMEM, s\<lparr>procs := p\<rparr>)
     | Some i \<Rightarrow> Some (pid (proc_at p i),
         s\<lparr>procs := p\<lparr>kmem := wr32 (kmem p) (esp (proc_at p i) + 44) 0\<rparr>\<rparr>)
   }"

text \<open>One round of the wait; \<^verbatim>\<open>*status\<close> is written by the dispatcher.\<close>

definition sys_waitpid :: "u32 \<Rightarrow> 'a kernel_scheme \<Rightarrow> (wait_result \<times> 'a kernel_scheme) option" where
  "sys_waitpid p s = do { (r, ps) \<leftarrow> proc_wait_round p (procs s); Some (r, s\<lparr>procs := ps\<rparr>) }"

definition sys_getpid :: "'a kernel_scheme \<Rightarrow> u32 option" where
  "sys_getpid s = map_option pid (cur_proc s)"

definition sys_getppid :: "'a kernel_scheme \<Rightarrow> u32 option" where
  "sys_getppid s = map_option ppid (cur_proc s)"

definition sys_kill :: "u32 \<Rightarrow> u32 \<Rightarrow> 'a kernel_scheme \<Rightarrow> (u32 \<times> 'a kernel_scheme) option" where
  "sys_kill p sig s = do { ps \<leftarrow> proc_kill p sig (procs s); Some (0, s\<lparr>procs := ps\<rparr>) }"

definition sys_sleep :: "u32 \<Rightarrow> 'a kernel_scheme \<Rightarrow> (u32 \<times> 'a kernel_scheme) option" where
  "sys_sleep seconds s = do { ps \<leftarrow> proc_sleep (seconds * 1000) (procs s); Some (0, s\<lparr>procs := ps\<rparr>) }"

text \<open>\<^verbatim>\<open>exec_program\<close>: the table of built-in programs, all of them the shell.\<close>

definition builtins :: "bytestr list" where
  "builtins = [map of_char ''/bin/sh'' @ [0], map of_char ''/bin/bash'' @ [0]]"

text \<open>\<^verbatim>\<open>while (*a && *a == *b)\<close> and the test for the two ends.\<close>

fun same_name :: "bytestr \<Rightarrow> bytestr \<Rightarrow> bool option" where
  "same_name (a # as) (b # bs) = (if a \<noteq> 0 \<and> a = b then same_name as bs else Some (a = 0 \<and> b = 0))"
| "same_name _ _ = None"

fun exec_search :: "('s \<Rightarrow> 's option) \<Rightarrow> bytestr \<Rightarrow> bytestr list \<Rightarrow> 's \<Rightarrow> (u32 \<times> 's) option" where
  "exec_search shell path [] s = Some (- ENOENT, s)"
| "exec_search shell path (b # bs) s = do {
     e \<leftarrow> same_name path b;
     if e then do { s \<leftarrow> shell s; Some (0, s) } else exec_search shell path bs s }"

definition exec_program :: "('s \<Rightarrow> 's option) \<Rightarrow> bytestr \<Rightarrow> 's \<Rightarrow> (u32 \<times> 's) option" where
  "exec_program shell path s = exec_search shell path builtins s"

definition sys_execve :: "('a kernel_scheme \<Rightarrow> 'a kernel_scheme option) \<Rightarrow> bytestr \<Rightarrow> 'a kernel_scheme \<Rightarrow> (u32 \<times> 'a kernel_scheme) option" where
  "sys_execve shell path s = exec_program shell path s"

section \<open>The dispatcher\<close>

record regs =
  r_eax :: u32
  a_ebx :: u32
  a_ecx :: u32
  a_edx :: u32

definition SYS_EXIT :: u32 where "SYS_EXIT = 1"
definition SYS_FORK :: u32 where "SYS_FORK = 2"
definition SYS_READ :: u32 where "SYS_READ = 3"
definition SYS_WRITE :: u32 where "SYS_WRITE = 4"
definition SYS_OPEN :: u32 where "SYS_OPEN = 5"
definition SYS_CLOSE :: u32 where "SYS_CLOSE = 6"
definition SYS_WAITPID :: u32 where "SYS_WAITPID = 7"
definition SYS_UNLINK :: u32 where "SYS_UNLINK = 10"
definition SYS_EXECVE :: u32 where "SYS_EXECVE = 11"
definition SYS_CHDIR :: u32 where "SYS_CHDIR = 12"
definition SYS_LSEEK :: u32 where "SYS_LSEEK = 19"
definition SYS_GETPID :: u32 where "SYS_GETPID = 20"
definition SYS_KILL :: u32 where "SYS_KILL = 37"
definition SYS_MKDIR :: u32 where "SYS_MKDIR = 39"
definition SYS_DUP2 :: u32 where "SYS_DUP2 = 63"
definition SYS_GETPPID :: u32 where "SYS_GETPPID = 64"
definition SYS_READDIR :: u32 where "SYS_READDIR = 89"
definition SYS_SLEEP :: u32 where "SYS_SLEEP = 162"
definition SYS_GETCWD :: u32 where "SYS_GETCWD = 183"

lemmas sys_numbers = SYS_EXIT_def SYS_FORK_def SYS_READ_def SYS_WRITE_def SYS_OPEN_def SYS_CLOSE_def SYS_WAITPID_def
  SYS_UNLINK_def SYS_EXECVE_def SYS_CHDIR_def SYS_LSEEK_def SYS_GETPID_def SYS_KILL_def SYS_MKDIR_def SYS_DUP2_def
  SYS_GETPPID_def SYS_READDIR_def SYS_SLEEP_def SYS_GETCWD_def

text \<open>
  What a call gives back: the value for \<^verbatim>\<open>eax\<close> (\<open>None\<close> while a process waits, or after it has left), the
  new contents of the memory it writes through a pointer, as the pointer and the array from there on,
  and the state. The value reaches \<^verbatim>\<open>eax\<close> when the process that made the call runs on.
\<close>

type_synonym 'a outcome = "(u32 option \<times> (u32 \<times> bytestr) option \<times> 'a kernel_scheme) option"

definition returns :: "(u32 \<times> 'a kernel_scheme) option \<Rightarrow> 'a outcome" where
  "returns r = map_option (\<lambda>(v, s). (Some v, None, s)) r"

text \<open>The four bytes of a word, the least one first.\<close>

definition word_bytes :: "u32 \<Rightarrow> bytestr" where
  "word_bytes v = [ucast v, ucast (drop_bit 8 v), ucast (drop_bit 16 v), ucast (drop_bit 24 v)]"

text \<open>
  \<open>mem p\<close> is the array the pointer \<open>p\<close> points into, from there on, which is empty for NULL; \<open>stack\<close> is the indeterminate
  array of \<^verbatim>\<open>sys_open\<close>, \<open>shell\<close> the function \<^verbatim>\<open>shell_main\<close>.
\<close>

definition syscall_value :: "('a kernel_scheme \<Rightarrow> 'a kernel_scheme option) \<Rightarrow> bytestr \<Rightarrow> (u32 \<Rightarrow> bytestr)
    \<Rightarrow> regs \<Rightarrow> 'a kernel_scheme \<Rightarrow> 'a outcome" where
  "syscall_value shell stack mem r s =
     (let eax = r_eax r; ebx = a_ebx r; ecx = a_ecx r; edx = a_edx r in
      if eax = SYS_EXIT then map_option (\<lambda>s. (None, None, s)) (sys_exit ebx s)
      else if eax = SYS_FORK then returns (sys_fork s)
      else if eax = SYS_READ then do {
        (v, buf, s) \<leftarrow> sys_read ebx (mem ecx) edx s;
        Some (Some v, Some (ecx, buf), s) }
      else if eax = SYS_WRITE then returns (sys_write ebx (mem ecx) edx s)
      else if eax = SYS_OPEN then returns (sys_open stack (mem ebx) ecx s)
      else if eax = SYS_CLOSE then returns (sys_close ebx s)
      else if eax = SYS_WAITPID then do {
        (w, s) \<leftarrow> sys_waitpid ebx s;
        case w of
          Reaped q code \<Rightarrow>
            if ecx = 0 then Some (Some q, None, s)
            else if length (mem ecx) < 4 then None
            else Some (Some q, Some (ecx, word_bytes code @ drop 4 (mem ecx)), s)
        | No_child \<Rightarrow> Some (Some (- 1), None, s)
        | Blocked \<Rightarrow> Some (None, None, s) }
      else if eax = SYS_EXECVE then returns (sys_execve shell (mem ebx) s)
      else if eax = SYS_CHDIR then returns (sys_chdir (if ebx = 0 then None else Some (mem ebx)) s)
      else if eax = SYS_GETPID then do { v \<leftarrow> sys_getpid s; Some (Some v, None, s) }
      else if eax = SYS_GETPPID then do { v \<leftarrow> sys_getppid s; Some (Some v, None, s) }
      else if eax = SYS_MKDIR then returns (sys_mkdir (mem ebx) s)
      else if eax = SYS_UNLINK then returns (sys_unlink (mem ebx) s)
      else if eax = SYS_LSEEK then returns (sys_lseek ebx ecx edx s)
      else if eax = SYS_KILL then returns (sys_kill ebx ecx s)
      else if eax = SYS_DUP2 then returns (sys_dup2 ebx ecx s)
      else if eax = SYS_SLEEP then returns (sys_sleep ebx s)
      else if eax = SYS_READDIR then do {
        (v, buf) \<leftarrow> sys_readdir ebx ecx (mem edx) s;
        Some (Some v, Some (edx, buf), s) }
      else if eax = SYS_GETCWD then do {
        (v, buf) \<leftarrow> sys_getcwd (if ebx = 0 then None else Some (mem ebx)) ecx s;
        Some (Some v, map_option (Pair ebx) buf, s) }
      else Some (Some (- ENOSYS), None, s))"

text \<open>The registers of the caller afterwards: only \<^verbatim>\<open>eax\<close> changes, once there is a value.\<close>

definition syscall_dispatch :: "('a kernel_scheme \<Rightarrow> 'a kernel_scheme option) \<Rightarrow> bytestr \<Rightarrow> (u32 \<Rightarrow> bytestr)
    \<Rightarrow> regs \<Rightarrow> 'a kernel_scheme \<Rightarrow> (regs option \<times> (u32 \<times> bytestr) option \<times> 'a kernel_scheme) option" where
  "syscall_dispatch shell stack mem r s =
     map_option (\<lambda>(v, w, s). (map_option (\<lambda>v. r\<lparr>r_eax := v\<rparr>) v, w, s)) (syscall_value shell stack mem r s)"

section \<open>What the calls leave alone\<close>

lemma vfs_more_eq:
  assumes "fs.more t = fs.more (s :: 'a vfs_scheme)"
  shows "vfs.more t = vfs.more s"
proof -
  have "t = s\<lparr>nodes := nodes t, next_inode := next_inode t, fresh := fresh t, stale := stale t\<rparr>"
    by (rule fs.equality) (simp_all add: assms)
  then obtain m i f j where t: "t = s\<lparr>nodes := m, next_inode := i, fresh := f, stale := j\<rparr>" by blast
  show "vfs.more t = vfs.more s" by (simp add: t)
qed

text \<open>What does not touch the part of the state behind the file system leaves the processes alone.\<close>

lemma procs_eq:
  assumes "vfs.more t = vfs.more (s :: 'a kernel_scheme)"
  shows "procs t = procs s"
proof -
  have "t = s\<lparr>nodes := nodes t, next_inode := next_inode t, fresh := fresh t, stale := stale t, vfs_root := vfs_root t,
      tty_vnode := tty_vnode t, console := console t, status := status t, files := files t\<rparr>"
    by (rule vfs.equality) (simp_all add: assms)
  then obtain m i f j r v c u k where t: "t = s\<lparr>nodes := m, next_inode := i, fresh := f, stale := j, vfs_root := r,
      tty_vnode := v, console := c, status := u, files := k\<rparr>" by blast
  show ?thesis by (simp add: t)
qed

text \<open>
  The allocations between two states: every address handed out lies between the two \<open>fresh\<close>, which
  becomes 0 when the last address has been handed out.
\<close>

definition later :: "'a fs_scheme \<Rightarrow> 'a fs_scheme \<Rightarrow> bool" where
  "later s t \<longleftrightarrow> fresh t = 0 \<or> fresh s \<noteq> 0 \<and> fresh s \<le> fresh t"

lemma later_refl [simp]: "fresh t = fresh s \<Longrightarrow> later s t"
  by (simp add: later_def)

lemma later_trans: "later s t \<Longrightarrow> later t u \<Longrightarrow> later s u"
  by (auto simp: later_def)

lemma fresh_less: "f \<noteq> 0 \<Longrightarrow> f + 1 \<noteq> 0 \<Longrightarrow> f < f + 1" for f :: u32
proof -
  assume "f + 1 \<noteq> 0"
  then have "unat (1 + f) = Suc (unat f)" by (intro unatSuc) (simp add: add.commute)
  then show "f < f + 1" by (simp add: word_less_nat_alt add.commute)
qed

lemma new_addr_later: "new_addr s = Some (a, t) \<Longrightarrow> a = fresh s \<and> a \<noteq> 0 \<and> t = s\<lparr>fresh := fresh s + 1\<rparr> \<and> later s t"
  using fresh_less [of "fresh s"] by (auto simp: new_addr_def later_def intro: less_imp_le split: if_splits)

lemma ramfs_create_frame:
  "ramfs_create a name ty s = Some (r, t) \<Longrightarrow> fs.more t = fs.more s \<and> later s t"
  by (auto simp: ramfs_create_def new_ramfs_node_def upd_node_def later_def Let_def bind_eq_Some_conv
      dest: new_addr_later split: if_splits)

lemma ramfs_unlink_frame: "ramfs_unlink a name s = Some (r, t) \<Longrightarrow> fs.more t = fs.more s \<and> fresh t = fresh s"
  by (auto simp: ramfs_unlink_def upd_node_def Let_def bind_eq_Some_conv split: option.splits)

lemma ramfs_write_frame:
  assumes "ramfs_write a off k buf s = Some (r, t)"
  shows "fs.more t = fs.more s \<and> later s t"
proof -
  obtain n where n: "nodes s a = Some n" using assms by (auto simp: ramfs_write_def bind_eq_Some_conv)
  show ?thesis
  proof (cases "rtype n = VFS_FILE")
    case False
    then show ?thesis using assms n by (simp add: ramfs_write_def)
  next
    case True
    let ?grow = "if capacity n < off + k then do { (b, s) \<leftarrow> new_addr s;
        Some (n\<lparr>rdata := realloc_data (stale s b) (rdata n) (unat (off + k + RAMFS_BLOCK_SIZE)), capacity := off + k + RAMFS_BLOCK_SIZE\<rparr>, s)
      } else Some (n, s)"
    obtain m u where u: "?grow = Some (m, u)" "\<exists>n'. t = u\<lparr>nodes := n'\<rparr>"
      using assms n True unfolding ramfs_write_def Let_def by (fastforce simp: bind_eq_Some_conv)
    have "fs.more u = fs.more s \<and> later s u"
      using u(1) by (auto simp: bind_eq_Some_conv dest!: new_addr_later split: if_split_asm)
    with u(2) show ?thesis by (auto simp: later_def)
  qed
qed

lemma create_at_frame:
  assumes "create_at v name s = Some (r, t)"
  shows "fs.more t = fs.more s \<and> later s t"
proof (cases "\<exists>a. v = Some (Ram a)")
  case True
  then obtain a where v: "v = Some (Ram a)" by blast
  obtain q u where "ramfs_create a name VFS_FILE s = Some (q, u)" "u = t"
    using assms unfolding v create_at_def by (auto simp: bind_eq_Some_conv split: if_split_asm)
  then show ?thesis using ramfs_create_frame by blast
next
  case False
  then have "t = s" using assms by (auto simp: create_at_def split: option.split_asm vptr.split_asm)
  then show ?thesis by simp
qed

lemma create_path_frame: "create_path p s = Some (r, t) \<Longrightarrow> fs.more t = fs.more s \<and> later s t"
  by (auto simp: create_path_def Let_def bind_eq_Some_conv dest!: create_at_frame split: if_split_asm)

lemma truncate_frame: "vnode_truncate v s = Some t \<Longrightarrow> fs.more t = fs.more s \<and> fresh t = fresh s"
  by (auto simp: vnode_truncate_def ramfs_truncate_def Let_def bind_eq_Some_conv split: vptr.splits)

lemma upd_vnode_frame [simp]: "files (upd_vnode v f s) = files s" "fresh (upd_vnode v f s) = fresh s"
  "vfs.more (upd_vnode v f s) = vfs.more s"
  by (auto simp: upd_vnode_def upd_node_def split: vptr.split)

section \<open>The frame of the file operations\<close>

text \<open>\<^verbatim>\<open>file_open\<close> adds at most one open file, at an address handed out since, with one reference.\<close>

lemma file_open_frame:
  assumes "file_open path flags s = Some (f, t)"
  shows "later s t" and "vfs.more t = vfs.more s" and "f = 0 \<Longrightarrow> files t = files s"
    and "f \<noteq> 0 \<Longrightarrow> \<exists>h. files t = (files s)(f \<mapsto> h) \<and> fref h = 1 \<and> vnode_at (fvnode h) t \<noteq> None \<and> fresh s \<noteq> 0 \<and> fresh s \<le> f \<and> (fresh t = 0 \<or> f < fresh t)"
proof -
  obtain node where look: "vfs_lookup path s = Some node" using assms by (auto simp: file_open_def bind_eq_Some_conv)
  obtain v u where u: "fs.more u = fs.more s" "later s u"
    and rest: "(case v of None \<Rightarrow> Some (0, u)
       | Some v \<Rightarrow> do {
         _ \<leftarrow> vnode_at v u;
         s \<leftarrow> (if flags AND O_TRUNC \<noteq> 0 then vnode_truncate v u else Some u);
         n \<leftarrow> vnode_at v s;
         (f, s) \<leftarrow> new_addr s;
         let off = (if flags AND O_APPEND \<noteq> 0 then vsize n else 0);
         let s = s\<lparr>files := (files s)(f \<mapsto> \<lparr>foffset = off, fvnode = v, fflags = flags, fref = 1\<rparr>)\<rparr>;
         Some (f, upd_vnode v (\<lambda>n. n\<lparr>ref_count := ref_count n + 1\<rparr>) s) }) = Some (f, t)"
  proof (cases node)
    case (Some w)
    show thesis by (rule that [of s "Some w"]) (use assms look Some in \<open>simp_all add: file_open_def\<close>)
  next
    case None
    show thesis
    proof (cases "flags AND O_CREAT = 0")
      case True
      show thesis by (rule that [of s None]) (use assms look None True in \<open>simp_all add: file_open_def\<close>)
    next
      case False
      then obtain p v u where p: "path = Some p" "create_path p s = Some (v, u)"
        using assms look None by (auto simp: file_open_def bind_eq_Some_conv)
      show thesis
        by (rule that [of u v]) (use create_path_frame [OF p(2)] assms look None False p in \<open>simp_all add: file_open_def\<close>)
    qed
  qed
  have fu: "files u = files s" by (rule more_eq [OF u(1)])
  have "later s t \<and> vfs.more t = vfs.more s \<and> (f = 0 \<longrightarrow> files t = files s)
    \<and> (f \<noteq> 0 \<longrightarrow> (\<exists>h. files t = (files s)(f \<mapsto> h) \<and> fref h = 1 \<and> vnode_at (fvnode h) t \<noteq> None \<and> fresh s \<noteq> 0 \<and> fresh s \<le> f \<and> (fresh t = 0 \<or> f < fresh t)))"
  proof (cases v)
    case None
    then show ?thesis using rest u fu vfs_more_eq [OF u(1)] by simp
  next
    case (Some w)
    obtain x n y where x: "(if flags AND O_TRUNC \<noteq> 0 then vnode_truncate w u else Some u) = Some x" "vnode_at w x = Some n"
      "new_addr x = Some (f, y)"
      "t = upd_vnode w (\<lambda>n. n\<lparr>ref_count := ref_count n + 1\<rparr>) (y\<lparr>files := (files y)(f \<mapsto> \<lparr>foffset =
          (if flags AND O_APPEND \<noteq> 0 then vsize n else 0), fvnode = w, fflags = flags, fref = 1\<rparr>)\<rparr>)"
      using rest unfolding Some Let_def by (auto simp: bind_eq_Some_conv)
    have "fs.more x = fs.more u \<and> fresh x = fresh u"
      using x(1) by (auto dest: truncate_frame split: if_split_asm)
    then have fx: "files x = files s" "fresh x = fresh u" "vfs.more x = vfs.more s"
      using more_eq(5) [of x s] vfs_more_eq [of x s] u(1) by simp_all
    have more: "vfs.more t = vfs.more s" using new_addr_later [OF x(3)] fx(3) x(4) by simp
    note a = new_addr_later [OF x(3)]
    have "fresh s \<noteq> 0 \<and> fresh s \<le> f" using a fx(2) u(2) by (auto simp: later_def)
    moreover have "fresh t = 0 \<or> f < fresh t" using a x(4) fresh_less [of f] by auto
    moreover have ut: "later u t" using a fx(2) x(4) by (auto simp: later_def)
    moreover have "later s t" by (rule later_trans [OF u(2) ut])
    moreover have "files t = (files s)(f \<mapsto> \<lparr>foffset = (if flags AND O_APPEND \<noteq> 0 then vsize n else 0), fvnode = w, fflags = flags, fref = 1\<rparr>)"
      using a fx(1) x(4) by simp
    moreover have "vnode_at w t \<noteq> None"
      using x(2,4) a by (auto simp: vnode_at_def upd_vnode_def upd_node_def split: vptr.split_asm)
    ultimately show ?thesis using a more by (auto intro!: exI)
  qed
  then show "later s t" "vfs.more t = vfs.more s" "f = 0 \<Longrightarrow> files t = files s"
    "f \<noteq> 0 \<Longrightarrow> \<exists>h. files t = (files s)(f \<mapsto> h) \<and> fref h = 1 \<and> vnode_at (fvnode h) t \<noteq> None \<and> fresh s \<noteq> 0 \<and> fresh s \<le> f \<and> (fresh t = 0 \<or> f < fresh t)"
    by blast+
qed

text \<open>The other operations change the entry of the file they work on at most.\<close>

lemma file_close_frame:
  assumes "file_close f s = Some (r, t)" and "f \<noteq> 0"
  obtains h where "files s f = Some h" "files t = (files s)(f := (if sint (fref h - 1) \<le> 0 then None else Some (h\<lparr>fref := fref h - 1\<rparr>)))"
    "fresh t = fresh s" "vfs.more t = vfs.more s" "r = 0"
proof -
  obtain h where h: "files s f = Some h" using assms by (auto simp: file_close_def bind_eq_Some_conv)
  show thesis
    by (rule that [OF h]) (use assms h in \<open>auto simp: file_close_def bind_eq_Some_conv Let_def split: if_split_asm\<close>)
qed

definition same_refs :: "'a vfs_scheme \<Rightarrow> 'a vfs_scheme \<Rightarrow> bool" where
  "same_refs s t \<longleftrightarrow> later s t \<and> vfs.more t = vfs.more s \<and> (\<forall>f. map_option fref (files t f) = map_option fref (files s f))"

lemma same_refs_refl [simp]: "same_refs s s"
  by (simp add: same_refs_def)

lemma same_refs_trans: "same_refs s t \<Longrightarrow> same_refs t u \<Longrightarrow> same_refs s u"
  using later_trans by (auto simp: same_refs_def)

lemma same_refs_fs: "fs.more t = fs.more s \<Longrightarrow> later s t \<Longrightarrow> same_refs s t"
  by (simp add: same_refs_def more_eq(5) [of t s] vfs_more_eq [of t s])

lemma advance_refs: "advance f n s = Some t \<Longrightarrow> same_refs s t"
  by (auto simp: advance_def same_refs_def bind_eq_Some_conv split: if_split_asm)

lemma file_read_refs:
  assumes "file_read f buf n s = Some (r, b, t)"
  shows "same_refs s t"
proof (cases "f = 0")
  case True
  then show ?thesis using assms by (simp add: file_read_def)
next
  case False
  then have "\<exists>(h :: file_t) q c u. vnode_read (fvnode h) (foffset h) n buf s = Some (q, c, u) \<and> advance f q u = Some t"
    using assms by (auto simp: file_read_def bind_eq_Some_conv)
  then obtain h :: file_t and q c u where u: "vnode_read (fvnode h) (foffset h) n buf s = Some (q, c, u)" "advance f q u = Some t" by blast
  have "same_refs s u"
    using u(1) by (auto simp: vnode_read_def same_refs_def bind_eq_Some_conv split: vptr.split_asm if_split_asm)
  then show ?thesis using advance_refs [OF u(2)] by (rule same_refs_trans)
qed

lemma file_write_refs:
  assumes "file_write f buf n s = Some (r, t)"
  shows "same_refs s t"
proof (cases "f = 0")
  case True
  then show ?thesis using assms by (simp add: file_write_def)
next
  case False
  then have "\<exists>(h :: file_t) q u. vnode_write (fvnode h) (foffset h) n buf s = Some (q, u) \<and> advance f q u = Some t"
    using assms by (auto simp: file_write_def bind_eq_Some_conv)
  then obtain h :: file_t and q u where u: "vnode_write (fvnode h) (foffset h) n buf s = Some (q, u)" "advance f q u = Some t" by blast
  have "same_refs s u"
  proof (cases "fvnode h")
    case (Ram a)
    then show ?thesis using u(1) ramfs_write_frame same_refs_fs by (fastforce simp: vnode_write_def)
  next
    case Tty
    then show ?thesis using u(1) by (auto simp: vnode_write_def same_refs_def bind_eq_Some_conv)
  qed
  then show ?thesis using advance_refs [OF u(2)] by (rule same_refs_trans)
qed

lemma file_seek_refs: "file_seek f off w s = Some (r, t) \<Longrightarrow> same_refs s t"
  by (auto simp: file_seek_def same_refs_def bind_eq_Some_conv split: if_split_asm)

section \<open>Counting references\<close>

text \<open>Changing one entry of a list, and one list of a list of lists, as changes of the counts.\<close>

lemma count_list_update:
  "i < length xs \<Longrightarrow> count_list (xs[i := y]) g + (if xs ! i = g then 1 else 0) = count_list xs g + (if y = g then 1 else 0)"
proof (induction xs arbitrary: i)
  case (Cons x xs)
  show ?case
  proof (cases i)
    case (Suc k)
    then show ?thesis using Cons.IH [of k] Cons.prems by (simp split: if_splits)
  qed simp
qed simp

lemma count_concat_update:
  "c < length xss \<Longrightarrow> count_list (concat (xss[c := ys])) g + count_list (xss ! c) g = count_list (concat xss) g + count_list ys g"
proof (induction xss arbitrary: c)
  case (Cons xs xss)
  show ?case
  proof (cases c)
    case (Suc d)
    then show ?thesis using Cons.IH [of d] Cons.prems by simp
  qed simp
qed simp

lemma count_list_two: "i < length xs \<Longrightarrow> j < length xs \<Longrightarrow> i \<noteq> j \<Longrightarrow> xs ! i = g \<Longrightarrow> xs ! j = g \<Longrightarrow> 2 \<le> count_list xs g"
proof (induction xs arbitrary: i j)
  case (Cons x xs)
  have one: "1 \<le> count_list xs g" if "k < length xs" "xs ! k = g" for k
    using that count_list_0_iff [of xs g] nth_mem [of k xs] by (cases "count_list xs g") auto
  show ?case
  proof (cases i)
    case 0
    then obtain k where "j = Suc k" using Cons.prems by (cases j) auto
    then show ?thesis using 0 Cons.prems one [of k] by simp
  next
    case (Suc k)
    show ?thesis
    proof (cases j)
      case 0
      then show ?thesis using Suc Cons.prems one [of k] by simp
    next
      case (Suc l)
      then show ?thesis using \<open>i = Suc k\<close> Cons.IH [of k l] Cons.prems by (simp add: le_SucI)
    qed
  qed
qed simp

text \<open>The descriptors of all processes, and how many refer to an open file.\<close>

definition fd_list :: "'a kernel_scheme \<Rightarrow> u32 list" where
  "fd_list s = concat (map fds (proc_table (procs s)))"

definition handles :: "'a kernel_scheme \<Rightarrow> u32 \<Rightarrow> nat" where
  "handles s f = count_list (fd_list s) f"

definition refs :: "'a kernel_scheme \<Rightarrow> u32 \<Rightarrow> nat" where
  "refs s f = (case files s f of None \<Rightarrow> 0 | Some h \<Rightarrow> unat (fref h))"

definition table_ok :: "'a kernel_scheme \<Rightarrow> bool" where
  "table_ok s \<longleftrightarrow> cur s \<noteq> None \<and> length (proc_table (procs s)) = 64 \<and> (\<forall>p\<in>set (proc_table (procs s)). length (fds p) = 32)"

text \<open>
  The invariant: the reference count of every open file is the number of descriptors that refer to it,
  a file is open as long as there is one, and the open files are at addresses handed out.
\<close>

definition files_ok :: "'a kernel_scheme \<Rightarrow> bool" where
  "files_ok s \<longleftrightarrow> files s 0 = None \<and> (\<forall>f. files s f \<noteq> None \<longrightarrow> fresh s \<noteq> 0 \<longrightarrow> f < fresh s)"

definition refs_ok :: "'a kernel_scheme \<Rightarrow> bool" where
  "refs_ok s \<longleftrightarrow> table_ok s \<and> files_ok s \<and> (\<forall>f. f \<noteq> 0 \<longrightarrow> refs s f = handles s f \<and> (files s f = None \<longleftrightarrow> handles s f = 0))"

lemma table_okD:
  assumes "table_ok s"
  obtains c where "cur s = Some c" "c < 64" "length (proc_table (procs s)) = 64" "length (fds (proc_at (procs s) c)) = 32"
    "cur_proc s = Some (proc_at (procs s) c)" "current_proc (procs s) \<noteq> None"
proof -
  obtain c where c: "cur s = Some c" using assms by (auto simp: table_ok_def)
  then have "c < 64" "current_proc (procs s) \<noteq> None" by (auto simp: cur_def current_def MAX_PROCS_def split: option.splits if_splits)
  then show thesis using assms c by (intro that [of c]) (auto simp: table_ok_def cur_proc_def)
qed

lemma handles_bound:
  assumes "table_ok s"
  shows "handles s f \<le> 2048"
proof -
  have "length (fd_list s) = (\<Sum>p\<leftarrow>proc_table (procs s). length (fds p))" by (simp add: fd_list_def length_concat comp_def)
  also have "\<dots> = (\<Sum>p\<leftarrow>proc_table (procs s). 32)" by (rule arg_cong [of _ _ sum_list], rule map_cong) (use assms in \<open>auto simp: table_ok_def\<close>)
  also have "\<dots> = 2048" using assms by (simp add: table_ok_def sum_list_triv)
  finally show ?thesis using count_le_length [of "fd_list s" f] by (simp add: handles_def)
qed

lemma set_fd_some:
  assumes "table_ok s" and "i < 32"
  obtains c t where "set_fd i f s = Some t" "cur s = Some c" "table_ok t" "files t = files s" "fresh t = fresh s"
    "cur_proc t = map_option (\<lambda>p. p\<lparr>fds := (fds p)[i := f]\<rparr>) (cur_proc s)"
    "\<And>g. handles t g + (if fds (proc_at (procs s) c) ! i = g then 1 else 0) = handles s g + (if f = g then 1 else 0)"
proof -
  obtain c where c: "cur s = Some c" "c < 64" "length (proc_table (procs s)) = 64" "length (fds (proc_at (procs s) c)) = 32"
    by (rule table_okD [OF assms(1)])
  let ?p = "proc_at (procs s) c"
  let ?q = "?p\<lparr>fds := (fds ?p)[i := f]\<rparr>"
  define t where "t = s\<lparr>procs := upd_proc c (\<lambda>p. p\<lparr>fds := (fds p)[i := f]\<rparr>) (procs s)\<rparr>"
  have r: "set_fd i f s = Some t" using c(1) by (simp add: set_fd_def upd_cur_def t_def)
  have tab: "proc_table (procs t) = (proc_table (procs s))[c := ?q]" by (simp add: t_def upd_proc_def)
  have ct: "cur t = Some c" using c(1) by (simp add: cur_def current_def t_def)
  have "table_ok t"
    using assms(1) ct c unfolding table_ok_def tab by (auto dest!: set_update_subset_insert [THEN subsetD])
  moreover have "handles t g + (if fds ?p ! i = g then 1 else 0) = handles s g + (if f = g then 1 else 0)" for g
  proof -
    have "handles t g + count_list (fds ?p) g = handles s g + count_list ((fds ?p)[i := f]) g"
      using count_concat_update [of c "map fds (proc_table (procs s))" "(fds ?p)[i := f]" g] c
      by (simp add: handles_def fd_list_def tab map_update)
    with count_list_update [of i "fds ?p" f g] assms(2) c(4) show ?thesis by linarith
  qed
  moreover have "cur_proc t = map_option (\<lambda>p. p\<lparr>fds := (fds p)[i := f]\<rparr>) (cur_proc s)"
    using c ct by (simp add: cur_proc_def tab)
  ultimately show thesis using r c(1) by (intro that [of t c]) (simp_all add: t_def)
qed

lemma fd_range: "\<not> (sint fd < 0 \<or> int MAX_FDS \<le> sint fd) \<longleftrightarrow> unat fd < 32" for fd :: u32
proof (cases "sint fd < 0")
  case True
  have "\<not> unat fd < 2147483648" using True sint_small [of fd] by linarith
  with True show ?thesis by linarith
next
  case False
  have "uint fd = sint fd" using False sint_lt [of fd] by (simp add: uint_sint take_bit_eq_mod)
  then have "int (unat fd) = sint fd" by simp
  then show ?thesis using False unfolding MAX_FDS_def by linarith
qed

lemma fd_get_some:
  assumes "table_ok s" and "fd_get fd s = Some f" and "f \<noteq> 0"
  obtains c where "cur s = Some c" "unat fd < 32" "fds (proc_at (procs s) c) ! unat fd = f" "1 \<le> handles s f"
proof -
  obtain c where c: "cur s = Some c" "c < 64" "length (proc_table (procs s)) = 64" "length (fds (proc_at (procs s) c)) = 32"
      "cur_proc s = Some (proc_at (procs s) c)"
    by (rule table_okD [OF assms(1)])
  have r: "\<not> (sint fd < 0 \<or> int MAX_FDS \<le> sint fd)" and f: "fds (proc_at (procs s) c) ! unat fd = f"
    using assms(2,3) c(5) by (auto simp: fd_get_def split: if_splits)
  then have i: "unat fd < 32" using fd_range by blast
  have "f \<in> set (fds (proc_at (procs s) c))" using f i c(4) by auto
  moreover have "proc_at (procs s) c \<in> set (proc_table (procs s))" using c(2,3) by simp
  ultimately have "f \<in> set (fd_list s)" by (auto simp: fd_list_def)
  then have "handles s f \<noteq> 0" by (simp add: handles_def count_list_0_iff)
  then show thesis using c(1) i f by (intro that [of c]) simp_all
qed

lemma later_bound: "later s t \<Longrightarrow> files_ok s \<Longrightarrow> files t 0 = None \<Longrightarrow> (\<And>f. files t f \<noteq> None \<Longrightarrow> files s f \<noteq> None) \<Longrightarrow> files_ok t"
  unfolding files_ok_def later_def by (meson order_less_le_trans)

lemma same_refs_ok:
  assumes "refs_ok s" and "same_refs s (t :: 'a kernel_scheme)"
  shows "refs_ok t"
proof -
  have p: "procs t = procs s" using assms(2) by (intro procs_eq) (simp add: same_refs_def)
  have f: "map_option fref (files t f) = map_option fref (files s f)" for f using assms(2) by (simp add: same_refs_def)
  have n: "files t f = None \<longleftrightarrow> files s f = None" for f using f [of f] by (cases "files t f"; cases "files s f") auto
  have "refs t f = refs s f" for f using f [of f] by (cases "files t f"; cases "files s f") (auto simp: refs_def)
  moreover have "handles t f = handles s f" for f by (simp add: handles_def fd_list_def p)
  moreover have "table_ok t \<longleftrightarrow> table_ok s" by (simp add: table_ok_def cur_def p)
  moreover have "files_ok t"
    by (rule later_bound [of s]) (use assms n in \<open>auto simp: same_refs_def refs_ok_def files_ok_def\<close>)
  ultimately show ?thesis using assms(1) n by (simp add: refs_ok_def)
qed

text \<open>Closing takes one reference away, and the file with the last one.\<close>

lemma close_refs:
  assumes "file_close f s = Some (r, t)" and "f \<noteq> 0" and "files s f = Some h" and "1 \<le> unat (fref h)" "unat (fref h) \<le> 2048"
  shows "r = 0" "procs t = procs (s :: 'a kernel_scheme)" "fresh t = fresh s" "\<And>g. g \<noteq> f \<Longrightarrow> files t g = files s g"
    "refs t f = refs s f - 1" "files t f = None \<longleftrightarrow> refs s f = 1"
    "files t f \<noteq> None \<Longrightarrow> map_option foffset (files t f) = map_option foffset (files s f)"
proof -
  have u: "unat (fref h - 1) = unat (fref h) - 1" using unat_minus [of 1 "fref h"] assms(4) by simp
  have "sint (fref h - 1) = int (unat (fref h - 1))" by (rule sint_small) (use u assms(5) in linarith)
  then have s: "sint (fref h - 1) \<le> 0 \<longleftrightarrow> unat (fref h) = 1" using u assms(4) by linarith
  obtain h' where c: "files s f = Some h'" "files t = (files s)(f := (if sint (fref h' - 1) \<le> 0 then None else Some (h'\<lparr>fref := fref h' - 1\<rparr>)))"
    "fresh t = fresh s" "vfs.more t = vfs.more s" "r = 0"
    by (rule file_close_frame [OF assms(1,2)])
  show "procs t = procs s" by (rule procs_eq [OF c(4)])
  show "r = 0" "fresh t = fresh s" "\<And>g. g \<noteq> f \<Longrightarrow> files t g = files s g" using c by simp_all
  have "h' = h" using c(1) assms(3) by simp
  then show "refs t f = refs s f - 1" "files t f = None \<longleftrightarrow> refs s f = 1"
    using c(2) assms(3,4) s u by (auto simp: refs_def)
  show "files t f \<noteq> None \<Longrightarrow> map_option foffset (files t f) = map_option foffset (files s f)"
    using c(1,2) by (auto split: if_splits)
qed


text \<open>The counts stay right when a descriptor that was free is given a file with one reference too many.\<close>

lemma refs_okD:
  assumes "refs_ok s"
  shows "table_ok s" "files_ok s" "\<And>f. f \<noteq> 0 \<Longrightarrow> refs s f = handles s f" "\<And>f. f \<noteq> 0 \<Longrightarrow> files s f = None \<longleftrightarrow> handles s f = 0"
  using assms by (simp_all add: refs_ok_def)

lemma live_file:
  assumes "refs_ok s" and "f \<noteq> 0" and "1 \<le> handles s f"
  obtains h where "files s f = Some h" "unat (fref h) = handles s f" "unat (fref h) \<le> 2048"
proof -
  obtain h where h: "files s f = Some h" using refs_okD(4) [OF assms(1,2)] assms(3) by (cases "files s f") auto
  with refs_okD(3) [OF assms(1,2)] have "unat (fref h) = handles s f" by (simp add: refs_def)
  moreover from this have "unat (fref h) \<le> 2048" using handles_bound [OF refs_okD(1) [OF assms(1)], of f] by linarith
  ultimately show thesis by (rule that [OF h])
qed

lemma sys_close_ok:
  assumes ok: "refs_ok s" and r: "sys_close fd s = Some (r, t)"
  shows "refs_ok t"
proof -
  obtain f where f: "fd_get fd s = Some f" using r by (auto simp: sys_close_def bind_eq_Some_conv)
  show ?thesis
  proof (cases "f = 0")
    case True
    then show ?thesis using r f ok by (simp add: sys_close_def)
  next
    case False
    note R = refs_okD [OF ok]
    obtain c where c: "cur s = Some c" "unat fd < 32" "fds (proc_at (procs s) c) ! unat fd = f" "1 \<le> handles s f"
      by (rule fd_get_some [OF R(1) f False])
    obtain c' u where "set_fd (unat fd) 0 s = Some u" "cur s = Some c'" and u: "table_ok u" "files u = files s" "fresh u = fresh s"
      and "\<And>g. handles u g + (if fds (proc_at (procs s) c') ! unat fd = g then 1 else 0) = handles s g + (if 0 = g then 1 else 0)"
      by (rule set_fd_some [OF R(1) c(2), of 0]) blast
    with c(1,3) have su: "set_fd (unat fd) 0 s = Some u"
      and h: "\<And>g. g \<noteq> 0 \<Longrightarrow> handles u g + (if f = g then 1 else 0) = handles s g" by simp_all
    have cl: "file_close f u = Some (r, t)" using r f False su by (simp add: sys_close_def)
    obtain hf where hf: "files s f = Some hf" "unat (fref hf) = handles s f" "unat (fref hf) \<le> 2048"
      by (rule live_file [OF ok False c(4)])
    have "files u f = Some hf" "1 \<le> unat (fref hf)" using hf u(2) c(4) by simp_all
    note C = close_refs [OF cl False this hf(3)]
    have hand: "handles t g = handles u g" for g by (simp add: handles_def fd_list_def C(2))
    have tab: "table_ok t" using u(1) by (simp add: table_ok_def cur_def C(2))
    have fo: "files_ok t"
    proof -
      have "files t g \<noteq> None \<Longrightarrow> files s g \<noteq> None" for g using C(4) [of g] u(2) hf(1) by (cases "g = f") auto
      moreover have "files t 0 = None" using C(4) [of 0] False u(2) R(2) by (simp add: files_ok_def)
      ultimately show ?thesis by (intro later_bound [OF _ R(2)]) (use C(3) u(3) in simp_all)
    qed
    have "refs t g = handles t g \<and> (files t g = None \<longleftrightarrow> handles t g = 0)" if "g \<noteq> 0" for g
    proof (cases "g = f")
      case True
      have "refs u f = handles s f" using R(3) [OF False] u(2) by (simp add: refs_def)
      then show ?thesis using C(5,6) h [OF that] hand True c(4) by auto
    next
      case ne: False
      have "refs t g = refs s g" "files t g = files s g" using C(4) [OF ne] u(2) by (simp_all add: refs_def)
      then show ?thesis using R(3,4) [OF that] h [OF that] hand ne by simp
    qed
    then show ?thesis using tab fo by (simp add: refs_ok_def)
  qed
qed

text \<open>\<^verbatim>\<open>fd_alloc\<close> takes the lowest free descriptor.\<close>

lemma fd_alloc_cases:
  assumes "table_ok s"
  obtains (full) c where "fd_alloc f s = Some (- EMFILE, s)" "cur s = Some c" "\<And>i. i < 32 \<Longrightarrow> fds (proc_at (procs s) c) ! i \<noteq> 0"
  | (found) c i t where "fd_alloc f s = Some (of_nat i, t)" "set_fd i f s = Some t" "cur s = Some c" "i < 32"
      "fds (proc_at (procs s) c) ! i = 0" "\<And>j. j < i \<Longrightarrow> fds (proc_at (procs s) c) ! j \<noteq> 0"
proof -
  obtain c where c: "cur s = Some c" "cur_proc s = Some (proc_at (procs s) c)" by (rule table_okD [OF assms])
  let ?p = "proc_at (procs s) c"
  show thesis
  proof (cases "List.find (\<lambda>i. fds ?p ! i = 0) [0..<MAX_FDS]")
    case None
    then have "\<And>i. i < 32 \<Longrightarrow> fds ?p ! i \<noteq> 0" by (simp add: find_upt_None_iff MAX_FDS_def)
    then show thesis using c None by (intro full [of c]) (simp_all add: fd_alloc_def)
  next
    case (Some i)
    then have i: "i < 32" "fds ?p ! i = 0" "\<And>j. j < i \<Longrightarrow> fds ?p ! j \<noteq> 0" by (simp_all add: find_upt_Some_iff MAX_FDS_def)
    obtain t where "set_fd i f s = Some t" by (rule set_fd_some [OF assms i(1), of f])
    then show thesis using c Some i by (intro found [of i t c]) (simp_all add: fd_alloc_def)
  qed
qed

text \<open>\<^verbatim>\<open>sys_open\<close> from the path it has made on.\<close>

lemma sys_open_cases:
  assumes ok: "refs_ok s" and p: "cur_proc s = Some p" "open_path (take VFS_PATH_LEN stack) (cwd p) path = Some full"
    and f: "file_open (Some full) flags s = Some (f, u)"
  obtains (missing) "f = 0" "sys_open stack path flags s = Some (- ENOENT, u)" "refs_ok u"
  | (full) c t where "f \<noteq> 0" "sys_open stack path flags s = Some (- EMFILE, t)" "cur s = Some c"
      "\<And>i. i < 32 \<Longrightarrow> fds (proc_at (procs s) c) ! i \<noteq> 0" "files t = files s" "procs t = procs s" "refs_ok t"
  | (opened) c i t h where "f \<noteq> 0" "sys_open stack path flags s = Some (of_nat i, t)" "cur s = Some c" "i < 32"
      "fds (proc_at (procs s) c) ! i = 0" "\<And>j. j < i \<Longrightarrow> fds (proc_at (procs s) c) ! j \<noteq> 0"
      "cur_proc t = Some (p\<lparr>fds := (fds p)[i := f]\<rparr>)" "files s f = None" "files t = (files s)(f \<mapsto> h)" "fref h = 1" "refs_ok t"
proof -
  note R = refs_okD [OF ok]
  note F = file_open_frame [OF f]
  have pu: "procs u = procs s" by (rule procs_eq [OF F(2)])
  have hu: "handles u g = handles s g" for g by (simp add: handles_def fd_list_def pu)
  have tu: "table_ok u" "cur u = cur s" using R(1) by (simp_all add: table_ok_def cur_def pu)
  show thesis
  proof (cases "f = 0")
    case True
    have "same_refs s u" using F(1,2,3) True by (simp add: same_refs_def)
    from same_refs_ok [OF ok this] show thesis using True p f by (intro missing) (simp_all add: sys_open_def)
  next
    case False
    obtain h where h: "files u = (files s)(f \<mapsto> h)" "fref h = 1" "vnode_at (fvnode h) u \<noteq> None" "fresh s \<noteq> 0" "fresh s \<le> f" "fresh u = 0 \<or> f < fresh u"
      using F(4) [OF False] by blast
    have new: "files s f = None"
    proof (rule ccontr)
      assume "files s f \<noteq> None"
      then have "f < fresh s" using R(2) h(4) by (auto simp: files_ok_def)
      with h(5) show False by simp
    qed
    then have hf: "handles s f = 0" using R(4) [OF False] by simp
    have fu: "files u 0 = None" "files_ok u"
      using R(2) h(1,6) F(1) False by (auto simp: files_ok_def later_def intro: order_less_le_trans)
    show thesis
    proof (cases rule: fd_alloc_cases [OF tu(1), of f])
      case (1 c)
      have pos: "1 \<le> unat (fref h)" "unat (fref h) \<le> 2048" "files u f = Some h" using h(1,2) by simp_all
      have "\<exists>r t. file_close f u = Some (r, t)" using False pos(3) h(3) by (auto simp: file_close_def Let_def)
      then obtain r t where cl: "file_close f u = Some (r, t)" by blast
      note C = close_refs [OF cl False pos(3,1,2)]
      have "files t g = files s g" for g
        using C(4) [of g] C(6) h(1,2) new by (cases "g = f") (simp_all add: refs_def)
      then have ft: "files t = files s" by (rule ext)
      have "vfs.more t = vfs.more u" using cl False by (auto simp: file_close_def Let_def bind_eq_Some_conv split: if_split_asm)
      then have "same_refs s t" using F(1,2) ft C(3) by (simp add: same_refs_def later_def)
      from same_refs_ok [OF ok this] show thesis
        using False 1 p f cl C(1,2) ft pu tu(2)
        by (intro full [of t c]) (simp_all add: sys_open_def EMFILE_def)
    next
      case (2 c i t)
      obtain c' t' where t': "set_fd i f u = Some t'" and S: "cur u = Some c'" "table_ok t'" "files t' = files u" "fresh t' = fresh u"
        "cur_proc t' = map_option (\<lambda>p. p\<lparr>fds := (fds p)[i := f]\<rparr>) (cur_proc u)"
        "\<And>g. handles t' g + (if fds (proc_at (procs u) c') ! i = g then 1 else 0) = handles u g + (if f = g then 1 else 0)"
        by (rule set_fd_some [OF tu(1) 2(4), of f]) blast
      have "t' = t" using t' 2(2) by simp
      note S = S [unfolded this]
      have c: "c' = c" using S(1) 2(3) by simp
      have cnt: "handles t g = handles s g + (if f = g then 1 else 0)" if "g \<noteq> 0" for g
        using S(6) [of g] 2(5) that hu [of g] c pu by simp
      have "refs t g = handles t g \<and> (files t g = None \<longleftrightarrow> handles t g = 0)" if "g \<noteq> 0" for g
      proof (cases "g = f")
        case True
        then show ?thesis using cnt [OF that] hf S(3) h(1,2) by (simp add: refs_def)
      next
        case ne: False
        then have "refs t g = refs s g" "files t g = files s g" using S(3) h(1) by (simp_all add: refs_def)
        then show ?thesis using cnt [OF that] ne R(3,4) [OF that] by simp
      qed
      moreover have "files_ok t" using fu S(3,4) by (simp add: files_ok_def)
      ultimately have ok': "refs_ok t" using S(2) by (simp add: refs_ok_def)
      have nn: "\<not> sint (of_nat i :: u32) < 0"
        using sint_small [of "of_nat i :: u32"] 2(4) by (simp add: unat_of_nat_small)
      have "sys_open stack path flags s = Some (of_nat i, t)" using False p f 2(1) nn by (simp add: sys_open_def)
      then show thesis
        using False 2 S(3,5) p(1) pu tu(2) h(1,2) new ok' by (intro opened [of i t c h]) (simp_all add: cur_proc_def)
    qed
  qed
qed

lemma handles_row: "c < length (proc_table (procs s)) \<Longrightarrow> count_list (fds (proc_at (procs s) c)) g \<le> handles s g"
  using count_concat_update [of c "map fds (proc_table (procs s))" "[]" g] by (simp add: handles_def fd_list_def)

lemma fd_get_eq:
  assumes "table_ok s" and "unat fd < 32"
  shows "fd_get fd s = map_option (\<lambda>p. fds p ! unat fd) (cur_proc s)"
proof -
  have "current_proc (procs s) \<noteq> None" by (rule table_okD [OF assms(1)])
  then show ?thesis using assms(2) fd_range [of fd] by (auto simp: fd_get_def)
qed

text \<open>The descriptor given up by \<^verbatim>\<open>dup2\<close>: its file loses a reference, unless there is none.\<close>

lemma dup2_drop:
  assumes ok: "refs_ok s" and new: "unat newfd < 32" and g: "fd_get newfd s = Some g"
    and u: "(if g \<noteq> 0 then map_option snd (file_close g s) else Some s) = Some u"
  shows "procs u = procs s" "fresh u = fresh s" "files_ok u" "\<And>x. x \<noteq> g \<Longrightarrow> files u x = files s x"
    "g \<noteq> 0 \<Longrightarrow> refs u g = handles s g - 1 \<and> (files u g = None \<longleftrightarrow> handles s g = 1) \<and> 1 \<le> handles s g"
    "g \<noteq> 0 \<Longrightarrow> files u g \<noteq> None \<Longrightarrow> map_option foffset (files u g) = map_option foffset (files s g)"
proof -
  note R = refs_okD [OF ok]
  have "procs u = procs s \<and> fresh u = fresh s \<and> files_ok u \<and> (\<forall>x. x \<noteq> g \<longrightarrow> files u x = files s x) \<and>
      (g \<noteq> 0 \<longrightarrow> refs u g = handles s g - 1 \<and> (files u g = None \<longleftrightarrow> handles s g = 1) \<and> 1 \<le> handles s g
        \<and> (files u g \<noteq> None \<longrightarrow> map_option foffset (files u g) = map_option foffset (files s g)))"
  proof (cases "g = 0")
    case True
    then show ?thesis using u R(2) by simp
  next
    case False
    have one: "1 \<le> handles s g" by (rule fd_get_some [OF R(1) g False])
    obtain h where h: "files s g = Some h" "unat (fref h) = handles s g" "unat (fref h) \<le> 2048" by (rule live_file [OF ok False one])
    obtain r where cl: "file_close g s = Some (r, u)" using u False by auto
    have "1 \<le> unat (fref h)" using h(2) one by simp
    note C = close_refs [OF cl False h(1) this h(3)]
    have "refs s g = handles s g" by (rule R(3) [OF False])
    moreover have "files_ok u"
    proof (rule later_bound [OF _ R(2)])
      show "files u 0 = None" using C(4) [of 0] False R(2) by (simp add: files_ok_def)
      show "files u x \<noteq> None \<Longrightarrow> files s x \<noteq> None" for x using C(4) [of x] h(1) by (cases "x = g") auto
    qed (use C(3) in simp)
    ultimately show ?thesis using C one by auto
  qed
  then show "procs u = procs s" "fresh u = fresh s" "files_ok u" "\<And>x. x \<noteq> g \<Longrightarrow> files u x = files s x"
    "g \<noteq> 0 \<Longrightarrow> refs u g = handles s g - 1 \<and> (files u g = None \<longleftrightarrow> handles s g = 1) \<and> 1 \<le> handles s g"
    "g \<noteq> 0 \<Longrightarrow> files u g \<noteq> None \<Longrightarrow> map_option foffset (files u g) = map_option foffset (files s g)" by blast+
qed

lemma sys_dup2_ok:
  assumes ok: "refs_ok s" and ne: "oldfd \<noteq> newfd" and new: "unat newfd < 32" and f: "fd_get oldfd s = Some f" "f \<noteq> 0"
    and t: "sys_dup2 oldfd newfd s = Some (r, t)"
  shows "r = newfd" "refs_ok t" "fd_get oldfd t = Some f" "fd_get newfd t = Some f"
    "map_option foffset (files t f) = map_option foffset (files s f)"
proof -
  note R = refs_okD [OF ok]
  obtain c where c: "cur s = Some c" "unat oldfd < 32" "fds (proc_at (procs s) c) ! unat oldfd = f" "1 \<le> handles s f"
    by (rule fd_get_some [OF R(1) f])
  obtain cc where cc: "cur s = Some cc" "cc < 64" "length (proc_table (procs s)) = 64" "length (fds (proc_at (procs s) cc)) = 32"
    "cur_proc s = Some (proc_at (procs s) cc)" by (rule table_okD [OF R(1)])
  have same: "cc = c" using cc(1) c(1) by simp
  note cc = cc [unfolded same]
  let ?row = "fds (proc_at (procs s) c)"
  define g where "g = ?row ! unat newfd"
  have g: "fd_get newfd s = Some g" using fd_get_eq [OF R(1) new] cc(5) by (simp add: g_def)
  have idx: "unat oldfd \<noteq> unat newfd" using ne by (simp add: word_unat_eq_iff)
  have nn: "\<not> (sint newfd < 0 \<or> int MAX_FDS \<le> sint newfd)" using fd_range new by blast
  obtain u where u: "(if g \<noteq> 0 then map_option snd (file_close g s) else Some s) = Some u"
    using t f g nn by (auto simp: sys_dup2_def bind_eq_Some_conv)
  note D = dup2_drop [OF ok new g u]
  have tu: "table_ok u" "cur u = Some c" "\<And>x. handles u x = handles s x"
    using R(1) c(1) by (simp_all add: table_ok_def cur_def handles_def fd_list_def D(1))
  obtain c' v where v: "set_fd (unat newfd) f u = Some v" and S: "cur u = Some c'" "table_ok v" "files v = files u" "fresh v = fresh u"
      "cur_proc v = map_option (\<lambda>p. p\<lparr>fds := (fds p)[unat newfd := f]\<rparr>) (cur_proc u)"
      "\<And>x. handles v x + (if fds (proc_at (procs u) c') ! unat newfd = x then 1 else 0) = handles u x + (if f = x then 1 else 0)"
    by (rule set_fd_some [OF tu(1) new, of f]) blast
  have cnt: "handles v x + (if g = x then 1 else 0) = handles s x + (if f = x then 1 else 0)" for x
    using S(6) [of x] S(1) tu D(1) by (simp add: g_def)
  have two: "g = f \<Longrightarrow> 2 \<le> handles s f"
    using count_list_two [of "unat oldfd" ?row "unat newfd" f] handles_row [of c s f] c cc idx new by (simp add: g_def)
  obtain h where h: "files v f = Some h" "t = v\<lparr>files := (files v)(f \<mapsto> h\<lparr>fref := fref h + 1\<rparr>)\<rparr>" "r = newfd"
    using t f g nn u v by (auto simp: sys_dup2_def bind_eq_Some_conv)
  show "r = newfd" by (rule h(3))
  have uh: "unat (fref h) = (if g = f then handles s f - 1 else handles s f)"
    using h(1) S(3) D(4) [of f] D(5) R(3) [OF f(2)] f(2) by (cases "g = f") (auto simp: refs_def)
  have "unat (fref h + 1) = Suc (unat (fref h))"
    using uh handles_bound [OF R(1), of f] by (subst unat_add_small) (auto simp: split: if_splits)
  moreover have tv: "handles t x = handles v x" for x using h(2) by (simp add: handles_def fd_list_def)
  ultimately have rf: "refs t f = handles t f" "handles t f \<noteq> 0" "files t f \<noteq> None"
    using uh cnt [of f] h(2) two c(4) by (cases "g = f"; simp add: refs_def; linarith)+
  have "refs t x = handles t x \<and> (files t x = None \<longleftrightarrow> handles t x = 0)" if "x \<noteq> 0" for x
  proof (cases "x = f")
    case True
    then show ?thesis using rf by simp
  next
    case xf: False
    have tx: "files t x = files u x" "handles t x = handles v x" using xf h(2) S(3) by (simp_all add: handles_def fd_list_def)
    show ?thesis
    proof (cases "x = g")
      case True
      then show ?thesis using tx D(5) cnt [of x] xf that by (auto simp: refs_def)
    next
      case False
      then show ?thesis using tx D(4) [of x] cnt [of x] xf R(3,4) [OF that] by (simp add: refs_def)
    qed
  qed
  moreover have "files_ok t"
    using D(2,3) S(3,4) h(1,2) by (auto simp: files_ok_def)
  moreover have "table_ok t" using S(2) h(2) by (simp add: table_ok_def cur_def)
  ultimately show "refs_ok t" by (simp add: refs_ok_def)
  have tt: "table_ok t" "cur_proc t = map_option (\<lambda>p. p\<lparr>fds := (fds p)[unat newfd := f]\<rparr>) (cur_proc s)"
    using S(2,5) h(2) by (simp_all add: table_ok_def cur_def cur_proc_def D(1))
  show "fd_get newfd t = Some f" "fd_get oldfd t = Some f"
    using fd_get_eq [OF tt(1) new] fd_get_eq [OF tt(1) c(2)] tt(2) cc c(3) new idx by simp_all
  show "map_option foffset (files t f) = map_option foffset (files s f)"
    using h(1,2) S(3) D(4) [of f] D(6) f(2) by (cases "g = f") auto
qed

text \<open>The calls that leave the descriptors alone.\<close>

lemma sys_close_fds:
  assumes ok: "refs_ok s" and f: "fd_get fd s = Some f" "f \<noteq> 0" and t: "sys_close fd s = Some (r, t)"
  shows "cur_proc t = map_option (\<lambda>p. p\<lparr>fds := (fds p)[unat fd := 0]\<rparr>) (cur_proc s)"
proof -
  have tab: "table_ok s" by (rule refs_okD [OF ok])
  have i: "unat fd < 32" by (rule fd_get_some [OF tab f])
  obtain u where u: "set_fd (unat fd) 0 s = Some u" "cur_proc u = map_option (\<lambda>p. p\<lparr>fds := (fds p)[unat fd := 0]\<rparr>) (cur_proc s)"
    by (rule set_fd_some [OF tab i, of 0]) blast
  then have cl: "file_close f u = Some (r, t)" using f t by (simp add: sys_close_def)
  have "vfs.more t = vfs.more u" by (rule file_close_frame [OF cl f(2)])
  then have "procs t = procs u" by (rule procs_eq)
  then show ?thesis using u(2) by (simp add: cur_proc_def cur_def)
qed

lemma sys_rw_refs:
  "sys_read fd buf n s = Some (r, b, t) \<Longrightarrow> same_refs s t"
  "sys_write fd buf n s = Some (r, t) \<Longrightarrow> same_refs s t"
  "sys_lseek fd off w s = Some (r, t) \<Longrightarrow> same_refs s t"
  by (auto simp: sys_read_def sys_write_def sys_lseek_def bind_eq_Some_conv
      dest: file_read_refs file_write_refs file_seek_refs split: if_split_asm)

lemma sys_mkdir_refs:
  assumes "sys_mkdir path s = Some (r, t)"
  shows "same_refs s t"
proof -
  obtain sl pp parent where p: "split_path path = Some (sl, pp)" "vfs_lookup (Some pp) s = Some parent"
    using assms by (auto simp: sys_mkdir_def bind_eq_Some_conv)
  show ?thesis
  proof (cases "\<exists>a. parent = Some (Ram a)")
    case True
    then obtain a where "parent = Some (Ram a)" by blast
    then have "ramfs_create a (if path ! sl = slash then drop (sl + 1) path else drop sl path) VFS_DIR s = Some (r, t)"
      using assms p by (simp add: sys_mkdir_def Let_def)
    from ramfs_create_frame [OF this] show ?thesis by (simp add: same_refs_fs)
  next
    case False
    then have "t = s" using assms p by (auto simp: sys_mkdir_def split: option.split_asm vptr.split_asm)
    then show ?thesis by simp
  qed
qed

lemma sys_unlink_refs:
  assumes "sys_unlink path s = Some (r, t)"
  shows "same_refs s t"
proof -
  obtain sl pp parent where p: "split_path path = Some (sl, pp)" "vfs_lookup (Some pp) s = Some parent"
    using assms by (auto simp: sys_unlink_def bind_eq_Some_conv)
  show ?thesis
  proof (cases "\<exists>a. parent = Some (Ram a)")
    case True
    then obtain a where "parent = Some (Ram a)" by blast
    then have "ramfs_unlink a (if path ! sl = slash then drop (sl + 1) path else path) s = Some (r, t)"
      using assms p by (simp add: sys_unlink_def Let_def)
    from ramfs_unlink_frame [OF this] show ?thesis by (simp add: same_refs_fs)
  next
    case False
    then have "t = s" using assms p by (auto simp: sys_unlink_def split: option.split_asm vptr.split_asm)
    then show ?thesis by simp
  qed
qed

lemma upd_cwd_ok:
  assumes "refs_ok s" and "upd_cur (\<lambda>p. p\<lparr>cwd := d\<rparr>) s = Some t"
  shows "refs_ok t"
proof -
  obtain c where c: "cur s = Some c" "c < 64" "length (proc_table (procs s)) = 64" by (rule table_okD [OF refs_okD(1) [OF assms(1)]])
  then have t: "t = s\<lparr>procs := upd_proc c (\<lambda>p. p\<lparr>cwd := d\<rparr>) (procs s)\<rparr>" using assms(2) by (simp add: upd_cur_def)
  have "map fds (proc_table (procs t)) = (map fds (proc_table (procs s)))[c := fds (proc_at (procs s) c)]"
    by (simp add: t upd_proc_def map_update)
  then have m: "map fds (proc_table (procs t)) = map fds (proc_table (procs s))" using c by (simp add: map_update [symmetric])
  then have "length ` fds ` set (proc_table (procs t)) = length ` fds ` set (proc_table (procs s))"
    by (metis set_map)
  then have "table_ok t" using refs_okD(1) [OF assms(1)] c
    unfolding table_ok_def by (auto simp: t cur_def current_def image_iff set_eq_iff)
  moreover have "handles t f = handles s f" for f by (simp add: handles_def fd_list_def m)
  ultimately show ?thesis using assms(1) by (simp add: refs_ok_def files_ok_def refs_def t)
qed

section \<open>The calls as steps\<close>

inductive fd_step :: "'a kernel_scheme \<Rightarrow> 'a kernel_scheme \<Rightarrow> bool" where
  step_open: "sys_open stack path flags s = Some (r, t) \<Longrightarrow> fd_step s t"
| step_close: "sys_close fd s = Some (r, t) \<Longrightarrow> fd_step s t"
| step_dup2: "oldfd \<noteq> newfd \<Longrightarrow> sys_dup2 oldfd newfd s = Some (r, t) \<Longrightarrow> fd_step s t"
| step_read: "sys_read fd buf n s = Some (r, b, t) \<Longrightarrow> fd_step s t"
| step_write: "sys_write fd buf n s = Some (r, t) \<Longrightarrow> fd_step s t"
| step_lseek: "sys_lseek fd off w s = Some (r, t) \<Longrightarrow> fd_step s t"
| step_mkdir: "sys_mkdir path s = Some (r, t) \<Longrightarrow> fd_step s t"
| step_unlink: "sys_unlink path s = Some (r, t) \<Longrightarrow> fd_step s t"
| step_chdir: "sys_chdir dir s = Some (r, t) \<Longrightarrow> fd_step s t"

lemma fd_step_ok:
  assumes "fd_step s t" and ok: "refs_ok s"
  shows "refs_ok t"
  using assms(1)
proof cases
  case (step_open stack path flags r)
  then obtain p full f u where "cur_proc s = Some p" "open_path (take VFS_PATH_LEN stack) (cwd p) path = Some full"
    "file_open (Some full) flags s = Some (f, u)"
    by (auto simp: sys_open_def bind_eq_Some_conv)
  from sys_open_cases [OF ok this] show ?thesis using step_open by cases auto
next
  case (step_close fd r)
  then show ?thesis by (rule sys_close_ok [OF ok])
next
  case (step_dup2 oldfd newfd r)
  obtain f where f: "fd_get oldfd s = Some f" using step_dup2(2) by (auto simp: sys_dup2_def bind_eq_Some_conv)
  show ?thesis
  proof (cases "f = 0 \<or> \<not> unat newfd < 32")
    case True
    then have "f = 0 \<or> sint newfd < 0 \<or> int MAX_FDS \<le> sint newfd" using fd_range [of newfd] by blast
    then have "t = s" using step_dup2(2) f by (auto simp: sys_dup2_def split: if_split_asm)
    then show ?thesis using ok by simp
  next
    case False
    then show ?thesis using sys_dup2_ok(2) [OF ok step_dup2(1) _ f _ step_dup2(2)] by simp
  qed
next
  case (step_read fd buf n r b)
  then show ?thesis by (intro same_refs_ok [OF ok] sys_rw_refs(1))
next
  case (step_write fd buf n r)
  then show ?thesis by (intro same_refs_ok [OF ok] sys_rw_refs(2))
next
  case (step_lseek fd off w r)
  then show ?thesis by (intro same_refs_ok [OF ok] sys_rw_refs(3))
next
  case (step_mkdir path r)
  then show ?thesis by (intro same_refs_ok [OF ok] sys_mkdir_refs)
next
  case (step_unlink path r)
  then show ?thesis by (intro same_refs_ok [OF ok] sys_unlink_refs)
next
  case (step_chdir dir r)
  have "t = s \<or> (\<exists>d. upd_cur (\<lambda>p. p\<lparr>cwd := d\<rparr>) s = Some t)"
    using step_chdir by (auto simp: sys_chdir_def bind_eq_Some_conv split: option.split_asm if_split_asm)
  then show ?thesis using ok upd_cwd_ok by blast
qed

lemma fd_steps_ok: "fd_step\<^sup>*\<^sup>* s t \<Longrightarrow> refs_ok s \<Longrightarrow> refs_ok t"
  by (induction rule: rtranclp_induct) (auto intro: fd_step_ok)

lemma open_path_joins:
  assumes d: "c_string d dir" "d \<noteq> []" "last d \<noteq> slash" and p: "c_string p path" "p = [] \<or> hd p \<noteq> slash"
    and j: "c_string j (drop (length d + 1) stack)" and fits: "length d + length j + length p + 2 \<le> length stack" "length d + length j + 3 \<le> length stack"
  shows "\<exists>full. open_path stack dir path = Some full \<and> c_string (d @ slash # j @ p) full"
proof -
  obtain tail where tail: "drop (length d + 1) stack = j @ 0 # tail" "0 \<notin> set j" using j by (auto simp: c_string_def)
  have d0: "0 \<notin> set d" using d(1) by (simp add: c_string_def)
  let ?a = "d @ 0 # j @ 0 # tail"
  have a: "strcpy stack dir = Some ?a" using strcpy_c [OF d(1), of stack] fits(1) tail(1) by simp
  let ?b = "d @ slash # j @ 0 # tail"
  have n: "strlen ?a = Some (length d)" by (rule strlen_c) (use d0 in \<open>simp add: c_string_def\<close>)
  have lst: "?a ! (length d - 1) = last d" using d(2) by (simp add: nth_append last_conv_nth)
  have b: "buf_set (length d) slash ?a = Some ?b" by (simp add: buf_set_def)
  have m: "strlen ?b = Some (length d + 1 + length j)"
    using strlen_c [of "d @ slash # j" ?b] d0 tail(2) by (simp add: c_string_def)
  have len: "length ?b = length stack" using arg_cong [OF tail(1), of length] fits(1) by simp
  have "1 \<le> length tail" using len fits(2) by simp
  then obtain x tail' where x: "tail = x # tail'" by (cases tail) auto
  have e: "end_slash ?a = Some (d @ slash # j @ 0 # 0 # tail')"
    unfolding end_slash_def n b m Option.bind.simps lst using d(2,3) by (simp add: m b buf_set_def x nth_append list_update_append)
  let ?q = "d @ slash # j"
  have q: "c_string ?q (?q @ 0 # 0 # tail')" using d0 tail(2) by (simp add: c_string_def)
  have "strcat (?q @ 0 # 0 # tail') path = Some (?q @ p @ 0 # drop (Suc (length p)) (0 # 0 # tail'))"
    using strlen_c [OF q] strcpy_c [OF p(1), of "0 # 0 # tail'"] len fits(1) x by (simp add: strcat_def)
  moreover obtain c r where "path = c # r" "c \<noteq> slash" using p by (cases p) (auto simp: c_string_def)
  ultimately have "open_path stack dir path = Some (?q @ p @ 0 # drop (Suc (length p)) (0 # 0 # tail'))"
    using a e by (simp add: open_path_def)
  moreover have "c_string (d @ slash # j @ p) (?q @ p @ 0 # drop (Suc (length p)) (0 # 0 # tail'))"
    using d0 tail(2) p(1) by (simp add: c_string_def)
  ultimately show ?thesis by blast
qed

section \<open>Properties\<close>


text \<open>
  \<^verbatim>\<open>sys_open\<close> of a file that can be opened gives the lowest descriptor that is free, and leaves the
  others as they are; when all 32 are in use it answers \<^verbatim>\<open>-EMFILE\<close> and closes the file again, so that
  the open files and the processes are as before.
\<close>

theorem sys_open_lowest_descriptor:
  assumes ok: "refs_ok s" and p: "cur_proc s = Some p" "open_path (take VFS_PATH_LEN stack) (cwd p) path = Some full"
    and f: "file_open (Some full) flags s = Some (f, u)" "f \<noteq> 0"
  shows "\<exists>r t. sys_open stack path flags s = Some (r, t) \<and>
    (if \<exists>i<32. fds p ! i = 0
     then unat r < 32 \<and> fds p ! unat r = 0 \<and> (\<forall>j<unat r. fds p ! j \<noteq> 0) \<and> fd_get r t = Some f \<and> files t f \<noteq> None
       \<and> (\<forall>fd. unat fd < 32 \<longrightarrow> fd \<noteq> r \<longrightarrow> fd_get fd t = fd_get fd s)
     else r = - EMFILE \<and> files t = files s \<and> procs t = procs s)"
proof (cases rule: sys_open_cases [OF ok p f(1)])
  case 1
  with f(2) show ?thesis by simp
next
  case (2 c t)
  have "p = proc_at (procs s) c" using p(1) 2(3) by (simp add: cur_proc_def)
  then show ?thesis using 2 by auto
next
  case (3 c i t h)
  have pc: "p = proc_at (procs s) c" using p(1) 3(3) by (simp add: cur_proc_def)
  have i: "unat (of_nat i :: u32) = i" using 3(4) by (simp add: unat_of_nat_small)
  have tab: "table_ok s" "table_ok t" using refs_okD(1) ok 3(11) by blast+
  have len: "length (fds p) = 32"
    by (rule table_okD [OF tab(1)]) (use 3(3) pc in simp)
  have get: "fd_get fd t = Some (if unat fd = i then f else fds p ! unat fd)" if "unat fd < 32" for fd
    using fd_get_eq [OF tab(2) that] 3(7) len that 3(4) by simp
  have gets: "fd_get fd s = Some (fds p ! unat fd)" if "unat fd < 32" for fd
    using fd_get_eq [OF tab(1) that] p(1) by simp
  have "fd \<noteq> of_nat i \<Longrightarrow> unat fd \<noteq> i" for fd :: u32 by auto
  then show ?thesis
    using 3 i get gets pc by (intro exI [of _ "of_nat i"] exI [of _ t]) auto
qed

text \<open>
  \<^verbatim>\<open>sys_dup2\<close> to another number makes the two descriptors share one open file with its offset; closing
  the first leaves the file open for the second.
\<close>

theorem sys_dup2_shares_file:
  assumes ok: "refs_ok s" and ne: "oldfd \<noteq> newfd" and new: "unat newfd < 32" and f: "fd_get oldfd s = Some f" "f \<noteq> 0"
    and t: "sys_dup2 oldfd newfd s = Some (r, t)"
  shows "r = newfd \<and> fd_get oldfd t = Some f \<and> fd_get newfd t = Some f
    \<and> map_option foffset (files t f) = map_option foffset (files s f)
    \<and> (\<forall>q u. sys_close oldfd t = Some (q, u) \<longrightarrow> fd_get oldfd u = Some 0 \<and> fd_get newfd u = Some f \<and> files u f \<noteq> None)"
proof -
  note D = sys_dup2_ok [OF ok ne new f t]
  have "fd_get oldfd u = Some 0 \<and> fd_get newfd u = Some f \<and> files u f \<noteq> None" if u: "sys_close oldfd t = Some (q, u)" for q u
  proof -
    have oku: "refs_ok u" by (rule sys_close_ok [OF D(2) u])
    have tab: "table_ok t" "table_ok u" using refs_okD(1) D(2) oku by blast+
    have old: "unat oldfd < 32" by (rule fd_get_some [OF tab(1) D(3) f(2)])
    have idx: "unat oldfd \<noteq> unat newfd" using ne by (simp add: word_unat_eq_iff)
    obtain c where c: "cur_proc t = Some (proc_at (procs t) c)" "length (fds (proc_at (procs t) c)) = 32" by (rule table_okD [OF tab(1)])
    have get: "fd_get newfd u = Some f" "fd_get oldfd u = Some 0"
      using fd_get_eq [OF tab(2) new] fd_get_eq [OF tab(2) old] fd_get_eq [OF tab(1) new] D(4)
        sys_close_fds [OF D(2,3) f(2) u] c idx old by simp_all
    have "1 \<le> handles u f" by (rule fd_get_some [OF tab(2) get(1) f(2)])
    then show ?thesis using get refs_okD(4) [OF oku f(2)] by auto
  qed
  with D show ?thesis by blast
qed

text \<open>
  A descriptor that is not open is refused: every call that takes one answers \<^verbatim>\<open>-EBADF\<close> in \<^verbatim>\<open>eax\<close> and
  changes nothing, neither the system nor the buffer it was given.
\<close>

theorem syscall_bad_descriptor:
  assumes "fd_get (a_ebx r) s = Some 0"
    and "r_eax r \<in> {SYS_READ, SYS_WRITE, SYS_CLOSE, SYS_LSEEK, SYS_DUP2, SYS_READDIR}"
  shows "\<exists>w. syscall_dispatch shell stack mem r s = Some (Some (r\<lparr>r_eax := - EBADF\<rparr>), w, s)
    \<and> (\<forall>p b. w = Some (p, b) \<longrightarrow> b = mem p)"
  using assms
  by (auto simp: syscall_dispatch_def syscall_value_def Let_def returns_def sys_numbers sys_read_def sys_write_def
      sys_close_def sys_lseek_def sys_dup2_def sys_readdir_def)

text \<open>
  The path of \<^verbatim>\<open>sys_open\<close> for a relative name is the working directory, a slash, whatever string the
  stack happens to hold behind, and the name: the terminator of the directory is overwritten by the
  slash before the length is taken again. The name is the one asked for only when that string is empty.
\<close>

theorem open_path_keeps_stack:
  assumes d: "c_string d dir" "d \<noteq> []" "last d \<noteq> slash" and p: "c_string p path" "p = [] \<or> hd p \<noteq> slash"
    and j: "c_string j (drop (length d + 1) stack)" and fits: "length d + length j + length p + 2 \<le> length stack" "length d + length j + 3 \<le> length stack"
  shows "\<exists>full. open_path stack dir path = Some full \<and> c_string (d @ slash # j @ p) full"
  by (rule open_path_joins [OF assms])

text \<open>
  \<^verbatim>\<open>dup2\<close> of a descriptor to itself closes its file first: with the last reference the file is freed, and
  then used.
\<close>

lemma sys_dup2_same_descriptor:
  assumes "refs_ok s" and "fd_get fd s = Some f" "f \<noteq> 0" and "handles s f = 1"
  shows "sys_dup2 fd fd s = None"
proof (rule ccontr)
  assume "sys_dup2 fd fd s \<noteq> None"
  then obtain r t where t: "sys_dup2 fd fd s = Some (r, t)" by auto
  have i: "unat fd < 32" by (rule fd_get_some [OF refs_okD(1) [OF assms(1)] assms(2,3)])
  then have nn: "\<not> (sint fd < 0 \<or> int MAX_FDS \<le> sint fd)" using fd_range by blast
  obtain u v where u: "(if f \<noteq> 0 then map_option snd (file_close f s) else Some s) = Some u" "set_fd (unat fd) f u = Some v" "files v f \<noteq> None"
    using t assms(2,3) nn by (auto simp: sys_dup2_def bind_eq_Some_conv)
  note D = dup2_drop [OF assms(1) i assms(2) u(1)]
  have "files u f = None" using D(5) assms(3,4) by simp
  moreover have "table_ok u" using refs_okD(1) [OF assms(1)] D(1) by (simp add: table_ok_def cur_def)
  then have "files v f = files u f" using set_fd_some [OF _ i, of u f] u(2) by (metis option.inject)
  ultimately show False using u(3) by simp
qed

section \<open>A system with one open file\<close>

text \<open>The small tree of the file system, and one process: descriptor 3 is the open file, \<^verbatim>\<open>/d\<close> its directory.\<close>

definition some_proc0 :: process where
  "some_proc0 = zero_process\<lparr>pstate := PROC_RUNNING, fds := (replicate 32 0)[3 := 4], cwd := slash # 100 # replicate 254 0\<rparr>"

definition some_kernel :: kernel where
  "some_kernel = vfs.extend some_vfs \<lparr>procs = \<lparr>pvm = boot_vm, kmem = (\<lambda>_. 0), proc_table = some_proc0 # replicate 63 zero_process,
     current_proc = Some 0, ticks = 0, next_kpid = 1, next_fpid = 1, tss_esp0 = 0,
     cpu_regs = \<lparr>r_esp = 0, r_ebp = 0, r_ebx = 0, r_esi = 0, r_edi = 0, r_eip = 0\<rparr>, table_addr = 0\<rparr>\<rparr>"

lemma some_kernel_sel [simp]:
  "nodes some_kernel = nodes some_vfs" "fresh some_kernel = 5" "vfs_root some_kernel = Some (Ram 1)"
  "files some_kernel = [4 \<mapsto> \<lparr>foffset = 0, fvnode = Ram 3, fflags = 0, fref = 1\<rparr>]"
  "proc_table (procs some_kernel) = some_proc0 # replicate 63 zero_process" "current_proc (procs some_kernel) = Some 0"
  by (simp_all add: some_kernel_def some_vfs_def vfs.extend_def)

lemma some_kernel_proc: "cur some_kernel = Some 0" "cur_proc some_kernel = Some some_proc0"
  by (simp_all add: cur_def cur_proc_def current_def MAX_PROCS_def)

lemma zero_fds: "f \<noteq> 0 \<Longrightarrow> count_list (concat (replicate n (replicate 32 0))) f = 0"
  by (simp add: count_list_0_iff)

lemma some_kernel_handles: "f \<noteq> 0 \<Longrightarrow> handles some_kernel f = (if f = 4 then 1 else 0)"
  using count_list_update [of 3 "replicate 32 0" 4 f] zero_fds [of f 63]
  by (simp add: handles_def fd_list_def some_proc0_def zero_process_def MAX_FDS_def map_replicate count_list_0_iff split: if_splits)

lemma some_kernel_ok: "refs_ok some_kernel"
proof -
  have "table_ok some_kernel" by (simp add: table_ok_def some_kernel_proc some_proc0_def zero_process_def MAX_FDS_def)
  moreover have "files_ok some_kernel" by (simp add: files_ok_def)
  moreover have "refs some_kernel f = handles some_kernel f \<and> (files some_kernel f = None \<longleftrightarrow> handles some_kernel f = 0)" if "f \<noteq> 0" for f
    using some_kernel_handles [OF that] by (simp add: refs_def)
  ultimately show ?thesis by (simp add: refs_ok_def)
qed

lemma some_kernel_fd: "fd_get 3 some_kernel = Some 4" "fd_get 5 some_kernel = Some 0"
  by (simp_all add: fd_get_def some_kernel_proc some_proc0_def MAX_FDS_def)

lemma some_kernel_dup2: "\<exists>t. sys_dup2 3 5 some_kernel = Some (5, t)"
  by (simp add: sys_dup2_def some_kernel_fd set_fd_def upd_cur_def some_kernel_proc MAX_FDS_def)


theorem sys_dup2_shares_file_witness:
  "\<exists>t. sys_dup2 3 5 some_kernel = Some (5, t) \<and> fd_get 3 t = Some 4 \<and> fd_get 5 t = Some 4"
proof -
  obtain t where t: "sys_dup2 3 5 some_kernel = Some (5, t)" using some_kernel_dup2 by blast
  from sys_dup2_shares_file [OF some_kernel_ok _ _ some_kernel_fd(1) _ t] t show ?thesis by simp
qed

theorem syscall_bad_descriptor_witness:
  "\<exists>w. syscall_dispatch Some [] (\<lambda>p. [1]) \<lparr>r_eax = SYS_READ, a_ebx = 5, a_ecx = 0, a_edx = 1\<rparr> some_kernel
    = Some (Some \<lparr>r_eax = - EBADF, a_ebx = 5, a_ecx = 0, a_edx = 1\<rparr>, w, some_kernel)"
  using syscall_bad_descriptor [of "\<lparr>r_eax = SYS_READ, a_ebx = 5, a_ecx = 0, a_edx = 1\<rparr>" some_kernel Some "[]" "\<lambda>p. [1]"]
  by (simp add: some_kernel_fd) blast

theorem open_path_keeps_stack_witness:
  "\<exists>full. open_path [0, 0, 0, 120, 0, 0, 0, 0, 0, 0] [slash, 100, 0] [102, 0] = Some full \<and> c_string [slash, 100, slash, 120, 102] full"
  using open_path_keeps_stack [of "[slash, 100]" "[slash, 100, 0]" "[102]" "[102, 0]" "[120]" "[0, 0, 0, 120, 0, 0, 0, 0, 0, 0]"]
  by (simp add: c_string_def)

lemma some_kernel_open:
  "\<exists>f u full. open_path (take VFS_PATH_LEN (replicate 256 0)) (cwd some_proc0) [102, 0] = Some full
     \<and> file_open (Some full) 0 some_kernel = Some (f, u) \<and> f \<noteq> 0"
proof -
  have zeros: "replicate n (0 :: u8) = 0 # replicate (n - 1) 0" if "0 < n" for n using that by (cases n) simp_all
  have "c_string [] (drop (length [slash, 100 :: u8] + 1) (replicate 256 0))" using zeros [of 253] by (simp add: c_string_def)
  moreover have "c_string [slash, 100] (cwd some_proc0)" using zeros [of 254] by (simp add: c_string_def some_proc0_def)
  moreover have "c_string [102] [102, 0]" by (simp add: c_string_def)
  ultimately obtain full where full: "open_path (replicate 256 0) (cwd some_proc0) [102, 0] = Some full" "c_string [slash, 100, slash, 102] full"
    using open_path_joins [of "[slash, 100]" "cwd some_proc0" "[102]" "[102, 0]" "[]" "replicate 256 0"] by auto
  have "vfs_lookup (Some full) some_kernel = Some (Some (Ram 3))"
    using lookup_some [OF small_tree(1) _ _ full(2), of some_kernel 1] small_resolve(2) [of some_kernel]
    by (simp add: some_vfs_nodes components_def)
  then have "\<exists>f u. file_open (Some full) 0 some_kernel = Some (f, u) \<and> f \<noteq> 0"
    by (simp add: file_open_def vnode_at_def some_vfs_nodes new_addr_def Let_def)
  with full(1) show ?thesis by (auto simp: VFS_PATH_LEN_def)
qed

theorem sys_open_lowest_descriptor_witness:
  "\<exists>r t. sys_open (replicate 256 0) [102, 0] 0 some_kernel = Some (r, t) \<and> r = 0"
proof -
  obtain f u full where f: "open_path (take VFS_PATH_LEN (replicate 256 0)) (cwd some_proc0) [102, 0] = Some full"
    "file_open (Some full) 0 some_kernel = Some (f, u)" "f \<noteq> 0" using some_kernel_open by blast
  have "fds some_proc0 ! 0 = 0" by (simp add: some_proc0_def)
  then have ex: "(\<exists>i<32. fds some_proc0 ! i = 0) = True" by (metis zero_less_numeral)
  from sys_open_lowest_descriptor [OF some_kernel_ok some_kernel_proc(2) f]
  obtain r t where r: "sys_open (replicate 256 0) [102, 0] 0 some_kernel = Some (r, t)" "\<forall>j<unat r. fds some_proc0 ! j \<noteq> 0"
    unfolding ex if_True by blast
  with \<open>fds some_proc0 ! 0 = 0\<close> have "unat r = 0" by (metis gr0I)
  then have "r = 0" by (simp add: unat_eq_zero)
  with r(1) show ?thesis by blast
qed

end
