(* ===== verification/Stdio.thy ===== *)
theory Stdio
  imports Syscall Heap
begin

text \<open>
  The part of \<^verbatim>\<open>libc/libc.c\<close> that works on the system: printing, the file calls a program in the kernel
  uses (they do the work of the system calls themselves), memory and processes. A local buffer that
  is filled before it is read is an array of zeros.
\<close>

unbundle bit_operations_syntax

section \<open>Printing\<close>

text \<open>The variable arguments are those of \<^verbatim>\<open>vsnprintf\<close>.\<close>

definition snprintf :: "bytestr \<Rightarrow> u32 \<Rightarrow> bytestr \<Rightarrow> vararg list \<Rightarrow> (u32 \<times> bytestr) option" where
  "snprintf buf sz fmt ap = vsnprintf buf sz fmt ap"

fun kputs_both :: "bytestr \<Rightarrow> 'a vfs_scheme \<Rightarrow> 'a vfs_scheme option" where
  "kputs_both [] s = None"
| "kputs_both (c # str) s =
     (if c = 0 then Some s else do { t \<leftarrow> tty_putchar c (console s); kputs_both str (s\<lparr>console := t\<rparr>) })"

definition kprintf :: "bytestr \<Rightarrow> vararg list \<Rightarrow> 'a vfs_scheme \<Rightarrow> 'a vfs_scheme option" where
  "kprintf fmt ap s = do { (_, buf) \<leftarrow> vsnprintf (replicate 512 0) 512 fmt ap; kputs_both buf s }"

definition printf :: "bytestr \<Rightarrow> vararg list \<Rightarrow> 'a kernel_scheme \<Rightarrow> (u32 \<times> 'a kernel_scheme) option" where
  "printf fmt ap s = do {
     (n, buf) \<leftarrow> vsnprintf (replicate 512 0) 512 fmt ap;
     f \<leftarrow> (if current_proc (procs s) = None then Some 0 else map_option (\<lambda>p. fds p ! 1) (cur_proc s));
     s \<leftarrow> (if f \<noteq> 0 then map_option snd (file_write f buf n s) else Some s);
     Some (n, s)
   }"

section \<open>Files\<close>

definition libc_open :: "bytestr \<Rightarrow> u32 \<Rightarrow> 'a kernel_scheme \<Rightarrow> (u32 \<times> 'a kernel_scheme) option" where
  "libc_open path flags s = do {
     (f, s) \<leftarrow> file_open (Some path) flags s;
     if f = 0 then Some (- 1, s)
     else do {
       p \<leftarrow> cur_proc s;
       case List.find (\<lambda>i. fds p ! i = 0) [0..<MAX_FDS] of
         Some i \<Rightarrow> do { s \<leftarrow> set_fd i f s; Some (of_nat i, s) }
       | None \<Rightarrow> do { (_, s) \<leftarrow> file_close f s; Some (- 1, s) } }
   }"

text \<open>\<^verbatim>\<open>fd < 0 || fd >= MAX_FDS || !current_proc->fds[fd]\<close> is the address 0.\<close>

definition fd_file :: "u32 \<Rightarrow> 'a kernel_scheme \<Rightarrow> u32 option" where
  "fd_file fd s =
     (if sint fd < 0 \<or> int MAX_FDS \<le> sint fd then Some 0 else map_option (\<lambda>p. fds p ! unat fd) (cur_proc s))"

definition libc_close :: "u32 \<Rightarrow> 'a kernel_scheme \<Rightarrow> (u32 \<times> 'a kernel_scheme) option" where
  "libc_close fd s = do {
     f \<leftarrow> fd_file fd s;
     if f = 0 then Some (- 1, s)
     else do { (_, s) \<leftarrow> file_close f s; s \<leftarrow> set_fd (unat fd) 0 s; Some (0, s) }
   }"

definition libc_read :: "u32 \<Rightarrow> bytestr \<Rightarrow> u32 \<Rightarrow> 'a kernel_scheme \<Rightarrow> (u32 \<times> bytestr \<times> 'a kernel_scheme) option" where
  "libc_read fd buf n s = do { f \<leftarrow> fd_file fd s; if f = 0 then Some (- 1, buf, s) else file_read f buf n s }"

definition libc_write :: "u32 \<Rightarrow> bytestr \<Rightarrow> u32 \<Rightarrow> 'a kernel_scheme \<Rightarrow> (u32 \<times> 'a kernel_scheme) option" where
  "libc_write fd buf n s = do { f \<leftarrow> fd_file fd s; if f = 0 then Some (- 1, s) else file_write f buf n s }"

section \<open>Memory and processes\<close>

definition malloc :: "u32 \<Rightarrow> heap \<Rightarrow> (u32 \<times> heap) option" where "malloc n h = kmalloc n h"
definition free :: "u32 \<Rightarrow> heap \<Rightarrow> heap option" where "free p h = kfree p h"
definition realloc :: "u32 \<Rightarrow> u32 \<Rightarrow> heap \<Rightarrow> (u32 \<times> heap) option" where "realloc p n h = krealloc p n h"

definition libc_exit :: "u32 \<Rightarrow> 'a kernel_scheme \<Rightarrow> 'a kernel_scheme option" where
  "libc_exit code s = map_option (\<lambda>p. s\<lparr>procs := p\<rparr>) (proc_exit code (procs s))"

definition getpid :: "'a kernel_scheme \<Rightarrow> u32 option" where
  "getpid s = map_option pid (cur_proc s)"

definition sleep :: "u32 \<Rightarrow> 'a kernel_scheme \<Rightarrow> 'a kernel_scheme option" where
  "sleep secs s = map_option (\<lambda>p. s\<lparr>procs := p\<rparr>) (proc_sleep (secs * 1000) (procs s))"

end
