(* ===== verification/Shell.thy ===== *)
theory Shell
  imports Stdio
begin

text \<open>
  The shell, \<^verbatim>\<open>userland/sh.c\<close>: splitting a line into arguments, the built-in commands, the table they
  are found in and the loop that reads, parses and runs. An argument is the part of the line it
  points to. The shell is a program in the kernel: it calls the file system, the terminal and the
  process functions directly. A local buffer that is filled before it is read is an array of zeros.
\<close>

unbundle bit_operations_syntax

definition MAX_ARGS :: nat where "MAX_ARGS = 32"
definition MAX_LINE :: nat where "MAX_LINE = 512"
definition MAX_PATH :: nat where "MAX_PATH = 256"

text \<open>A string literal of the source.\<close>

abbreviation lit :: "string \<Rightarrow> bytestr" where
  "lit t \<equiv> map of_char t @ [0]"

abbreviation line_lit :: "string \<Rightarrow> bytestr" where
  "line_lit t \<equiv> map of_char t @ [10, 0]"

section \<open>Splitting a line into arguments\<close>

definition blank_char :: "u8 \<Rightarrow> bool" where
  "blank_char c \<longleftrightarrow> isspace (ucast c)"

text \<open>\<^verbatim>\<open>while (*p && ...) p++\<close>, from offset \<open>p\<close> of the line.\<close>

function skip_while :: "(u8 \<Rightarrow> bool) \<Rightarrow> bytestr \<Rightarrow> nat \<Rightarrow> nat option" where
  "skip_while P line p =
     (if length line \<le> p then None
      else if line ! p \<noteq> 0 \<and> P (line ! p) then skip_while P line (p + 1) else Some p)"
  by pat_completeness auto
termination by (relation "measure (\<lambda>(_, line, p). length line - p)") auto

declare skip_while.simps [simp del]

text \<open>The loop of \<^verbatim>\<open>parse_args\<close>: the line with the ends of the arguments set to 0, and their offsets.\<close>

function parse_loop :: "bytestr \<Rightarrow> nat \<Rightarrow> nat list \<Rightarrow> (bytestr \<times> nat list) option" where
  "parse_loop line p argv =
     (if length line \<le> p then None
      else if line ! p = 0 then Some (line, argv)
      else (case skip_while blank_char line p of None \<Rightarrow> None
        | Some p \<Rightarrow>
            if line ! p = 0 then Some (line, argv)
            else if MAX_ARGS - 1 \<le> length argv + 1 then Some (line, argv @ [p])
            else (case skip_while (\<lambda>c. \<not> blank_char c) line p of None \<Rightarrow> None
              | Some q \<Rightarrow>
                  if line ! q \<noteq> 0 then parse_loop (line[q := 0]) (q + 1) (argv @ [p])
                  else parse_loop line q (argv @ [p]))))"
  by pat_completeness auto
termination by (relation "measure (\<lambda>(_, _, argv). MAX_ARGS - length argv)") (auto simp: MAX_ARGS_def)

declare parse_loop.simps [simp del]

definition parse_args :: "bytestr \<Rightarrow> (bytestr \<times> nat list) option" where
  "parse_args line = parse_loop line 0 []"

section \<open>Commands\<close>

text \<open>\<^verbatim>\<open>printf\<close> without its result, and \<^verbatim>\<open>tty_puts\<close> on the terminal of the system.\<close>

definition say :: "bytestr \<Rightarrow> vararg list \<Rightarrow> 'a kernel_scheme \<Rightarrow> 'a kernel_scheme option" where
  "say fmt ap s = map_option snd (printf fmt ap s)"

definition puts :: "bytestr \<Rightarrow> 'a vfs_scheme \<Rightarrow> 'a vfs_scheme option" where
  "puts str s = map_option (\<lambda>t. s\<lparr>console := t\<rparr>) (tty_puts str (console s))"

definition putchar :: "u8 \<Rightarrow> 'a vfs_scheme \<Rightarrow> 'a vfs_scheme option" where
  "putchar c s = map_option (\<lambda>t. s\<lparr>console := t\<rparr>) (tty_putchar c (console s))"

type_synonym 'a command = "bytestr list \<Rightarrow> 'a kernel_scheme \<Rightarrow> (u32 \<times> 'a kernel_scheme) option"

partial_function (option) cat_stdin :: "'a kernel_scheme \<Rightarrow> 'a kernel_scheme option" where
  "cat_stdin s = do {
     (n, buf, s) \<leftarrow> libc_read 0 (replicate 256 0) 255 s;
     if 0 < sint n then do {
       buf \<leftarrow> buf_set (unat n) 0 buf;
       (_, s) \<leftarrow> libc_write 1 buf n s;
       cat_stdin s
     } else Some s
   }"

partial_function (option) cat_file :: "u32 \<Rightarrow> 'a kernel_scheme \<Rightarrow> 'a kernel_scheme option" where
  "cat_file fd s = do {
     (n, buf, s) \<leftarrow> libc_read fd (replicate 512 0) 512 s;
     if 0 < sint n then do { (_, s) \<leftarrow> libc_write 1 buf n s; cat_file fd s } else Some s
   }"

fun cat_args :: "bytestr list \<Rightarrow> 'a kernel_scheme \<Rightarrow> 'a kernel_scheme option" where
  "cat_args [] s = Some s"
| "cat_args (a # as) s = do {
     (fd, s) \<leftarrow> libc_open a 0 s;
     s \<leftarrow> (if sint fd < 0 then say (line_lit ''cat: %s: No such file'') [VStr (Some a)] s
           else do { s \<leftarrow> cat_file fd s; map_option snd (libc_close fd s) });
     cat_args as s }"

definition cmd_cat :: "'a command" where
  "cmd_cat argv s = map_option (Pair 0) (if length argv < 2 then cat_stdin s else cat_args (tl argv) s)"

text \<open>\<^verbatim>\<open>if (p[strlen(p)-1] != '/') strcat(p, "/")\<close>\<close>

definition slash_end :: "bytestr \<Rightarrow> bytestr option" where
  "slash_end p = do {
     n \<leftarrow> strlen p;
     if n = 0 then None else if p ! (n - 1) \<noteq> slash then strcat p [slash, 0] else Some p
   }"

definition is_dir :: "vptr option \<Rightarrow> 'a vfs_scheme \<Rightarrow> bool option" where
  "is_dir node s = (case node of None \<Rightarrow> Some False | Some v \<Rightarrow> map_option (\<lambda>n. vtype n = VFS_DIR) (vnode_at v s))"

partial_function (option) ls_loop :: "u32 \<Rightarrow> bytestr \<Rightarrow> u32 \<Rightarrow> bytestr \<Rightarrow> 'a kernel_scheme \<Rightarrow> 'a kernel_scheme option" where
  "ls_loop f path idx name s = do {
     (r, name) \<leftarrow> file_readdir f idx name s;
     if r = 0 then do {
       full \<leftarrow> strcpy (replicate MAX_PATH 0) path;
       full \<leftarrow> slash_end full;
       full \<leftarrow> strcat full name;
       node \<leftarrow> vfs_lookup (Some full) s;
       d \<leftarrow> is_dir node s;
       s \<leftarrow> (if d then say ([27] @ map of_char ''[1;34m%s/'' @ [27] @ lit ''[0m  '') [VStr (Some name)] s
             else say (lit ''%s  '') [VStr (Some name)] s);
       ls_loop f path (idx + 1) name s
     } else Some s
   }"

definition cmd_ls :: "'a command" where
  "cmd_ls argv s = do {
     p \<leftarrow> cur_proc s;
     let path = (if 2 \<le> length argv then argv ! 1 else cwd p);
     dir \<leftarrow> vfs_lookup (Some path) s;
     if dir = None then do { s \<leftarrow> say (line_lit ''ls: %s: No such directory'') [VStr (Some path)] s; Some (1, s) }
     else do {
       d \<leftarrow> is_dir dir s;
       if \<not> d then do { s \<leftarrow> say (line_lit ''ls: %s: Not a directory'') [VStr (Some path)] s; Some (1, s) }
       else do {
         (f, s) \<leftarrow> file_open (Some path) 0 s;
         if f = 0 then do { s \<leftarrow> say (line_lit ''ls: %s: Cannot open'') [VStr (Some path)] s; Some (1, s) }
         else do {
           s \<leftarrow> ls_loop f path 0 (replicate VFS_NAME_LEN 0) s;
           s \<leftarrow> putchar 10 s;
           (_, s) \<leftarrow> file_close f s;
           Some (0, s) } } }
   }"

definition cmd_pwd :: "'a command" where
  "cmd_pwd argv s = do { p \<leftarrow> cur_proc s; s \<leftarrow> say (line_lit ''%s'') [VStr (Some (cwd p))] s; Some (0, s) }"

text \<open>Removing the slash at the end of a path that is not only a slash.\<close>

definition strip_slash :: "bytestr \<Rightarrow> bytestr option" where
  "strip_slash dir = do {
     len \<leftarrow> strlen dir;
     if 1 < len \<and> dir ! (len - 1) = slash then buf_set (len - 1) 0 dir else Some dir
   }"

definition cmd_cd :: "'a command" where
  "cmd_cd argv s = do {
     let path = (if 2 \<le> length argv then argv ! 1 else [slash, 0]);
     node \<leftarrow> vfs_lookup (Some path) s;
     d \<leftarrow> is_dir node s;
     if \<not> d then do { s \<leftarrow> say (line_lit ''cd: %s: No such directory'') [VStr (Some path)] s; Some (1, s) }
     else do {
       p \<leftarrow> cur_proc s;
       c \<leftarrow> (case path of [] \<Rightarrow> None | c # _ \<Rightarrow> Some c);
       dir \<leftarrow> (if c = slash then strncpy (cwd p) path 255
               else do { dir \<leftarrow> slash_end (cwd p); strcat dir path });
       dir \<leftarrow> strip_slash dir;
       s \<leftarrow> upd_cur (\<lambda>p. p\<lparr>cwd := dir\<rparr>) s;
       Some (0, s) }
   }"

text \<open>The parent of a path and the name in it, as \<^verbatim>\<open>mkdir\<close> and \<^verbatim>\<open>rm\<close> take them.\<close>

definition parent_of :: "bytestr \<Rightarrow> bytestr \<Rightarrow> (bytestr \<times> bytestr) option" where
  "parent_of dir path = do {
     sl \<leftarrow> strrchr path (ucast slash);
     case sl of
       None \<Rightarrow> do { pp \<leftarrow> strcpy (replicate MAX_PATH 0) dir; Some (pp, path) }
     | Some plen \<Rightarrow> do {
         pp \<leftarrow> memcpy (replicate MAX_PATH 0) path plen;
         pp \<leftarrow> buf_set plen 0 pp;
         pp \<leftarrow> (if plen = 0 then strcpy pp [slash, 0] else Some pp);
         Some (pp, drop (plen + 1) path) }
   }"

fun mkdir_args :: "bytestr list \<Rightarrow> 'a kernel_scheme \<Rightarrow> 'a kernel_scheme option" where
  "mkdir_args [] s = Some s"
| "mkdir_args (path # as) s = do {
     p \<leftarrow> cur_proc s;
     (pp, name) \<leftarrow> parent_of (cwd p) path;
     parent \<leftarrow> vfs_lookup (Some pp) s;
     s \<leftarrow> (case parent of
             Some (Ram a) \<Rightarrow> map_option snd (ramfs_create a name VFS_DIR s)
           | _ \<Rightarrow> say (line_lit ''mkdir: %s: Cannot create'') [VStr (Some path)] s);
     mkdir_args as s }"

definition cmd_mkdir :: "'a command" where
  "cmd_mkdir argv s =
     (if length argv < 2 then do { s \<leftarrow> say (line_lit ''mkdir: missing operand'') [] s; Some (1, s) }
      else map_option (Pair 0) (mkdir_args (tl argv) s))"

fun rm_args :: "bytestr list \<Rightarrow> 'a kernel_scheme \<Rightarrow> 'a kernel_scheme option" where
  "rm_args [] s = Some s"
| "rm_args (path # as) s = do {
     p \<leftarrow> cur_proc s;
     (pp, name) \<leftarrow> parent_of (cwd p) path;
     parent \<leftarrow> vfs_lookup (Some pp) s;
     s \<leftarrow> (case parent of
             Some (Ram a) \<Rightarrow> do {
               (r, s) \<leftarrow> ramfs_unlink a name s;
               if sint r < 0 then say (line_lit ''rm: %s: Cannot remove'') [VStr (Some path)] s else Some s }
           | _ \<Rightarrow> say (line_lit ''rm: %s: No such file'') [VStr (Some path)] s);
     rm_args as s }"

definition cmd_rm :: "'a command" where
  "cmd_rm argv s =
     (if length argv < 2 then do { s \<leftarrow> say (line_lit ''rm: missing operand'') [] s; Some (1, s) }
      else map_option (Pair 0) (rm_args (tl argv) s))"

fun echo_args :: "bool \<Rightarrow> bytestr list \<Rightarrow> 'a vfs_scheme \<Rightarrow> 'a vfs_scheme option" where
  "echo_args first [] s = Some s"
| "echo_args first (a # as) s = do {
     s \<leftarrow> (if first then Some s else putchar 32 s);
     s \<leftarrow> puts a s;
     echo_args False as s }"

definition cmd_echo :: "'a command" where
  "cmd_echo argv s = do { s \<leftarrow> echo_args True (tl argv) s; s \<leftarrow> putchar 10 s; Some (0, s) }"

definition cmd_uname :: "'a command" where
  "cmd_uname argv s = do { s \<leftarrow> say (line_lit ''MyOS 1.0.0 x86 2024'') [] s; Some (0, s) }"

definition state_str :: "proc_state \<Rightarrow> bytestr" where
  "state_str x = (case x of PROC_RUNNING \<Rightarrow> lit ''RUN  '' | PROC_READY \<Rightarrow> lit ''READY'' | PROC_BLOCKED \<Rightarrow> lit ''BLOCK''
     | PROC_ZOMBIE \<Rightarrow> lit ''ZOMBI'' | PROC_SLEEPING \<Rightarrow> lit ''SLEEP'' | _ \<Rightarrow> lit ''?'')"

definition cmd_ps :: "'a command" where
  "cmd_ps argv s = do {
     s \<leftarrow> say (line_lit ''  PID  PPID  STATE   NAME'') [] s;
     s \<leftarrow> say (line_lit ''--------------------------------'') [] s;
     s \<leftarrow> for_range 0 MAX_PROCS (\<lambda>i s.
            let p = proc_at (procs s) i in
            if pstate p = PROC_UNUSED then Some s
            else say (line_lit ''  %3d  %4d  %s  %s'')
                   [VWord (pid p), VWord (ppid p), VStr (Some (state_str (pstate p))), VStr (Some (pname p))] s) s;
     Some (0, s)
   }"

fun puts_all :: "bytestr list \<Rightarrow> 'a vfs_scheme \<Rightarrow> 'a vfs_scheme option" where
  "puts_all [] s = Some s"
| "puts_all (l # ls) s = do { s \<leftarrow> puts l s; puts_all ls s }"

text \<open>The help text; its Japanese is in UTF-8.\<close>

definition help_lines :: "bytestr list" where
  "help_lines =
    [map of_char ''MyOS Shell '' @ [227, 130, 179, 227, 131, 158, 227, 131, 179, 227, 131, 137, 228, 184, 128,
       232, 166, 167, 58, 10, 0],
     map of_char ''  cat [file...]   - '' @ [227, 131, 149, 227, 130, 161, 227, 130, 164, 227, 131, 171, 229,
       134, 133, 229, 174, 185, 227, 130, 146, 232, 161, 168, 231, 164, 186, 10, 0],
     map of_char ''  cd [dir]        - '' @ [227, 131, 135, 227, 130, 163, 227, 131, 172, 227, 130, 175, 227,
       131, 136, 227, 131, 170, 231, 167, 187, 229, 139, 149, 10, 0],
     map of_char ''  echo [args...]  - '' @ [227, 131, 134, 227, 130, 173, 227, 130, 185, 227, 131, 136, 232,
       161, 168, 231, 164, 186, 10, 0],
     map of_char ''  exit [code]     - '' @ [227, 130, 183, 227, 130, 167, 227, 131, 171, 231, 181, 130, 228,
       186, 134, 10, 0],
     map of_char ''  help            - '' @ [227, 129, 147, 227, 129, 174, 227, 131, 152, 227, 131, 171, 227,
       131, 151, 10, 0],
     map of_char ''  ls [dir]        - '' @ [227, 131, 135, 227, 130, 163, 227, 131, 172, 227, 130, 175, 227,
       131, 136, 227, 131, 170, 228, 184, 128, 232, 166, 167, 10, 0],
     map of_char ''  mkdir <dir>     - '' @ [227, 131, 135, 227, 130, 163, 227, 131, 172, 227, 130, 175, 227,
       131, 136, 227, 131, 170, 228, 189, 156, 230, 136, 144, 10, 0],
     map of_char ''  ps              - '' @ [227, 131, 151, 227, 131, 173, 227, 130, 187, 227, 130, 185, 228,
       184, 128, 232, 166, 167, 10, 0],
     map of_char ''  pwd             - '' @ [231, 143, 190, 229, 156, 168, 227, 129, 174, 227, 131, 135, 227,
       130, 163, 227, 131, 172, 227, 130, 175, 227, 131, 136, 227, 131, 170, 10, 0],
     map of_char ''  rm <file>       - '' @ [227, 131, 149, 227, 130, 161, 227, 130, 164, 227, 131, 171, 229,
       137, 138, 233, 153, 164, 10, 0],
     map of_char ''  sleep <secs>    - '' @ [230, 140, 135, 229, 174, 154, 231, 167, 146, 227, 130, 185, 227,
       131, 170, 227, 131, 188, 227, 131, 151, 10, 0],
     map of_char ''  uname           - OS'' @ [230, 131, 133, 229, 160, 177, 10, 0],
     map of_char ''  write <file>    - '' @ [227, 131, 134, 227, 130, 173, 227, 130, 185, 227, 131, 136, 227,
       130, 146, 227, 131, 149, 227, 130, 161, 227, 130, 164, 227, 131, 171, 227, 129, 171, 230, 155, 184,
       227, 129, 143, 10, 0]]"

definition cmd_help :: "'a command" where
  "cmd_help argv s = do { s \<leftarrow> puts_all help_lines s; Some (0, s) }"

definition cmd_sleep :: "'a command" where
  "cmd_sleep argv s =
     (if length argv < 2 then do { s \<leftarrow> say (line_lit ''sleep: missing operand'') [] s; Some (1, s) }
      else do { (secs, _) \<leftarrow> scan_int 0 (argv ! 1); s \<leftarrow> sleep (of_int secs) s; Some (0, s) })"

text \<open>The text of \<^verbatim>\<open>write\<close>: its arguments, or the lines typed up to an empty one.\<close>

fun join_args :: "bool \<Rightarrow> bytestr list \<Rightarrow> bytestr \<Rightarrow> bytestr option" where
  "join_args first [] buf = Some buf"
| "join_args first (a # as) buf = do {
     buf \<leftarrow> (if first then Some buf else strcat buf (lit '' ''));
     buf \<leftarrow> strcat buf a;
     join_args False as buf }"

partial_function (option) write_lines :: "bytestr \<Rightarrow> bytestr \<Rightarrow> tty \<Rightarrow> (bytestr \<times> tty) option" where
  "write_lines buf line t = do {
     (n, line, t) \<leftarrow> tty_readline line 256 t;
     if n < 0 then Some (buf, t)
     else do {
       len \<leftarrow> strlen line;
       if len = 0 then Some (buf, t)
       else do { buf \<leftarrow> strcat buf line; buf \<leftarrow> strcat buf [10, 0]; write_lines buf line t } }
   }"

definition cmd_write :: "'a command" where
  "cmd_write argv s =
     (if length argv < 2 then do { s \<leftarrow> say (line_lit ''write: usage: write <file> <text>'') [] s; Some (1, s) }
      else do {
        buf \<leftarrow> join_args True (drop 2 argv) (replicate MAX_LINE 0);
        (buf, s) \<leftarrow> (if length argv = 2
                    then do {
                      s \<leftarrow> puts (line_lit ''Input text (empty line to end):'') s;
                      (buf, t) \<leftarrow> write_lines buf (replicate 256 0) (console s);
                      Some (buf, s\<lparr>console := t\<rparr>) }
                    else Some (buf, s));
        (fd, s) \<leftarrow> libc_open (argv ! 1) (1 OR O_CREAT OR O_TRUNC) s;
        if sint fd < 0 then do { s \<leftarrow> say (line_lit ''write: %s: Cannot open'') [VStr (Some (argv ! 1))] s; Some (1, s) }
        else do {
          n \<leftarrow> strlen buf;
          (_, s) \<leftarrow> libc_write fd buf (of_nat n) s;
          (_, s) \<leftarrow> libc_close fd s;
          Some (0, s) } })"

section \<open>The loop\<close>

definition commands :: "(bytestr \<times> 'a command) list" where
  "commands = [(lit ''cat'', cmd_cat), (lit ''cd'', cmd_cd), (lit ''echo'', cmd_echo), (lit ''help'', cmd_help),
     (lit ''ls'', cmd_ls), (lit ''mkdir'', cmd_mkdir), (lit ''ps'', cmd_ps), (lit ''pwd'', cmd_pwd), (lit ''rm'', cmd_rm),
     (lit ''sleep'', cmd_sleep), (lit ''uname'', cmd_uname), (lit ''write'', cmd_write)]"

fun run_command :: "(bytestr \<times> 'a command) list \<Rightarrow> bytestr list \<Rightarrow> 'a kernel_scheme \<Rightarrow> 'a kernel_scheme option" where
  "run_command [] argv s = say (line_lit ''sh: %s: command not found'') [VStr (Some (argv ! 0))] s"
| "run_command ((name, f) # cs) argv s = do {
     d \<leftarrow> strcmp (argv ! 0) name;
     if d = 0 then map_option snd (f argv s) else run_command cs argv s }"

text \<open>
  One round of the loop. The result says whether the shell goes on: it does not after \<^verbatim>\<open>exit\<close>, nor for
  now when a command has given the CPU to another process.
\<close>

definition shell_round :: "'a kernel_scheme \<Rightarrow> (bool \<times> 'a kernel_scheme) option" where
  "shell_round s = do {
     p \<leftarrow> cur_proc s;
     s \<leftarrow> say ([27] @ map of_char ''[1;32mroot@myos'' @ [27] @ map of_char ''[0m:'' @ [27] @ map of_char ''[1;34m%s'' @ [27] @ lit ''[0m$ '')
            [VStr (Some (cwd p))] s;
     (n, line, t) \<leftarrow> tty_readline (replicate MAX_LINE 0) 512 (console s);
     let s = s\<lparr>console := t\<rparr>;
     if n \<le> 0 then Some (True, s)
     else do {
       (line, offs) \<leftarrow> parse_args line;
       let argv = map (\<lambda>k. drop k line) offs;
       if argv = [] then Some (True, s)
       else do {
         e \<leftarrow> strcmp (argv ! 0) (lit ''exit'');
         if e = 0 then do {
           (code, _) \<leftarrow> (if 2 \<le> length argv then scan_int 0 (argv ! 1) else Some (0, []));
           s \<leftarrow> say (line_lit ''Goodbye!'') [] s;
           s \<leftarrow> libc_exit (of_int code) s;
           Some (False, s) }
         else do {
           u \<leftarrow> run_command commands argv s;
           Some (current_proc (procs u) = current_proc (procs s), u) } } }
   }"

definition banner :: "bytestr list" where
  "banner =
    [[10, 0],
     map of_char ''  ___  ___      ___  ___ '' @ [10, 0],
     [32, 124, 92, 32, 32, 92, 124, 92, 32, 32, 92] @ map of_char ''    /  /|/  /|'' @ [10, 0],
     [32, 92, 32, 92, 32, 32, 92, 32, 92, 32, 32, 92] @ map of_char ''  /  / /  / /'' @ [10, 0],
     [32, 32, 92, 32, 92, 95, 95, 92, 32, 92, 95, 95, 92] @ map of_char ''/  / /  / / '' @ [10, 0],
     [32, 32, 32, 92] @ map of_char ''|__|'' @ [92] @ map of_char ''|__|'' @ [92, 95, 95,
       92] @ map of_char ''/__/ /  '' @ [10, 0],
     map of_char ''             '' @ [92] @ map of_char ''|___|__|/   '' @ [10, 0],
     [10, 0],
     
       map of_char '' MyOS Shell v1.0 - type '' @ [39] @ map of_char ''help'' @ [39] @ map of_char '' for commands'' @ [10,
       10, 0]]"

partial_function (option) shell_loop :: "'a kernel_scheme \<Rightarrow> 'a kernel_scheme option" where
  "shell_loop s = do { (on, s) \<leftarrow> shell_round s; if on then shell_loop s else Some s }"

definition shell_main :: "'a kernel_scheme \<Rightarrow> 'a kernel_scheme option" where
  "shell_main s = do { s \<leftarrow> puts_all banner s; shell_loop s }"

section \<open>The words of a line\<close>

text \<open>The specification of splitting: the words between blanks.\<close>

function words :: "bytestr \<Rightarrow> bytestr list" where
  "words s = (case dropWhile blank_char s of [] \<Rightarrow> []
     | c # t \<Rightarrow> takeWhile (\<lambda>c. \<not> blank_char c) (c # t) # words (dropWhile (\<lambda>c. \<not> blank_char c) (c # t)))"
  by pat_completeness auto
termination
proof (relation "measure length")
  fix s c t assume "dropWhile blank_char s = c # t"
  then have "\<not> blank_char c" and "length (c # t) \<le> length s"
    using hd_dropWhile [of blank_char s] length_dropWhile_le [of blank_char s] by auto
  moreover have "length (dropWhile (\<lambda>c. \<not> blank_char c) t) \<le> length t" by (rule length_dropWhile_le)
  ultimately show "(dropWhile (\<lambda>c. \<not> blank_char c) (c # t), s) \<in> measure length" by simp
qed simp

declare words.simps [simp del]

lemma blank_0 [simp]: "\<not> blank_char 0" by (simp add: blank_char_def isspace_def)

lemma skip_while_c:
  "c_string (a @ b) (drop p line) \<Longrightarrow> \<forall>c\<in>set a. P c \<Longrightarrow> b = [] \<or> \<not> P (hd b) \<Longrightarrow> skip_while P line p = Some (p + length a)"
proof (induction a arbitrary: p)
  case Nil
  then have "p < length line" by (cases "p < length line") (auto simp: c_string_def)
  with Nil show ?case by (cases b) (auto simp: skip_while.simps [of P line p] c_string_def Cons_nth_drop_Suc [symmetric])
next
  case (Cons x a)
  then have "p < length line" by (cases "p < length line") auto
  then have "drop p line = line ! p # drop (Suc p) line" by (simp add: Cons_nth_drop_Suc)
  with Cons.prems Cons.IH [of "Suc p"] \<open>p < length line\<close> show ?case
    by (simp add: skip_while.simps [of P line p])
qed

lemma c_string_bound: "c_string s (drop p line) \<Longrightarrow> p + length s < length line"
  by (cases "p < length line") (auto simp: c_string_def dest!: arg_cong [where f = length])

lemma c_string_append: "c_string (a @ b) (drop p line) \<Longrightarrow> c_string b (drop (p + length a) line)"
  by (auto simp: c_string_def add.commute [of p] simp flip: drop_drop)

lemma words_Nil: "dropWhile blank_char s = [] \<Longrightarrow> words s = []"
  by (subst words.simps) (simp del: dropWhile_eq_Nil_conv)

lemma words_Cons: "dropWhile blank_char s = r \<Longrightarrow> r \<noteq> [] \<Longrightarrow>
    words s = takeWhile (\<lambda>c. \<not> blank_char c) r # words (dropWhile (\<lambda>c. \<not> blank_char c) r)"
  by (subst words.simps) (cases r, simp_all)

lemma dropWhile_head: "dropWhile P s = [] \<or> \<not> P (hd (dropWhile P s))"
  by (induction s) auto

lemma words_blank: "blank_char d \<Longrightarrow> words (d # v) = words v"
  by (simp add: words.simps [of "d # v"] words.simps [of v])

lemma c_string_next:
  assumes "c_string (d # v) (drop q line)"
  shows "c_string v (drop (q + 1) (line[q := 0]))"
proof -
  have "drop (q + 1) (line[q := 0]) = drop (q + 1) line" by simp
  also have "\<dots> = tl (drop q line)" by (simp add: drop_Suc tl_drop)
  finally show ?thesis using assms by auto
qed

lemma c_string_nth: "c_string s (drop p line) \<Longrightarrow> line ! p = (case s of [] \<Rightarrow> 0 | c # _ \<Rightarrow> c)"
  by (cases "p < length line") (auto simp: Cons_nth_drop_Suc [symmetric] split: list.splits)

lemma c_string_same_prefix:
  assumes "c_string (w @ d # v) (drop p line)" "take (p + length w + 1) line' = take (p + length w + 1) (line[p + length w := 0])"
    "length line' = length line"
  shows "c_string w (drop p line')"
proof -
  have "take (length w + 1) (drop p line') = take (length w + 1) (drop p (line[p + length w := 0]))"
    using assms(2) by (simp add: take_drop ac_simps)
  also have "\<dots> = w @ [0]"
    using assms(1) by (auto simp: c_string_def drop_update_swap)
  finally have "drop p line' = w @ 0 # drop (length w + 1) (drop p line')"
    by (metis append.assoc append_Cons append_Nil append_take_drop_id)
  then show ?thesis using assms(1) by (auto simp: c_string_def)
qed

text \<open>What the loop has done from offset \<open>p\<close> on, where the rest of the line was the text \<open>s\<close>.\<close>

definition line_splits :: "bytestr \<Rightarrow> nat \<Rightarrow> nat \<Rightarrow> bytestr \<Rightarrow> bytestr \<Rightarrow> nat list \<Rightarrow> bool" where
  "line_splits s p room line line' offs \<longleftrightarrow>
     length offs = min (length (words s)) room \<and> length line' = length line \<and> take p line' = take p line \<and>
     (\<forall>k<length offs. k + 1 < room \<longrightarrow> p \<le> offs ! k \<and> c_string (words s ! k) (drop (offs ! k) line'))"

lemma splits_step:
  assumes "c_string (w @ d # v) (drop p' line)" "blank_char d" "words s = w # words (d # v)" "p \<le> p'"
    and rest: "line_splits v (p' + length w + 1) room (line[p' + length w := 0]) line' offs"
  shows "line_splits s p (Suc room) line line' (p' # offs)"
proof -
  have pre: "take (p' + length w + 1) line' = take (p' + length w + 1) (line[p' + length w := 0])" and "length line' = length line"
    using rest by (simp_all add: line_splits_def)
  then have w: "c_string w (drop p' line')" by (intro c_string_same_prefix [OF assms(1)])
  have "take p line' = take p (take (p' + length w + 1) line')" using assms(4) by (simp add: min_absorb1)
  also have "\<dots> = take p line" using assms(4) by (subst pre) (simp add: min_absorb1)
  finally have same: "take p line' = take p line" .
  have ws: "words s = w # words v" using assms(2,3) by (simp add: words_blank)
  show ?thesis unfolding line_splits_def
  proof (intro conjI allI impI)
    fix k assume k: "k < length (p' # offs)" "k + 1 < Suc room"
    show "c_string (words s ! k) (drop ((p' # offs) ! k) line')"
      using k w rest by (cases k) (auto simp: ws line_splits_def)
    show "p \<le> (p' # offs) ! k" using k rest assms(4)
      by (cases k) (auto simp: line_splits_def intro: le_trans [of p "Suc (p' + length w)"])
  qed (use rest same in \<open>auto simp: line_splits_def ws\<close>)
qed

lemma parse_loop_words:
  assumes "c_string s (drop p line)" "length argv < 31"
  shows "\<exists>line' offs. parse_loop line p argv = Some (line', argv @ offs) \<and> line_splits s p (31 - length argv) line line' offs"
  using assms
proof (induction line p argv arbitrary: s rule: parse_loop.induct)
  case (1 line p argv)
  note IH = "1.IH" and s = "1.prems"(1) and room = "1.prems"(2)
  define a where "a = takeWhile blank_char s"
  define r where "r = dropWhile blank_char s"
  have ar: "s = a @ r" "\<forall>c\<in>set a. blank_char c" "r = [] \<or> \<not> blank_char (hd r)"
    using dropWhile_head [of blank_char s] by (auto simp: a_def r_def dest: set_takeWhileD)
  have p: "p < length line" using c_string_bound [OF s] by simp
  have p': "skip_while blank_char line p = Some (p + length a)"
    by (rule skip_while_c [OF _ ar(2,3)]) (use s ar(1) in simp)
  have r: "c_string r (drop (p + length a) line)"
    by (rule c_string_append) (use s ar(1) in simp)
  show ?case
  proof (cases r)
    case Nil
    then have "words s = []" by (intro words_Nil) (simp only: flip: r_def)
    moreover have "parse_loop line p argv = Some (line, argv)"
      using p p' c_string_nth [OF r] Nil by (simp add: parse_loop.simps)
    ultimately show ?thesis by (auto simp: line_splits_def)
  next
    case (Cons c t)
    define w where "w = takeWhile (\<lambda>c. \<not> blank_char c) r"
    define u where "u = dropWhile (\<lambda>c. \<not> blank_char c) r"
    have wu: "r = w @ u" "\<forall>c\<in>set w. \<not> blank_char c" "u = [] \<or> blank_char (hd u)"
      using dropWhile_head [of "\<lambda>c. \<not> blank_char c" r] by (auto simp: w_def u_def dest: set_takeWhileD)
    have ws: "words s = w # words u"
      unfolding w_def u_def by (rule words_Cons) (use Cons in \<open>simp_all flip: r_def\<close>)
    have nz: "line ! p \<noteq> 0" "line ! (p + length a) \<noteq> 0"
      using c_string_nth [OF r] c_string_nth [OF s] r s Cons by (auto simp: ar(1) split: list.splits)
    show ?thesis
    proof (cases "30 \<le> length argv")
      case True
      then have "parse_loop line p argv = Some (line, argv @ [p + length a])"
        using p p' nz by (simp add: parse_loop.simps MAX_ARGS_def)
      with True room ws show ?thesis by (auto simp: line_splits_def)
    next
      case False
      define q where "q = p + length a + length w"
      have q: "skip_while (\<lambda>c. \<not> blank_char c) line (p + length a) = Some q"
        unfolding q_def by (rule skip_while_c [OF _ wu(2)]) (use r wu in auto)
      have u: "c_string u (drop q line)"
        unfolding q_def by (rule c_string_append) (use r wu(1) in simp)
      show ?thesis
      proof (cases u)
        case Nil
        then have "parse_loop line p argv = Some (line, argv @ [p + length a])"
          using False p p' nz q c_string_nth [OF u] c_string_bound [OF u]
          by (simp add: parse_loop.simps [of line p] parse_loop.simps [of line q] MAX_ARGS_def)
        moreover have "words u = []" using Nil by (simp add: words_Nil)
        ultimately show ?thesis using ws r wu(1) Nil False by (auto simp: line_splits_def)
      next
        case (Cons d v)
        then have d: "line ! q \<noteq> 0" "line ! q = d" "blank_char d" using c_string_nth [OF u] u wu(3) by auto
        have loop: "parse_loop line p argv = parse_loop (line[q := 0]) (q + 1) (argv @ [p + length a])"
          using False p p' nz q d by (simp add: parse_loop.simps [of line p] MAX_ARGS_def)
        have "c_string v (drop (q + 1) (line[q := 0]))" using u Cons by (intro c_string_next) simp
        with IH [OF _ _ p' _ _ q] p nz False d have "\<exists>line' offs. parse_loop (line[q := 0]) (q + 1) (argv @ [p + length a])
            = Some (line', (argv @ [p + length a]) @ offs) \<and> line_splits v (q + 1) (30 - length argv) (line[q := 0]) line' offs"
          by (simp add: MAX_ARGS_def)
        then obtain line' offs where res: "parse_loop line p argv = Some (line', argv @ (p + length a) # offs)"
          "line_splits v (q + 1) (30 - length argv) (line[q := 0]) line' offs" by (auto simp: loop)
        have room': "31 - length argv = Suc (30 - length argv)" using False by simp
        have "line_splits s p (31 - length argv) line line' ((p + length a) # offs)"
          using splits_step [where w = w and d = d and v = v and p' = "p + length a" and line = line and s = s and p = p
              and room = "30 - length argv" and line' = line' and offs = offs] r wu(1) ws res(2) d(3) Cons False
          by (simp add: q_def room')
        with res(1) show ?thesis by blast
      qed
    qed
  qed
qed


section \<open>Showing a file\<close>

text \<open>
  The descriptor \<open>fd\<close> of the running process is the file \<open>f\<close> in ramfs, its standard output the open
  terminal \<open>g\<close>.
\<close>

definition reads_file :: "u32 \<Rightarrow> u32 \<Rightarrow> file_t \<Rightarrow> u32 \<Rightarrow> ramfs_node \<Rightarrow> 'a kernel_scheme \<Rightarrow> bool" where
  "reads_file fd f h a n s \<longleftrightarrow> fd_file fd s = Some f \<and> f \<noteq> 0 \<and> files s f = Some h \<and> fvnode h = Ram a
     \<and> nodes s a = Some n \<and> rtype n = VFS_FILE \<and> file_ok n \<and> unat (rsize n) < 2147483648 \<and> foffset h \<le> rsize n"

definition writes_tty :: "u32 \<Rightarrow> file_t \<Rightarrow> 'a kernel_scheme \<Rightarrow> bool" where
  "writes_tty g hg s \<longleftrightarrow> fd_file 1 s = Some g \<and> g \<noteq> 0 \<and> files s g = Some hg \<and> fvnode hg = Tty \<and> status s AND 0x20 \<noteq> 0"

definition printable :: "bytestr \<Rightarrow> bool" where
  "printable xs \<longleftrightarrow> 9 \<notin> set xs"

lemma tty_write_displays:
  assumes "n \<le> length b" "printable (take n b)" "lsr AND 0x20 \<noteq> 0" "displays s T"
  shows "\<exists>t. tty_write_loop lsr n b s = Some t \<and> displays t (fold type_char (take n b) T)"
  using assms
proof (induction lsr n b s arbitrary: T rule: tty_write_loop.induct)
  case (3 lsr n c b s)
  obtain ls row col where T: "T = (ls, row, col)" by (cases T) auto
  obtain t where t: "tty_putchar c s = Some t" "displays t (type_char c T)"
    unfolding T by (rule putchar_displays [of s ls row col c]) (use "3.prems" T in \<open>auto simp: printable_def\<close>)
  have t': "serial_putchar lsr c t = Some (serial_write c t)" "displays (serial_write c t) (type_char c T)"
    using "3.prems"(3) t(2) by (auto simp: serial_putchar_def serial_write_def displays_def split: prod.splits)
  from "3.IH" [OF t(1) t'(1) _ _ "3.prems"(3) t'(2)] "3.prems"(1,2) t t'(1)
  show ?case by (auto simp: printable_def)
qed simp_all

lemma add_off_small:
  assumes "unat x + unat y < 2147483648"
  shows "add_off x y = Some (x + y)"
proof -
  have "- 2147483648 \<le> int (unat x) + int (unat y) \<and> int (unat x) + int (unat y) < 2147483648" using assms by linarith
  then show ?thesis using assms unfolding add_off_def in_int_def by (simp only: sint_small if_True simp_thms)
qed

lemma sint_pos: "unat n < 2147483648 \<Longrightarrow> n \<noteq> 0 \<Longrightarrow> 0 < sint n" for n :: u32
  using sint_small [of n] unat_gt_0 [of n] by linarith

lemma fd_file_upd [simp]:
  "fd_file fd (s\<lparr>files := F\<rparr>) = fd_file fd s" "fd_file fd (s\<lparr>console := c\<rparr>) = fd_file fd s"
  by (simp_all add: fd_file_def cur_proc_def cur_def)

lemma write_tty:
  assumes "writes_tty g hg s" "displays (console s) T" "unat n \<le> length b" "printable (take (unat n) b)"
    and "unat (foffset hg) + unat n < 2147483648" "n \<noteq> 0"
  shows "\<exists>c. libc_write 1 b n s = Some (n, s\<lparr>console := c, files := (files s)(g \<mapsto> hg\<lparr>foffset := foffset hg + n\<rparr>)\<rparr>)
    \<and> displays c (fold type_char (take (unat n) b) T)"
proof -
  obtain c where c: "tty_write_loop (status s) (unat n) b (console s) = Some c" "displays c (fold type_char (take (unat n) b) T)"
    using tty_write_displays [OF assms(3,4) _ assms(2)] assms(1) by (auto simp: writes_tty_def)
  have "0 < sint n" using assms(5,6) by (simp add: sint_pos)
  then show ?thesis
    using assms(1) c add_off_small [OF assms(5)]
    by (auto simp: libc_write_def file_write_def writes_tty_def vnode_at_def vnode_write_def tty_vfs_write_def advance_def)
qed

lemma cat_round:
  assumes r: "reads_file fd f h a n s" and w: "writes_tty g hg s" and "f \<noteq> g" and d: "displays (console s) T"
  defines "rest \<equiv> drop (unat (foffset h)) (content n)"
  defines "k \<equiv> of_nat (min 512 (length rest))"
  assumes p: "printable rest" "unat (foffset hg) + length rest < 2147483648"
  shows "if rest = [] then cat_file fd s = Some s
    else \<exists>c. cat_file fd s = cat_file fd (s\<lparr>console := c,
        files := (files s)(f \<mapsto> h\<lparr>foffset := foffset h + k\<rparr>, g \<mapsto> hg\<lparr>foffset := foffset hg + k\<rparr>)\<rparr>)
      \<and> displays c (fold type_char (take 512 rest) T)"
proof -
  note R = r [unfolded reads_file_def]
  have len: "length (content n) = unat (rsize n)" using R by (simp add: content_length)
  have rl: "length rest = unat (rsize n) - unat (foffset h)" by (simp add: rest_def len)
  have uk: "unat k = min 512 (length rest)" by (simp add: k_def unat_of_nat)
  have u512: "unat (512 :: u32) = 512" by simp
  have rd: "ramfs_read a (foffset h) 512 s = Some (k, take 512 rest)"
    using ramfs_read_some [of s a n "foffset h" 512, unfolded u512] R by (simp add: k_def rest_def min.commute)
  show ?thesis
  proof (cases "rest = []")
    case True
    then have "k = 0" by (simp add: k_def)
    with True rd R show ?thesis
      by (subst cat_file.simps) (simp add: libc_read_def file_read_def vnode_at_def vnode_read_def advance_def)
  next
    case False
    define s1 where "s1 = s\<lparr>files := (files s)(f \<mapsto> h\<lparr>foffset := foffset h + k\<rparr>)\<rparr>"
    have k: "k \<noteq> 0" "unat (foffset h) + unat k < 2147483648" "unat (foffset hg) + unat k < 2147483648"
    proof -
      have "0 < unat k" using False by (simp add: uk)
      then show "k \<noteq> 0" by auto
    qed (use uk R p(2) rl in \<open>auto simp: word_le_nat_alt\<close>)
    have pos: "0 < sint k" by (rule sint_pos) (use k in simp_all)
    define buf where "buf = take 512 rest @ drop (length (take 512 rest)) (replicate 512 (0 :: u8))"
    have read: "libc_read fd (replicate 512 0) 512 s = Some (k, buf, s1)"
      using rd R pos add_off_small [OF k(2)]
      by (simp add: libc_read_def file_read_def vnode_at_def vnode_read_def advance_def s1_def buf_def)
    have buf: "unat k \<le> length buf" "take (unat k) buf = take 512 rest" by (simp_all add: uk buf_def min_def)
    have "writes_tty g hg s1" "displays (console s1) T"
      using w d \<open>f \<noteq> g\<close> by (simp_all add: writes_tty_def s1_def)
    from write_tty [OF this buf(1) _ k(3,1)] p(1) obtain c where c:
      "libc_write 1 buf k s1 = Some (k, s1\<lparr>console := c, files := (files s1)(g \<mapsto> hg\<lparr>foffset := foffset hg + k\<rparr>)\<rparr>)"
      "displays c (fold type_char (take 512 rest) T)"
      by (auto simp: buf(2) printable_def dest: in_set_takeD)
    have "cat_file fd s = cat_file fd (s1\<lparr>console := c, files := (files s1)(g \<mapsto> hg\<lparr>foffset := foffset hg + k\<rparr>)\<rparr>)"
      by (subst cat_file.simps) (simp add: read pos c(1))
    with c(2) False show ?thesis by (auto simp: s1_def)
  qed
qed

text \<open>The rest of a file is shown in rounds of 512 bytes, so many that the offset comes to the end.\<close>

lemma type_rest: "fold type_char (drop k xs) (fold type_char (take k xs) T) = fold type_char xs T"
  by (metis append_take_drop_id comp_apply fold_append)

lemma cat_file_shows:
  assumes "reads_file fd f h a n s" "writes_tty g hg s" "f \<noteq> g" "displays (console s) T"
    and "printable (drop (unat (foffset h)) (content n))"
    and "unat (foffset hg) + length (drop (unat (foffset h)) (content n)) < 2147483648"
  shows "\<exists>c. cat_file fd s = Some (s\<lparr>console := c,
        files := (files s)(f \<mapsto> h\<lparr>foffset := rsize n\<rparr>, g \<mapsto> hg\<lparr>foffset := foffset hg + (rsize n - foffset h)\<rparr>)\<rparr>)
      \<and> displays c (fold type_char (drop (unat (foffset h)) (content n)) T)"
  using assms
proof (induction "unat (rsize n) - unat (foffset h)" arbitrary: s h hg T rule: less_induct)
  case less
  note R = less.prems(1) [unfolded reads_file_def] and W = less.prems(2) [unfolded writes_tty_def]
  define rest where "rest = drop (unat (foffset h)) (content n)"
  have len: "length (content n) = unat (rsize n)" using R by (simp add: content_length)
  have rl: "length rest = unat (rsize n) - unat (foffset h)" by (simp add: rest_def len)
  note round = cat_round [OF less.prems, folded rest_def]
  show ?case
  proof (cases "rest = []")
    case True
    then have "foffset h = rsize n" using rl R by (simp add: word_le_nat_alt word_unat_eq_iff)
    then have "s = s\<lparr>console := console s, files := (files s)(f \<mapsto> h\<lparr>foffset := rsize n\<rparr>,
        g \<mapsto> hg\<lparr>foffset := foffset hg + (rsize n - foffset h)\<rparr>)\<rparr>"
      using R W by (simp add: fun_upd_idem)
    with round less.prems(4) True show ?thesis
      unfolding rest_def [symmetric] by (intro exI [of _ "console s"]) simp
  next
    case False
    define k :: u32 where "k = of_nat (min 512 (length rest))"
    define h' hg' where "h' = h\<lparr>foffset := foffset h + k\<rparr>" and "hg' = hg\<lparr>foffset := foffset hg + k\<rparr>"
    obtain c where c: "cat_file fd s = cat_file fd (s\<lparr>console := c, files := (files s)(f \<mapsto> h', g \<mapsto> hg')\<rparr>)"
      "displays c (fold type_char (take 512 rest) T)"
      using round False by (auto simp: h'_def hg'_def k_def)
    define s' where "s' = s\<lparr>console := c, files := (files s)(f \<mapsto> h', g \<mapsto> hg')\<rparr>"
    have uk: "unat k = min 512 (length rest)" by (simp add: k_def unat_of_nat)
    have pos: "unat (foffset h + k) = unat (foffset h) + unat k" "unat (foffset hg + k) = unat (foffset hg) + unat k"
    proof -
      have "unat (foffset h) + unat k < 4294967296" "unat (foffset hg) + unat k < 4294967296"
        using uk rl R less.prems(6) len by (auto simp: word_le_nat_alt)
      then show "unat (foffset h + k) = unat (foffset h) + unat k" "unat (foffset hg + k) = unat (foffset hg) + unat k"
        by (simp_all add: unat_add_small)
    qed
    have rest': "drop (unat (foffset h')) (content n) = drop 512 rest"
      using len rl by (auto simp: h'_def pos uk rest_def min_def add.commute [of 512])
    have le: "foffset h' \<le> rsize n" using R uk rl by (auto simp: h'_def pos word_le_nat_alt)
    have dec: "unat (rsize n) - unat (foffset h') < unat (rsize n) - unat (foffset h)"
    proof -
      have "0 < length rest" using False by simp
      then show ?thesis unfolding rl uk h'_def by (simp add: pos [unfolded uk] rl) 
    qed
    have hyps: "reads_file fd f h' a n s'" "writes_tty g hg' s'" "displays (console s') (fold type_char (take 512 rest) T)"
      "printable (drop (unat (foffset h')) (content n))"
      "unat (foffset hg') + length (drop (unat (foffset h')) (content n)) < 2147483648"
      using R W less.prems(3,5,6) c(2) le rest' uk
      by (auto simp: reads_file_def writes_tty_def s'_def h'_def hg'_def printable_def pos
          rest_def [symmetric] dest: in_set_dropD)
    from less.hyps [OF dec hyps(1,2) less.prems(3) hyps(3,4,5)] obtain c' where
      c': "cat_file fd s' = Some (s'\<lparr>console := c',
        files := (files s')(f \<mapsto> h'\<lparr>foffset := rsize n\<rparr>, g \<mapsto> hg'\<lparr>foffset := foffset hg' + (rsize n - foffset h')\<rparr>)\<rparr>)"
      "displays c' (fold type_char (drop 512 rest) (fold type_char (take 512 rest) T))"
      unfolding rest' by blast
    then show ?thesis
      using c(1) less.prems(3) by (auto simp: s'_def h'_def hg'_def type_rest rest_def [symmetric] fun_upd_twist)
  qed
qed

lemma set_fd_procs:
  assumes "table_ok s" "i < 32"
  obtains P where "set_fd i f s = Some (s\<lparr>procs := P\<rparr>)" "table_ok (s\<lparr>procs := P\<rparr>)"
    "cur_proc (s\<lparr>procs := P\<rparr>) = map_option (\<lambda>p. p\<lparr>fds := (fds p)[i := f]\<rparr>) (cur_proc s)"
proof -
  obtain t where t: "set_fd i f s = Some t" "table_ok t"
    "cur_proc t = map_option (\<lambda>p. p\<lparr>fds := (fds p)[i := f]\<rparr>) (cur_proc s)" by (rule set_fd_some [OF assms])
  moreover have "t = s\<lparr>procs := procs t\<rparr>" using t(1) by (auto simp: set_fd_def upd_cur_def)
  ultimately show thesis by (intro that [of "procs t"]) simp_all
qed

definition counted :: "u32 \<Rightarrow> ramfs_node \<Rightarrow> ramfs_node" where
  "counted k n = n\<lparr>rvnode := (rvnode n)\<lparr>ref_count := ref_count (rvnode n) + k\<rparr>\<rparr>"

lemma counted_simps [simp]: "rtype (counted k n) = rtype n" "rsize (counted k n) = rsize n" "content (counted k n) = content n"
  "file_ok (counted k n) = file_ok n"
  by (simp_all add: counted_def content_def file_ok_def split: option.split)

lemma file_open_ram:
  assumes "vfs_lookup (Some path) s = Some (Some (Ram a))" "nodes s a = Some n" "fresh s \<noteq> 0"
  shows "file_open (Some path) 0 s = Some (fresh s, s\<lparr>fresh := fresh s + 1,
    files := (files s)(fresh s \<mapsto> \<lparr>foffset = 0, fvnode = Ram a, fflags = 0, fref = 1\<rparr>), nodes := (nodes s)(a \<mapsto> counted 1 n)\<rparr>)"
  using assms by (simp add: file_open_def vnode_at_def new_addr_def upd_vnode_def upd_node_def counted_def Let_def)

lemma file_close_ram:
  assumes "files s f = Some h" "f \<noteq> 0" "fvnode h = Ram a" "fref h = 1" "nodes s a = Some n"
  shows "file_close f s = Some (0, s\<lparr>nodes := (nodes s)(a \<mapsto> counted (- 1) n), files := (files s)(f := None)\<rparr>)"
  using assms by (simp add: file_close_def vnode_at_def upd_vnode_def upd_node_def counted_def Let_def)

lemma fd_file_some:
  assumes "cur_proc s = Some p" "unat fd < 32"
  shows "fd_file fd s = Some (fds p ! unat fd)"
proof -
  have "\<not> (sint fd < 0 \<or> int MAX_FDS \<le> sint fd)" using assms(2) by (simp only: fd_range)
  with assms(1) show ?thesis unfolding fd_file_def by (simp only: if_False option.map)
qed

lemma cat_opened:
  assumes tab: "table_ok s" and p: "cur_proc s = Some p" "i < 32" "fds p ! i = 0" "\<And>j. j < i \<Longrightarrow> fds p ! j \<noteq> 0"
    and path: "vfs_lookup (Some path) s = Some (Some (Ram a))"
    and n: "nodes s a = Some n" "rtype n = VFS_FILE" "file_ok n" "unat (rsize n) < 2147483648"
    and w: "writes_tty g hg s" "g \<noteq> fresh s" "fresh s \<noteq> 0" and d: "displays (console s) T" "printable (content n)"
    and lim: "unat (foffset hg) + length (content n) < 2147483648"
  shows "\<exists>t. cat_args [path] s = Some t \<and> displays (console t) (fold type_char (content n) T)
    \<and> nodes t = nodes s \<and> cur_proc t = cur_proc s"
proof -
  define f where "f = fresh s"
  define h where "h = \<lparr>foffset = 0, fvnode = Ram a, fflags = 0 :: u32, fref = 1\<rparr>"
  define s1 where "s1 = s\<lparr>fresh := f + 1, files := (files s)(f \<mapsto> h), nodes := (nodes s)(a \<mapsto> counted 1 n)\<rparr>"
  have o: "file_open (Some path) 0 s = Some (f, s1)"
    using file_open_ram [OF path n(1) w(3)] by (simp add: s1_def f_def h_def)
  have s1: "table_ok s1" "cur_proc s1 = Some p"
    using tab p(1) by (simp_all add: s1_def table_ok_def cur_def cur_proc_def)
  obtain P where P: "set_fd i f s1 = Some (s1\<lparr>procs := P\<rparr>)" "table_ok (s1\<lparr>procs := P\<rparr>)"
    "cur_proc (s1\<lparr>procs := P\<rparr>) = Some (p\<lparr>fds := (fds p)[i := f]\<rparr>)"
    by (rule set_fd_procs [OF s1(1) p(2)]) (use s1(2) in simp)
  define s2 where "s2 = s1\<lparr>procs := P\<rparr>"
  have len: "length (fds p) = 32" by (rule table_okD [OF tab]) (use p(1) in simp)
  have ui: "unat (of_nat i :: u32) = i" using p(2) by (simp add: unat_of_nat)
  have s2: "cur_proc s2 = Some (p\<lparr>fds := (fds p)[i := f]\<rparr>)" using P(3) by (simp add: s2_def)
  have g1: "fds p ! 1 = g" "g \<noteq> 0" "files s g = Some hg" "fvnode hg = Tty" "status s AND 0x20 \<noteq> 0"
    using w(1) fd_file_some [OF p(1), of 1] by (simp_all add: writes_tty_def)
  then have "i \<noteq> 1" using p(3) by auto
  have op: "libc_open path 0 s = Some (of_nat i, s2)"
    using o w(3) s1(2) P(1) p(2-4) find_upt_Some_iff [of "\<lambda>i. fds p ! i = 0" MAX_FDS i]
    by (simp add: libc_open_def f_def s2_def MAX_FDS_def)
  have g: "writes_tty g hg s2"
    using fd_file_some [OF s2, of 1] g1 \<open>i \<noteq> 1\<close> w(2) by (simp add: writes_tty_def s2_def s1_def f_def)
  have fd: "fd_file (of_nat i) s2 = Some f" using fd_file_some [OF s2, of "of_nat i"] p(2) ui len by simp
  then have r: "reads_file (of_nat i) f h a (counted 1 n) s2"
    using n w(3) by (simp add: reads_file_def s2_def s1_def h_def f_def word_le_nat_alt)
  define F where "F = (files s2)(f \<mapsto> h\<lparr>foffset := rsize n\<rparr>, g \<mapsto> hg\<lparr>foffset := foffset hg + rsize n\<rparr>)"
  obtain c where c: "cat_file (of_nat i) s2 = Some (s2\<lparr>console := c, files := F\<rparr>)" "displays c (fold type_char (content n) T)"
    using cat_file_shows [OF r g _ _ _ _, of T] w(2) d lim by (auto simp: s2_def s1_def f_def h_def F_def)
  define s3 where "s3 = s2\<lparr>console := c, files := F\<rparr>"
  have "file_close f s3 = Some (0, s3\<lparr>nodes := (nodes s3)(a \<mapsto> counted (- 1) (counted 1 n)), files := (files s3)(f := None)\<rparr>)"
    by (rule file_close_ram [where h = "h\<lparr>foffset := rsize n\<rparr>"])
      (use w(2,3) in \<open>simp_all add: s3_def F_def h_def f_def s2_def s1_def\<close>)
  also have "counted (- 1) (counted 1 n) = n" by (simp add: counted_def)
  also have "(nodes s3)(a \<mapsto> n) = nodes s" using n(1) by (auto simp: s3_def s2_def s1_def)
  finally have close: "file_close f s3 = Some (0, s3\<lparr>nodes := nodes s, files := (files s3)(f := None)\<rparr>)" .
  define s4 where "s4 = s3\<lparr>nodes := nodes s, files := (files s3)(f := None)\<rparr>"
  have s4: "table_ok s4" "cur_proc s4 = cur_proc s2"
    using P(2) by (simp_all add: s4_def s3_def s2_def table_ok_def cur_def cur_proc_def)
  obtain Q where Q: "set_fd i 0 s4 = Some (s4\<lparr>procs := Q\<rparr>)"
    "cur_proc (s4\<lparr>procs := Q\<rparr>) = Some (p\<lparr>fds := (fds p)[i := f, i := 0]\<rparr>)"
    by (rule set_fd_procs [OF s4(1) p(2)]) (use s4(2) s2 in simp)
  have "(fds p)[i := f, i := 0] = fds p" using p(3) list_update_id [of "fds p" i] by simp
  then have same: "cur_proc (s4\<lparr>procs := Q\<rparr>) = cur_proc s" using Q(2) p(1) by simp
  have "libc_close (of_nat i) s3 = Some (0, s4\<lparr>procs := Q\<rparr>)"
    using fd close Q(1) ui w(3) by (simp add: libc_close_def s3_def s4_def f_def)
  moreover have "0 \<le> sint (of_nat i :: u32)" using ui p(2) by (simp add: sint_small)
  ultimately have "cat_args [path] s = Some (s4\<lparr>procs := Q\<rparr>)" using op c(1) by (simp add: s3_def)
  then show ?thesis using same c(2) by (auto simp: s4_def s3_def)
qed


section \<open>Properties\<close>

text \<open>
  C33. \<^verbatim>\<open>parse_args\<close> returns on every C string and splits it at the white space: it finds as many
  arguments as the line has words, but at most 31, and from the place in the line that each argument
  but the 31st points to, the line has been made a C string that is the word. (The 31st is not
  terminated: it runs to the end of the line.)
\<close>

theorem parse_args_words:
  assumes "c_string s line"
  shows "\<exists>line' argv. parse_args line = Some (line', argv) \<and> length line' = length line
    \<and> length argv = min (length (words s)) 31
    \<and> (\<forall>k<length argv. k < 30 \<longrightarrow> c_string (words s ! k) (drop (argv ! k) line'))"
  using parse_loop_words [of s 0 line "[]"] assms by (force simp: parse_args_def line_splits_def)


theorem parse_args_words_witness:
  "\<exists>line' argv. parse_args [32, 99, 100, 32, 9, 47, 0] = Some (line', argv) \<and> length argv = 2
    \<and> c_string [99, 100] (drop (argv ! 0) line') \<and> c_string [47] (drop (argv ! 1) line')"
proof -
  have w: "words [32, 99, 100, 32, 9, 47] = [[99, 100], [47]]"
    by (simp add: words.simps blank_char_def isspace_def)
  show ?thesis
    using parse_args_words [of "[32, 99, 100, 32, 9, 47]" "[32, 99, 100, 32, 9, 47, 0]"]
    by (force simp: w c_string_def)
qed

text \<open>
  A running process whose standard output is the terminal, open at the address 4, and a file \<^verbatim>\<open>f\<close> in the
  root that holds the text \<^verbatim>\<open>hi\<close>.
\<close>

definition hi_file :: ramfs_node where
  "hi_file = (small_node [102] VFS_FILE [])\<lparr>rdata := Some [104, 105], rsize := 2, capacity := 2,
     rvnode := (rvnode (small_node [102] VFS_FILE []))\<lparr>vsize := 2\<rparr>\<rparr>"

definition cat_proc :: process where
  "cat_proc = some_proc0\<lparr>fds := (replicate 32 0)[0 := 4, 1 := 4]\<rparr>"

definition cat_kernel :: kernel where
  "cat_kernel = some_kernel\<lparr>nodes := [1 \<mapsto> small_node [slash] VFS_DIR [3], 3 \<mapsto> hi_file], console := fresh_tty [],
     files := [4 \<mapsto> \<lparr>foffset = 0, fvnode = Tty, fflags = 2, fref = 2\<rparr>],
     procs := (procs some_kernel)\<lparr>proc_table := cat_proc # replicate 63 zero_process\<rparr>\<rparr>"

lemma cat_kernel_sel:
  "nodes cat_kernel a = (if a = 3 then Some hi_file else if a = 1 then Some (small_node [slash] VFS_DIR [3]) else None)"
  "fresh cat_kernel = 5" "vfs_root cat_kernel = Some (Ram 1)" "console cat_kernel = fresh_tty []" "status cat_kernel = 0x20"
  "files cat_kernel 4 = Some \<lparr>foffset = 0, fvnode = Tty, fflags = 2, fref = 2\<rparr>" "cur_proc cat_kernel = Some cat_proc"
  "table_ok cat_kernel"
  by (simp_all add: cat_kernel_def cur_proc_def cur_def current_def table_ok_def MAX_PROCS_def cat_proc_def zero_process_def MAX_FDS_def)
     (simp_all add: some_kernel_def some_vfs_def vfs.extend_def)

lemma hi_file_sel: "rname hi_file = [102, 0]" "rtype hi_file = VFS_FILE" "children hi_file = []" "file_ok hi_file"
  "content hi_file = [104, 105]" "rsize hi_file = 2" "mount_point (rvnode hi_file) = None"
  by (simp_all add: hi_file_def small_node_def file_ok_def content_def)

lemma cat_kernel_lookup: "vfs_lookup (Some [slash, 102, 0]) cat_kernel = Some (Some (Ram 3))"
proof -
  note n = cat_kernel_sel(1) hi_file_sel
  have k: "kids cat_kernel 1 = [3]" by (simp add: kids_def n small_node_def)
  have c: "cname cat_kernel 3 = [102]" "child_ok cat_kernel 3" by (simp_all add: cname_def child_ok_def n small_node_def)
  have d: "ramdir_ok 1 cat_kernel" by (simp add: ramdir_ok_def k c n small_node_def)
  have ty: "VFS_FILE \<noteq> VFS_DIR" by (simp add: VFS_FILE_def VFS_DIR_def)
  have t: "tree_ok cat_kernel" using d ty by (auto simp: tree_ok_def n small_node_def split: if_split_asm)
  have "dir_map 1 cat_kernel [102] = Some 3" by (simp add: dir_map_def k c)
  then have "resolve cat_kernel 1 [[102]] = Some 3"
    by (simp add: resolve_def entry_def through_def n small_node_def)
  then show ?thesis
    using lookup_some [OF t cat_kernel_sel(3), of "[slash, 102]" "[slash, 102, 0]"]
    by (simp add: n c_string_def components_def)
qed


section \<open>cd\<close>

lemma strcat_c:
  assumes "c_string d buf" "c_string x src" "length d + length x < length buf"
  shows "strcat buf src = Some (d @ x @ 0 # drop (length d + length x + 1) buf)"
proof -
  obtain r where r: "buf = d @ 0 # r" using assms(1) by (auto simp: c_string_def)
  then have "strcpy (0 # r) src = Some (x @ 0 # drop (Suc (length x)) (0 # r))" using strcpy_c [OF assms(2)] assms(3) by simp
  then show ?thesis using r strlen_c [OF assms(1)] by (simp add: strcat_def)
qed

lemma cd_relative:
  assumes tab: "table_ok s" "cur_proc s = Some p" and d: "c_string d (cwd p)" "d \<noteq> []" "last d \<noteq> slash"
    and x: "c_string x path" "x \<noteq> []" "hd x \<noteq> slash" "last x \<noteq> slash" and fits: "length d + 1 + length x < length (cwd p)"
    and node: "vfs_lookup (Some path) s = Some (Some v)" "vnode_at v s = Some nd" "vtype nd = VFS_DIR"
  shows "\<exists>t q. cmd_cd [cd, path] s = Some (0, t) \<and> cur_proc t = Some q \<and> c_string (d @ slash # x) (cwd q)"
proof -
  have "c_string [slash] [slash, 0]" by (simp add: c_string_def)
  from strcat_c [OF d(1) this] fits
  have "strcat (cwd p) [slash, 0] = Some ((d @ [slash]) @ 0 # drop (length d + 2) (cwd p))" by simp
  moreover have "(cwd p) ! (length d - 1) = last d" using d(1,2) by (auto simp: c_string_def nth_append last_conv_nth)
  ultimately have slash: "slash_end (cwd p) = Some ((d @ [slash]) @ 0 # drop (length d + 2) (cwd p))"
    using strlen_c [OF d(1)] d(2,3) by (simp add: slash_end_def)
  have "c_string (d @ [slash]) ((d @ [slash]) @ 0 # drop (length d + 2) (cwd p))" using d(1) by (auto simp: c_string_def)
  from strcat_c [OF this x(1)] fits obtain r where
    cat: "strcat ((d @ [slash]) @ 0 # drop (length d + 2) (cwd p)) path = Some ((d @ slash # x) @ 0 # r)" by auto
  have full: "c_string (d @ slash # x) ((d @ slash # x) @ 0 # r)" using d(1) x(1) by (auto simp: c_string_def)
  have "((d @ slash # x) @ 0 # r) ! (length (d @ slash # x) - 1) = last x"
    using x(2) last_conv_nth [of "d @ slash # x"] by (simp add: nth_append)
  then have strip: "strip_slash ((d @ slash # x) @ 0 # r) = Some ((d @ slash # x) @ 0 # r)"
    using strlen_c [OF full] x(4) by (simp add: strip_slash_def)
  have c: "(case path of [] \<Rightarrow> None | c # _ \<Rightarrow> Some c) = Some (hd x)" using x(1,2) by (cases x) auto
  obtain k where k: "cur s = Some k" "k < 64" "length (proc_table (procs s)) = 64"
    by (rule table_okD [OF tab(1)]) blast
  define t where "t = s\<lparr>procs := upd_proc k (\<lambda>p. p\<lparr>cwd := (d @ slash # x) @ 0 # r\<rparr>) (procs s)\<rparr>"
  have "cmd_cd [cd, path] s = Some (0, t)"
    using tab(2) slash cat strip c x(3) node k(1) by (simp add: cmd_cd_def is_dir_def upd_cur_def t_def)
  moreover have "cur_proc t = Some (p\<lparr>cwd := (d @ slash # x) @ 0 # r\<rparr>)"
    using tab(2) k by (simp add: cur_proc_def cur_def current_def t_def upd_proc_def)
  ultimately show ?thesis using full by auto
qed

text \<open>
  \<^verbatim>\<open>cd\<close> of a relative name looks the name up from the root, as \<^verbatim>\<open>vfs_lookup\<close> does, but appends it to the
  working directory: in \<^verbatim>\<open>/d\<close>, \<^verbatim>\<open>cd d\<close> succeeds and leaves the process in \<^verbatim>\<open>/d/d\<close>, which is not there.
\<close>

lemma cd_relative_from_root:
  "\<exists>t q. cmd_cd [[99, 100, 0], [100, 0]] some_kernel = Some (0, t) \<and> cur_proc t = Some q
    \<and> c_string [slash, 100, slash, 100] (cwd q) \<and> resolve some_kernel 1 [[100], [100]] = None"
proof -
  have zeros: "replicate n (0 :: u8) = 0 # replicate (n - 1) 0" if "0 < n" for n using that by (cases n) simp_all
  have d: "c_string [slash, 100] (cwd some_proc0)" using zeros [of 254] by (simp add: c_string_def some_proc0_def)
  have x: "c_string [100] [100, 0]" by (simp add: c_string_def)
  note tree = small_tree [OF some_kernel_sel(1)]
  have v: "vfs_lookup (Some [100, 0]) some_kernel = Some (Some (Ram 2))"
    using lookup_some [OF tree(1) some_kernel_sel(3), of "[100]" "[100, 0]"] small_resolve(1) [OF some_kernel_sel(1)]
    by (simp add: some_vfs_nodes components_def c_string_def)
  have none: "resolve some_kernel 1 [[100], [100]] = None"
    using tree by (simp add: resolve_def entry_def some_vfs_nodes small_node_def dir_map_def kids_def cname_def)
  have "table_ok some_kernel" using some_kernel_ok by (simp add: refs_ok_def)
  moreover have "length (cwd some_proc0) = 256" by (simp add: some_proc0_def)
  ultimately show ?thesis
    using cd_relative [OF _ some_kernel_proc(2) d _ _ x _ _ _ _ v, of "rvnode (small_node [100] VFS_DIR [3])" "[99, 100, 0]"] none
    by (simp add: vnode_at_def some_vfs_nodes small_node_def)
qed

end
