(* ===== verification/Scheduling.thy ===== *)
theory Scheduling
  imports Proc
begin

text \<open>
  What the scheduler and the operations on processes guarantee: the invariant of every state
  reached from \<^verbatim>\<open>proc_init\<close>, round robin and the bound on the time a ready process waits, sleeping,
  exit and wait, the first switch to a new process, the resumption of a suspended one, and fork.
\<close>

section \<open>Starting up\<close>

lemma proc_init_some:
  obtains t nm dir where "proc_init s = Some t" "current_proc t = Some 0"
    "proc_table t = (replicate 64 zero_process)[0 := zero_process\<lparr>pstate := PROC_RUNNING,
       page_dir := kernel_dir (pvm s), pname := nm, cwd := dir\<rparr>]"
    "pvm t = pvm s" "ticks t = ticks s" "table_addr t = table_addr s" "cpu_regs t = cpu_regs s"
    "next_kpid t = next_kpid s" "next_fpid t = next_fpid s"
proof -
  obtain nm dir where L: "kstrcpy (pname zero_process) (cstr ''idle'') = Some nm"
    "kstrcpy (cwd zero_process) (cstr ''/'') = Some dir" using kstrcpy_literals by blast
  define s1 where "s1 = s\<lparr>proc_table := replicate MAX_PROCS zero_process,
      kmem := fold (\<lambda>i. kmemset (kstack s i) 0 8192) [0..<MAX_PROCS] (kmem s)\<rparr>"
  define t where "t = (upd_proc 0 (\<lambda>p. p\<lparr>pname := nm, cwd := dir\<rparr>) (upd_proc 0 (\<lambda>p. p\<lparr>pid := 0, ppid := 0,
      pstate := PROC_RUNNING, page_dir := vmm_get_kernel_directory (pvm s1)\<rparr>) s1))\<lparr>current_proc := Some 0\<rparr>"
  have "pname (zero_process\<lparr>pid := 0, ppid := 0, pstate := PROC_RUNNING, page_dir := d\<rparr>) = pname zero_process"
    "cwd (zero_process\<lparr>pid := 0, ppid := 0, pstate := PROC_RUNNING, page_dir := d\<rparr>) = cwd zero_process" for d
    by simp_all
  then have "proc_init s = Some t"
    using L unfolding proc_init_def t_def s1_def by (simp add: Let_def del: upd_proc_twice)
  then show thesis
    by (rule that [of t dir nm]) (simp_all add: t_def s1_def upd_proc_def zero_process_def
        vmm_get_kernel_directory_def)
qed

lemma init_table:
  assumes "proc_init s = Some t"
  shows "length (proc_table t) = 64" "current_proc t = Some 0" "st t 0 = PROC_RUNNING"
    "\<And>i. 0 < i \<Longrightarrow> i < 64 \<Longrightarrow> proc_at t i = zero_process" "pid (proc_at t 0) = 0"
    "page_dir (proc_at t 0) = kernel_dir (pvm s)"
    "pvm t = pvm s" "ticks t = ticks s" "table_addr t = table_addr s" "cpu_regs t = cpu_regs s"
    "next_kpid t = next_kpid s" "next_fpid t = next_fpid s" "ppid (proc_at t 0) = 0"
  by (rule proc_init_some [of s]; use assms in \<open>simp add: zero_process_def\<close>)+

lemma init_pre:
  assumes "proc_init s = Some t"
  shows "sched_pre t 0" "sched_inv t"
proof -
  note I = init_table [OF assms]
  have "st t i = PROC_RUNNING \<longrightarrow> i = 0" if "i < 64" for i
    using I(4) [of i] that by (cases "i = 0") (auto simp: zero_process_def)
  then show "sched_pre t 0" using I(1-3) by (simp add: sched_pre_def)
  then show "sched_inv t" using I(3) by (auto simp: sched_inv_def)
qed

lemma reachable_inv: "kstep\<^sup>*\<^sup>* s t \<Longrightarrow> sched_inv s \<Longrightarrow> sched_inv t"
  by (induction rule: rtranclp_induct) (auto intro: kstep_inv)

section \<open>Runs of the timer\<close>

primrec ticks_n :: "nat \<Rightarrow> psys \<Rightarrow> psys option" where
  "ticks_n 0 s = Some s"
| "ticks_n (Suc n) s = do { s \<leftarrow> scheduler_tick s; ticks_n n s }"

text \<open>A process that the next tick would find ready.\<close>

definition due :: "psys \<Rightarrow> nat \<Rightarrow> bool" where
  "due s i \<longleftrightarrow> st s i = PROC_READY \<or> st s i = PROC_SLEEPING \<and> sleep_until (proc_at s i) \<le> ticks s + 1"

lemma woken_due: "woken s i = (if due s i then PROC_READY else st s i)"
  by (auto simp: woken_def wake_def due_def)

lemma after_switch_simps:
  "chosen X c = Some n \<Longrightarrow> n \<noteq> c \<Longrightarrow> after_switch X c n = PROC_RUNNING"
  "i \<noteq> c \<Longrightarrow> runs_next X c \<noteq> i \<Longrightarrow> after_switch X c i = X i"
  "runs_next X c = c \<Longrightarrow> after_switch X c i = X i"
  by (auto simp: after_switch_def runs_next_def split: option.splits)

text \<open>How many places process \<open>i\<close> is behind process \<open>c\<close> in the round.\<close>

definition behind :: "nat \<Rightarrow> nat \<Rightarrow> nat" where
  "behind c i = (if c < i then i - c else i + 64 - c)"

lemma behind_props:
  assumes "c < 64" and "i < 64" and "i \<noteq> c"
  shows "1 \<le> behind c i" "behind c i \<le> 63" "(c + behind c i) mod 64 = i"
proof -
  show "1 \<le> behind c i" "behind c i \<le> 63" using assms by (auto simp: behind_def)
  have "c + behind c i = i \<or> c + behind c i = i + 64" using assms by (auto simp: behind_def)
  then show "(c + behind c i) mod 64 = i" using assms(2) by auto
qed

lemma behind_less:
  assumes "c < 64" and "i < 64" and "i \<noteq> c" and "1 \<le> k" and "k < behind c i"
  shows "behind ((c + k) mod 64) i < behind c i" "(c + k) mod 64 \<noteq> i"
proof -
  have "(c + k) mod 64 = c + k \<or> (c + k) mod 64 = c + k - 64 \<and> 64 \<le> c + k"
    using assms(1,2,5) behind_props(2) [OF assms(1-3)] by (cases "c + k < 64") (auto simp: le_mod_geq)
  then show "behind ((c + k) mod 64) i < behind c i" "(c + k) mod 64 \<noteq> i"
    using assms unfolding behind_def by (auto split: if_splits)
qed

lemma ready_moves_up:
  assumes "sched_pre s c" and "i < 64" and "i \<noteq> c" and "st s i = PROC_READY"
  shows "runs_next (woken s) c = i \<or> runs_next (woken s) c \<noteq> i \<and> behind (runs_next (woken s) c) i < behind c i"
proof -
  note P = sched_preD [OF assms(1)]
  note B = behind_props [OF P(3) assms(2,3)]
  have i: "woken s i = PROC_READY" using assms(4) by (simp add: woken_due due_def)
  obtain n where n: "chosen (woken s) c = Some n"
    using chosen_ready [of i "woken s" c] i assms(2) P(3) by blast
  then obtain k where k: "1 \<le> k" "(c + k) mod 64 = n"
    "\<forall>j. 1 \<le> j \<longrightarrow> j < k \<longrightarrow> woken s ((c + j) mod 64) \<noteq> PROC_READY" by (auto simp: chosen_Some)
  have "k \<le> behind c i" using k(3) B i by (metis not_less)
  with k n B behind_less [OF P(3) assms(2,3) k(1)] show ?thesis
    by (cases "k = behind c i") (auto simp: runs_next_def)
qed

lemma ticks_reach:
  assumes "sched_pre s c" and "runnable (st s c)" and "i < 64" and "i \<noteq> c" and "st s i = PROC_READY"
  shows "\<exists>n t. 1 \<le> n \<and> n \<le> behind c i \<and> ticks_n n s = Some t \<and> current_proc t = Some i \<and> st t i = PROC_RUNNING"
  using assms
proof (induction "behind c i" arbitrary: s c rule: less_induct)
  case less
  note P = sched_preD [OF less.prems(1)]
  obtain t where t: "scheduler_tick s = Some t" "sched_inv t" "moved s t (after_switch (woken s) c)"
    "current_proc t = Some (runs_next (woken s) c)"
    by (rule tick_inv [OF less.prems(1)]) blast
  let ?d = "runs_next (woken s) c"
  have st: "st t i = after_switch (woken s) c i" using movedD(1) [OF t(3)] P(1) less.prems(3) by simp
  have w: "woken s i = PROC_READY" using less.prems(5) by (simp add: woken_due due_def)
  from ready_moves_up [OF less.prems(1,3,4,5)] show ?case
  proof
    assume d: "?d = i"
    then have "chosen (woken s) c = Some i" using less.prems(4) by (auto simp: runs_next_def split: option.splits)
    then have "st t i = PROC_RUNNING" using st less.prems(4) by (simp add: after_switch_simps(1))
    with t(1,4) d behind_props(1) [OF P(3) less.prems(3,4)]
    have "1 \<le> (1::nat) \<and> 1 \<le> behind c i \<and> ticks_n 1 s = Some t \<and> current_proc t = Some i \<and> st t i = PROC_RUNNING"
      by simp
    then show ?thesis by blast
  next
    assume d: "?d \<noteq> i \<and> behind ?d i < behind c i"
    obtain c' where c': "sched_pre t c'" "runnable (st t c')" using t(2) by (auto simp: sched_inv_def)
    then have eq: "c' = ?d" using sched_preD(2) t(4) by fastforce
    have "st t i = PROC_READY" using st w d less.prems(4) by (simp add: after_switch_simps(2))
    with less.hyps [of ?d t] d c' eq less.prems(3)
    obtain n u where "1 \<le> n" "n \<le> behind ?d i" "ticks_n n t = Some u" "current_proc u = Some i" "st u i = PROC_RUNNING"
      by auto
    with t(1) d have "1 \<le> Suc n \<and> Suc n \<le> behind c i \<and> ticks_n (Suc n) s = Some u \<and> current_proc u = Some i \<and> st u i = PROC_RUNNING"
      by simp
    then show ?thesis by blast
  qed
qed

text \<open>What a number of ticks leaves as it was.\<close>

lemma ticks_n_some:
  assumes "sched_inv s"
  obtains t X where "ticks_n n s = Some t" "sched_inv t" "moved s t X" "ticks t = ticks s + of_nat n"
    "\<And>i. i < 64 \<Longrightarrow> X i = PROC_ZOMBIE \<longleftrightarrow> st s i = PROC_ZOMBIE"
proof -
  have "\<exists>t X. ticks_n n s = Some t \<and> sched_inv t \<and> moved s t X \<and> ticks t = ticks s + of_nat n
    \<and> (\<forall>i<64. X i = PROC_ZOMBIE \<longleftrightarrow> st s i = PROC_ZOMBIE)"
    using assms
  proof (induction n arbitrary: s)
    case 0
    have "\<exists>v. proc_at s i = proc_at s i\<lparr>pstate := st s i, esp := v\<rparr>" for i
      by (intro exI [of _ "esp (proc_at s i)"]) simp
    then have "moved s s (st s)" by (simp add: moved_def)
    with 0 show ?case by auto
  next
    case (Suc n)
    then obtain c where pre: "sched_pre s c" and run: "runnable (st s c)" by (auto simp: sched_inv_def)
    note P = sched_preD [OF pre]
    obtain t where t: "scheduler_tick s = Some t" "sched_inv t" "moved s t (after_switch (woken s) c)" "ticks t = ticks s + 1"
      by (rule tick_inv [OF pre]) blast
    from Suc.IH [OF t(2)] obtain u X where u: "ticks_n n t = Some u" "sched_inv u" "moved t u X"
      "ticks u = ticks t + of_nat n" "\<And>i. i < 64 \<Longrightarrow> X i = PROC_ZOMBIE \<longleftrightarrow> st t i = PROC_ZOMBIE" by blast
    have z: "st t i = PROC_ZOMBIE \<longleftrightarrow> st s i = PROC_ZOMBIE" if "i < 64" for i
    proof -
      have "st t i = after_switch (woken s) c i" using movedD(1) [OF t(3)] P(1) that by simp
      moreover have "woken s i = PROC_ZOMBIE \<longleftrightarrow> st s i = PROC_ZOMBIE" by (auto simp: woken_due due_def)
      moreover have "chosen (woken s) c = Some i \<Longrightarrow> woken s i = PROC_READY" by (auto simp: chosen_Some)
      ultimately show ?thesis by (auto simp: after_switch_def split: option.split)
    qed
    have "ticks_n (Suc n) s = Some u \<and> sched_inv u \<and> moved s u X \<and> ticks u = ticks s + of_nat (Suc n)
      \<and> (\<forall>i<64. X i = PROC_ZOMBIE \<longleftrightarrow> st s i = PROC_ZOMBIE)"
      using t u z moved_trans [OF t(3) u(3)] by (simp add: add_ac)
    then show ?case by blast
  qed
  with that show thesis by blast
qed

section \<open>Sleeping\<close>

lemma after_switch_cases:
  "after_switch (woken s) c i = st s i \<or> runnable (after_switch (woken s) c i) \<and> (runnable (st s i) \<or> due s i)"
  by (auto simp: after_switch_def woken_due runnable_def due_def chosen_Some split: option.split if_splits)

lemma awake_ticks:
  assumes "sched_inv s" and "i < 64" and "runnable (st s i)"
  shows "\<exists>t. ticks_n n s = Some t \<and> st t i \<noteq> PROC_SLEEPING"
  using assms
proof (induction n arbitrary: s)
  case 0
  then show ?case by (auto simp: runnable_def)
next
  case (Suc n)
  then obtain c where pre: "sched_pre s c" by (auto simp: sched_inv_def)
  obtain t where t: "scheduler_tick s = Some t" "sched_inv t" "moved s t (after_switch (woken s) c)"
    by (rule tick_inv [OF pre]) blast
  have "st t i = after_switch (woken s) c i" using movedD(1) [OF t(3)] Suc.prems(2) sched_preD(1) [OF pre] by simp
  then have "runnable (st t i)" using after_switch_cases [of s c i] Suc.prems(3) by auto
  from Suc.IH [OF t(2) Suc.prems(2) this] t(1) show ?case by simp
qed

lemma sleep_ticks:
  assumes "sched_inv s" and "i < 64" and "st s i = PROC_SLEEPING" and "0 < d"
    and "unat (sleep_until (proc_at s i)) = unat (ticks s) + d"
  shows "\<exists>t. ticks_n n s = Some t \<and> (st t i = PROC_SLEEPING \<longleftrightarrow> n < d)"
  using assms
proof (induction n arbitrary: s d)
  case 0
  then show ?case by simp
next
  case (Suc n)
  then obtain c where pre: "sched_pre s c" by (auto simp: sched_inv_def)
  note P = sched_preD [OF pre]
  obtain t where t: "scheduler_tick s = Some t" "sched_inv t" "moved s t (after_switch (woken s) c)" "ticks t = ticks s + 1"
    by (rule tick_inv [OF pre]) blast
  have at: "st t i = after_switch (woken s) c i" "sleep_until (proc_at t i) = sleep_until (proc_at s i)"
    using movedD(1,4) [OF t(3)] Suc.prems(2) P(1) by simp_all
  have "unat (ticks s) + 1 < 4294967296"
    using Suc.prems(4,5) unat_u32_lt [of "sleep_until (proc_at s i)"] by linarith
  then have u: "unat (ticks s + 1) = unat (ticks s) + 1" by (simp add: unat_add_small)
  have due: "due s i \<longleftrightarrow> d = 1"
    using Suc.prems(3,4,5) u by (auto simp: due_def word_le_nat_alt)
  show ?case
  proof (cases "d = 1")
    case True
    then have "woken s i = PROC_READY" using due by (simp add: woken_due)
    then have "runnable (st t i)" unfolding at(1) after_switch_def by (auto split: option.split)
    from awake_ticks [OF t(2) Suc.prems(2) this, of n] t(1) True show ?thesis by auto
  next
    case False
    have "\<not> runnable (st s i)" using Suc.prems(3) by simp
    then have "st t i = PROC_SLEEPING"
      using after_switch_cases [of s c i] False due Suc.prems(3) at(1) by auto
    moreover have "unat (sleep_until (proc_at t i)) = unat (ticks t) + (d - 1)"
      using Suc.prems(4,5) False at(2) t(4) u by simp
    ultimately obtain v where "ticks_n n t = Some v" "st v i = PROC_SLEEPING \<longleftrightarrow> n < d - 1"
      using Suc.IH [OF t(2) Suc.prems(2), of "d - 1"] False Suc.prems(4) by auto
    with t(1) show ?thesis by auto
  qed
qed

section \<open>Exit and wait\<close>

lemma find_cong_upt: "(\<And>i. i < n \<Longrightarrow> P i = Q i) \<Longrightarrow> List.find P [0..<n] = List.find Q [0..<n]"
  by (intro find_cong) auto

lemma proc_get_cong:
  assumes "\<And>i. i < 64 \<Longrightarrow> pid (proc_at t i) = pid (proc_at s i)"
    and "\<And>i. i < 64 \<Longrightarrow> st t i = PROC_UNUSED \<longleftrightarrow> st s i = PROC_UNUSED"
  shows "proc_get p t = proc_get p s"
  unfolding proc_get_def by (rule find_cong_upt) (use assms in simp)

lemma after_switch_zombie: "after_switch (woken s) c i = PROC_ZOMBIE \<longleftrightarrow> st s i = PROC_ZOMBIE"
  using after_switch_cases [of s c i] by (auto simp: runnable_def due_def)

lemma reap_found:
  assumes "sched_pre s q" and "c < 64" and "st s c = PROC_ZOMBIE" and "ppid (proc_at s c) = pid (proc_at s q)"
    and "w = -1 \<or> w = pid (proc_at s c)"
    and "\<And>i. i < 64 \<Longrightarrow> i \<noteq> c \<Longrightarrow> st s i = PROC_ZOMBIE \<Longrightarrow> ppid (proc_at s i) \<noteq> pid (proc_at s q)"
  shows "proc_wait_round w s = Some (Reaped (pid (proc_at s c)) (exit_code (proc_at s c)),
    upd_proc c (\<lambda>p. p\<lparr>pstate := PROC_UNUSED\<rparr>) s)"
proof -
  let ?Q = "\<lambda>i. st s i = PROC_ZOMBIE \<and> ppid (proc_at s i) = pid (proc_at s q) \<and> (w = -1 \<or> pid (proc_at s i) = w)"
  have "c < MAX_PROCS \<and> ?Q c \<and> (\<forall>j<c. \<not> ?Q j)"
    using assms(2-6) by fastforce
  then have "List.find ?Q [0..<MAX_PROCS] = Some c" unfolding find_upt_Some_iff .
  then show ?thesis using sched_preD(4) [OF assms(1)] by (simp add: proc_wait_round_def)
qed

text \<open>The table when \<^verbatim>\<open>proc_exit\<close> has given up the CPU: the parent is ready, the child a zombie.\<close>

lemma exit_some:
  assumes pre: "sched_pre s c" and "c \<noteq> 0" and run: "runnable (st s c)"
    and q: "proc_get (ppid (proc_at s c)) s = Some q" "st s q = PROC_BLOCKED"
    and dir: "page_dir (proc_at s c) = kernel_dir (pvm s)"
  obtains t where "proc_exit code s = Some t" "sched_inv t" "runnable (st t q)"
    "\<And>i. i < 64 \<Longrightarrow> st t i = PROC_ZOMBIE \<longleftrightarrow> i = c \<or> st s i = PROC_ZOMBIE"
    "\<And>i. i < 64 \<Longrightarrow> pid (proc_at t i) = pid (proc_at s i) \<and> ppid (proc_at t i) = ppid (proc_at s i)"
    "exit_code (proc_at t c) = code"
proof -
  note P = sched_preD [OF pre]
  let ?z = "upd_proc c (\<lambda>p. p\<lparr>pstate := PROC_ZOMBIE, exit_code := code\<rparr>) s"
  let ?s1 = "upd_proc q (\<lambda>p. p\<lparr>pstate := PROC_READY\<rparr>) ?z"
  have qc: "q \<noteq> c" "q < 64" using run q proc_getD(1) [OF q(1)] by auto
  have "proc_get (ppid (proc_at s c)) ?z = proc_get (ppid (proc_at s c)) s"
    by (rule proc_get_cong) (use P(1) run in auto)
  then have wp: "wake_parent c ?z = ?s1"
    using P(1,3) q qc by (simp add: wake_parent_def)
  have pre1: "sched_pre ?s1 c"
    using P(3) assms(2) qc by (intro sched_pre_upd [OF sched_pre_upd [OF pre]]) simp_all
  have st1: "st ?s1 c = PROC_ZOMBIE" "st ?s1 q = PROC_READY" "page_dir (proc_at ?s1 c) = kernel_dir (pvm ?s1)"
    using P(1,3) qc dir by simp_all
  have ex: "proc_exit code s = scheduler_tick ?s1"
    unfolding exit_eq [OF pre] wp using yield_eq [OF pre1] st1 by simp
  obtain t where t: "scheduler_tick ?s1 = Some t" "sched_inv t" "moved ?s1 t (after_switch (woken ?s1) c)"
    by (rule tick_inv [OF pre1]) blast
  have len: "length (proc_table ?s1) = 64" using P(1) by simp
  note M = movedD [OF t(3), unfolded len]
  show thesis
  proof (rule that [of t])
    show "proc_exit code s = Some t" using ex t(1) by simp
    show "sched_inv t" by (rule t(2))
    show "runnable (st t q)"
      unfolding M(1) [OF qc(2)] using after_switch_cases [of ?s1 c q] st1(2) by auto
    show "st t i = PROC_ZOMBIE \<longleftrightarrow> i = c \<or> st s i = PROC_ZOMBIE" if "i < 64" for i
      unfolding M(1) [OF that] after_switch_zombie using that P(1) q(2) qc(1) by auto
    show "pid (proc_at t i) = pid (proc_at s i) \<and> ppid (proc_at t i) = ppid (proc_at s i)" if "i < 64" for i
      unfolding M(2) [OF that] M(3) [OF that] using that P(1) by simp
    show "exit_code (proc_at t c) = code"
      unfolding M(5) [OF P(3)] using P(1,3) qc(1) by simp
  qed
qed

section \<open>The registers across a switch\<close>

lemma pushed_cong:
  "cpu_regs s' = cpu_regs s \<Longrightarrow> kmem s' = kmem s \<Longrightarrow> table_addr s' = table_addr s \<Longrightarrow> pushed p e s' = pushed p e s"
  by (simp add: pushed_def)

lemma tick_switches:
  assumes pre: "sched_pre s c" and t: "scheduler_tick s = Some t" and cur: "current_proc t = Some n" and "n \<noteq> c"
  shows "cpu_regs t = cpu_regs (context_switch c (esp (proc_at s n)) s)"
    and "kmem t = pushed c (esp (proc_at s n)) s" and "n < 64"
    and "\<And>i. i < 64 \<Longrightarrow> esp (proc_at t i) = (if i = c then r_esp (cpu_regs s) - 28 else esp (proc_at s i))"
    and "tss_esp0 t = kernel_stack_top (proc_at s n)" and "cr3 (pvm t) = page_dir (proc_at s n)"
proof -
  note P = sched_preD [OF pre]
  define s1 where "s1 = s\<lparr>ticks := ticks s + 1, proc_table := map (wake (ticks s + 1)) (proc_table s)\<rparr>"
  have run: "runs_next (woken s) c = n" using tickD(3) [OF pre t] cur by simp
  then have ch: "chosen (woken s) c = Some n" using assms(4) by (auto simp: runs_next_def split: option.splits)
  then show n: "n < 64" by (auto simp: chosen_Some)
  have "chosen (st s1) c = chosen (woken s) c"
    by (rule chosen_cong) (simp add: s1_def woken_def P(1))
  then have nr: "next_ready c s1 = Some n" using ch by (simp add: next_ready_chosen)
  define s2 where "s2 = (if st s1 c = PROC_RUNNING then upd_proc c (\<lambda>p. p\<lparr>pstate := PROC_READY\<rparr>) s1 else s1)"
  define s3 where "s3 = upd_proc n (\<lambda>p. p\<lparr>pstate := PROC_RUNNING\<rparr>) s2"
  define s4 where "s4 = s3\<lparr>current_proc := Some n, tss_esp0 := kernel_stack_top (proc_at s3 n),
      pvm := vmm_switch (page_dir (proc_at s3 n)) (pvm s3)\<rparr>"
  have "s\<lparr>ticks := ticks s + 1\<rparr>\<lparr>proc_table := map (wake (ticks (s\<lparr>ticks := ticks s + 1\<rparr>)))
      (proc_table (s\<lparr>ticks := ticks s + 1\<rparr>))\<rparr> = s1" by (simp add: s1_def)
  then have "scheduler_tick s = do { prev \<leftarrow> current s1; case next_ready prev s1 of None \<Rightarrow> Some s1
     | Some nxt \<Rightarrow> Some (if nxt = prev then s1 else switch_to prev nxt s1) }"
    unfolding scheduler_tick_def Let_def by (simp only:)
  moreover have "current s1 = Some c" using P(2,3) by (simp add: s1_def current_def)
  ultimately have "scheduler_tick s = Some (switch_to c n s1)" using nr assms(4) by simp
  then have t': "t = context_switch c (esp (proc_at s4 n)) s4"
    using t by (simp add: switch_to_def Let_def s2_def s3_def s4_def)
  have at1: "esp (proc_at s1 i) = esp (proc_at s i)" "page_dir (proc_at s1 i) = page_dir (proc_at s i)"
    "kernel_stack_top (proc_at s1 i) = kernel_stack_top (proc_at s i)" if "i < 64" for i
    using that P(1) by (simp_all add: s1_def wake_def)
  have len: "length (proc_table s1) = 64" "length (proc_table s4) = 64"
    using P(1) by (simp_all add: s1_def s2_def s3_def s4_def)
  have at4: "esp (proc_at s4 i) = esp (proc_at s i)" "page_dir (proc_at s4 i) = page_dir (proc_at s i)"
    "kernel_stack_top (proc_at s4 i) = kernel_stack_top (proc_at s i)" if "i < 64" for i
    using that len(1) at1 [OF that] by (auto simp: s2_def s3_def s4_def)
  have eq4: "cpu_regs s4 = cpu_regs s" "kmem s4 = kmem s" "table_addr s4 = table_addr s"
    by (simp_all add: s1_def s2_def s3_def s4_def)
  show "kmem t = pushed c (esp (proc_at s n)) s"
    unfolding t' context_switch_eq at4(1) [OF n] by (rule pushed_cong [OF eq4])
  show "cpu_regs t = cpu_regs (context_switch c (esp (proc_at s n)) s)"
    unfolding t' context_switch_regs at4(1) [OF n] pushed_cong [OF eq4] ..
  show "esp (proc_at t i) = (if i = c then r_esp (cpu_regs s) - 28 else esp (proc_at s i))" if "i < 64" for i
    using that len(2) at4(1) [OF that] eq4 P(3) by (simp add: t' context_switch_eq nth_list_update)
  show "tss_esp0 t = kernel_stack_top (proc_at s n)" "cr3 (pvm t) = page_dir (proc_at s n)"
    using at4(2,3) [OF n] by (simp_all add: t' s4_def vmm_switch_def)
qed

lemma kmemcpy_eq:
  assumes "n \<le> 4294967296" and "\<And>i j. i < n \<Longrightarrow> j < n \<Longrightarrow> d + of_nat i \<noteq> s + of_nat j"
  shows "kmemcpy d s n m = (\<lambda>a. if unat (a - d) < n then m (s + (a - d)) else m a)"
  using assms
proof (induction n)
  case 0
  then show ?case by (simp add: kmemcpy_def)
next
  case (Suc n)
  have eq: "c = d + of_nat n \<longleftrightarrow> unat (c - d) = n" for c
  proof
    assume "c = d + of_nat n"
    then show "unat (c - d) = n" using Suc.prems(1) by (simp add: unat_of_nat_small)
  next
    assume "unat (c - d) = n"
    then have "c - d = of_nat n" by (rule u32_eq_of_nat)
    then show "c = d + of_nat n" by (simp add: diff_eq_eq add.commute)
  qed
  have IH: "kmemcpy d s n m = (\<lambda>a. if unat (a - d) < n then m (s + (a - d)) else m a)"
    using Suc.prems by (intro Suc.IH) simp_all
  have "\<not> unat (s + of_nat n - d) < n"
  proof
    assume "unat (s + of_nat n - d) < n"
    moreover have "d + of_nat (unat (s + of_nat n - d)) = s + of_nat n" by simp
    ultimately show False using Suc.prems(2) [of "unat (s + of_nat n - d)" n] by simp
  qed
  moreover have "kmemcpy d s (Suc n) m = (kmemcpy d s n m)(d + of_nat n := kmemcpy d s n m (s + of_nat n))"
    by (simp add: kmemcpy_def)
  ultimately have step: "kmemcpy d s (Suc n) m a
      = (if a = d + of_nat n then m (s + of_nat n) else if unat (a - d) < n then m (s + (a - d)) else m a)" for a
    unfolding IH by simp
  show ?case
  proof (rule ext)
    fix a
    show "kmemcpy d s (Suc n) m a = (if unat (a - d) < Suc n then m (s + (a - d)) else m a)"
    proof (cases "unat (a - d) = n")
      case True
      then have "a = d + of_nat n" using eq by blast
      moreover from this have "s + (a - d) = s + of_nat n" by simp
      ultimately show ?thesis unfolding step [of a] using True by presburger
    next
      case False
      then have "a \<noteq> d + of_nat n" "unat (a - d) < Suc n \<longleftrightarrow> unat (a - d) < n"
        unfolding eq [of a] by (simp_all add: less_Suc_eq)
      then show ?thesis unfolding step [of a] by presburger
    qed
  qed
qed

section \<open>A running system for the witnesses\<close>

abbreviation cold_sys :: psys where
  "cold_sys \<equiv> \<lparr>pvm = boot_vm, kmem = (\<lambda>_. 0), proc_table = [], current_proc = None, ticks = 0, next_kpid = 1,
     next_fpid = 100, tss_esp0 = 0, cpu_regs = \<lparr>r_esp = 0x9000, r_ebp = 1, r_ebx = 2, r_esi = 3, r_edi = 4,
       r_eip = 0x100200\<rparr>, table_addr = 0x120000\<rparr>"

text \<open>Three processes: the idle one and two more, of which the second was made by the first.\<close>

definition some_proc :: "u32 \<Rightarrow> u32 \<Rightarrow> proc_state \<Rightarrow> u32 \<Rightarrow> process" where
  "some_proc p pp x stack = zero_process\<lparr>pid := p, ppid := pp, pstate := x, esp := stack + 8164,
     kernel_stack_top := stack + 8192, page_dir := kernel_dir boot_vm\<rparr>"

definition some_sys :: "proc_state \<Rightarrow> proc_state \<Rightarrow> proc_state \<Rightarrow> nat \<Rightarrow> psys" where
  "some_sys x y z c = cold_sys\<lparr>current_proc := Some c, proc_table :=
     [some_proc 0 0 x (kstack cold_sys 0), some_proc 1 0 y (kstack cold_sys 1), some_proc 2 1 z (kstack cold_sys 2)]
       @ replicate 61 zero_process\<rparr>"

lemma some_proc_sel [simp]:
  "pid (some_proc p q x k) = p" "ppid (some_proc p q x k) = q" "pstate (some_proc p q x k) = x"
  "page_dir (some_proc p q x k) = kernel_dir boot_vm" "esp (some_proc p q x k) = k + 8164"
  "kernel_stack_top (some_proc p q x k) = k + 8192"
  "pstate zero_process = PROC_UNUSED" "pid zero_process = 0" "ppid zero_process = 0"
  by (simp_all add: some_proc_def zero_process_def)

lemma some_sys_sel [simp]:
  "current_proc (some_sys x y z c) = Some c" "pvm (some_sys x y z c) = boot_vm" "ticks (some_sys x y z c) = 0"
  "length (proc_table (some_sys x y z c)) = 64" "table_addr (some_sys x y z c) = 0x120000"
  "cpu_regs (some_sys x y z c) = cpu_regs cold_sys" "kmem (some_sys x y z c) = (\<lambda>_. 0)"
  "kstack (some_sys x y z c) = kstack cold_sys"
  by (simp_all add: some_sys_def kstack_def fun_eq_iff)

lemma some_sys_at:
  "proc_at (some_sys x y z c) 0 = some_proc 0 0 x (kstack cold_sys 0)"
  "proc_at (some_sys x y z c) 1 = some_proc 1 0 y (kstack cold_sys 1)"
  "proc_at (some_sys x y z c) (Suc 0) = some_proc 1 0 y (kstack cold_sys 1)"
  "proc_at (some_sys x y z c) 2 = some_proc 2 1 z (kstack cold_sys 2)"
  "3 \<le> i \<Longrightarrow> i < 64 \<Longrightarrow> proc_at (some_sys x y z c) i = zero_process"
  by (simp_all add: some_sys_def nth_append nth_Cons')

lemma upto64_cases:
  assumes "i < (64 :: nat)"
  obtains "i = 0" | "i = 1" | "i = 2" | "3 \<le> i" "i < 64"
  using assms by linarith

lemma some_sys_inv:
  assumes "runnable x" and "c < 3" and "runnable (st (some_sys x y z c) c)"
    and "x = PROC_RUNNING \<Longrightarrow> c = 0" and "y = PROC_RUNNING \<Longrightarrow> c = 1" and "z = PROC_RUNNING \<Longrightarrow> c = 2"
  shows "sched_inv (some_sys x y z c)"
proof -
  have "st (some_sys x y z c) i = PROC_RUNNING \<longrightarrow> i = c" if "i < 64" for i
    using upto64_cases [OF that] by cases (use assms in \<open>simp_all add: some_sys_at\<close>)
  then have "sched_pre (some_sys x y z c) c"
    using assms(1,2) by (simp add: sched_pre_def some_sys_at)
  then show ?thesis using assms(3) by (auto simp: sched_inv_def)
qed

lemma create_ok:
  assumes "sched_inv s" and "st s i = PROC_UNUSED" and "\<And>j. j < i \<Longrightarrow> st s j \<noteq> PROC_UNUSED" and "i < 64"
    and "0 \<notin> set nm" and "length nm < 32"
  shows "\<exists>t. proc_create_kernel entry (nm @ [0]) s = Some (Some i, t)"
proof -
  obtain c where pre: "sched_pre s c" and run: "runnable (st s c)" using assms(1) by (auto simp: sched_inv_def)
  note P = sched_preD [OF pre]
  have ne: "i \<noteq> c" using assms(2) run by auto
  have "i < MAX_PROCS \<and> st s i = PROC_UNUSED \<and> (\<forall>j<i. st s j \<noteq> PROC_UNUSED)" using assms(2-4) by simp
  then have "List.find (\<lambda>i. st s i = PROC_UNUSED) [0..<MAX_PROCS] = Some i" unfolding find_upt_Some_iff .
  then have al: "alloc_proc s = (Some i, (upd_proc i (\<lambda>_. zero_process) s)\<lparr>kmem := kmemset (kstack s i) 0 8192 (kmem s)\<rparr>)"
    by (simp only: alloc_proc_def option.case)
  obtain nm' where nm': "kstrcpy (pname zero_process) (nm @ [0]) = Some nm'"
    using kstrcpy_some [OF assms(5), of "pname zero_process"] assms(6)
    by (simp add: zero_process_def PROC_NAME_LEN_def)
  obtain dir where dir: "kstrcpy (cwd zero_process) (cstr ''/'') = Some dir" using kstrcpy_literals by blast
  show ?thesis
    unfolding proc_create_kernel_def al using P(1-3) assms(4) nm' dir by (simp add: Let_def current_def)
qed

section \<open>The stacks of the table\<close>

lemma kstack_bounds:
  assumes "unat (table_addr s) + 561920 \<le> 4294967296" and "i < 64"
  shows "unat (kstack s i) = unat (table_addr s) + i * 8780 + 588"
    and "unat (kstack s i) + 8192 \<le> 4294967296"
proof -
  have i: "of_nat i * 8780 = (of_nat (i * 8780) :: u32)" by simp
  have u: "unat (of_nat (i * 8780) :: u32) = i * 8780"
    using assms(2) by (intro unat_of_nat_small) simp
  have "unat (table_addr s + of_nat i * 8780) = unat (table_addr s) + i * 8780"
    unfolding i using assms u by (subst unat_add_small) simp_all
  then show *: "unat (kstack s i) = unat (table_addr s) + i * 8780 + 588"
    unfolding kstack_def using assms by (subst unat_add_small) simp_all
  show "unat (kstack s i) + 8192 \<le> 4294967296" unfolding * using assms by simp
qed

lemma kstack_disjoint:
  assumes "unat (table_addr s) + 561920 \<le> 4294967296" and "i < 64" and "j < 64" and "i \<noteq> j"
  shows "unat (kstack s i) + 8192 \<le> unat (kstack s j) \<or> unat (kstack s j) + 8192 \<le> unat (kstack s i)"
  unfolding kstack_bounds(1) [OF assms(1,2)] kstack_bounds(1) [OF assms(1,3)] using assms(4) by linarith

text \<open>The first frame of a new process: four zero registers below the address of its entry.\<close>

lemma first_frame:
  assumes fits: "unat (kstack s i) + 8192 \<le> 4294967296"
  shows "saved (kmemset (kstack s i + 8192 - 4 - 16) 0 16 (wr32 m (kstack s i + 8192 - 4) entry))
     (kstack s i + 8192 - 4 - 16) \<lparr>r_esp = x, r_ebp = 0, r_ebx = 0, r_esi = 0, r_edi = 0, r_eip = entry\<rparr>"
proof -
  define a where "a = kstack s i + 8172"
  have e: "kstack s i + 8192 - 4 - 16 = a" "kstack s i + 8192 - 4 = a + 16" by (simp_all add: a_def)
  have ua: "unat a = unat (kstack s i) + 8172" unfolding a_def using fits by (subst unat_add_small) simp_all
  have u: "unat (a + 4) = unat a + 4" "unat (a + 8) = unat a + 8" "unat (a + 12) = unat a + 12"
    "unat (a + 16) = unat a + 16" using fits ua by (simp_all add: unat_add_small)
  let ?m = "kmemset a 0 16 (wr32 m (a + 16) entry)"
  have low: "?m c = 0" if "unat a \<le> unat c" "unat c < unat a + 16" for c
  proof -
    have "unat (c - a) = unat c - unat a" using that by (intro unat_minus) simp
    then have "unat (c - a) < 16" using that by linarith
    then show ?thesis by (simp add: kmemset_eq)
  qed
  have high: "?m c = wr32 m (a + 16) entry c" if "unat a + 16 \<le> unat c" for c
  proof -
    have "unat (c - a) = unat c - unat a" using that by (intro unat_minus) simp
    then have "\<not> unat (c - a) < 16" using that by linarith
    then show ?thesis by (simp add: kmemset_eq)
  qed
  have z: "rd32 ?m a = 0" "rd32 ?m (a + 4) = 0" "rd32 ?m (a + 8) = 0" "rd32 ?m (a + 12) = 0"
    by (rule rd32_zero; use fits ua u low in simp)+
  have "rd32 ?m (a + 16) = rd32 (wr32 m (a + 16) entry) (a + 16)"
    by (rule rd32_cong) (use fits ua u high in simp_all)
  with z show ?thesis unfolding e saved_def by simp
qed

section \<open>Properties\<close>



text \<open>
  C11. The scheduler is a round robin: going round the table from the entry after the current
  process, a tick switches to the first process that is ready or whose sleep is over, marks it as
  running and the previous one as ready, loads its address space and its kernel stack, wakes the
  sleepers that are due and leaves the other states as they are.
\<close>

theorem scheduler_round_robin:
  assumes "sched_inv s" and "current_proc s = Some c" and "1 \<le> k" and "k < 64"
    and "due s ((c + k) mod 64)" and "\<forall>j. 1 \<le> j \<and> j < k \<longrightarrow> \<not> due s ((c + j) mod 64)"
  shows "\<exists>t. scheduler_tick s = Some t \<and> current_proc t = Some ((c + k) mod 64)
    \<and> st t ((c + k) mod 64) = PROC_RUNNING \<and> ticks t = ticks s + 1
    \<and> (st s c = PROC_RUNNING \<longrightarrow> st t c = PROC_READY)
    \<and> (\<forall>i<64. i \<noteq> c \<and> i \<noteq> (c + k) mod 64 \<longrightarrow> st t i = (if due s i then PROC_READY else st s i))
    \<and> cr3 (pvm t) = page_dir (proc_at s ((c + k) mod 64))
    \<and> tss_esp0 t = kernel_stack_top (proc_at s ((c + k) mod 64))"
proof -
  note pre = sched_inv_current(1) [OF assms(1,2)]
  note P = sched_preD [OF pre]
  let ?n = "(c + k) mod 64"
  have "woken s ?n = PROC_READY" using assms(5) by (simp add: woken_due)
  moreover have "woken s ((c + j) mod 64) \<noteq> PROC_READY" if "1 \<le> j" "j < k" for j
    using assms(6) that by (auto simp: woken_due due_def)
  ultimately have ch: "chosen (woken s) c = Some ?n"
    unfolding chosen_Some using assms(3,4) by (intro exI [of _ k]) auto
  have ne: "?n \<noteq> c"
  proof (cases "c + k < 64")
    case False
    then show ?thesis using assms(3,4) P(3) by (simp add: le_mod_geq)
  qed (use assms(3) in simp)
  obtain t where t: "scheduler_tick s = Some t" "moved s t (after_switch (woken s) c)"
    "current_proc t = Some (runs_next (woken s) c)" "ticks t = ticks s + 1"
    by (rule tick_inv [OF pre]) blast
  have st: "st t i = after_switch (woken s) c i" if "i < 64" for i
    using movedD(1) [OF t(2)] P(1) that by simp
  have run: "runs_next (woken s) c = ?n" using ch by (simp add: runs_next_def)
  have "st s c = PROC_RUNNING \<longrightarrow> st t c = PROC_READY"
    using st [OF P(3)] ch ne by (auto simp: after_switch_def woken_due due_def)
  moreover have "st t i = (if due s i then PROC_READY else st s i)" if "i < 64" "i \<noteq> c" "i \<noteq> ?n" for i
    using st [OF that(1)] that(2,3) ch by (simp add: after_switch_def woken_due)
  moreover have "st t ?n = PROC_RUNNING" using st [of ?n] ch ne by (simp add: after_switch_simps(1))
  moreover have "cr3 (pvm t) = page_dir (proc_at s ?n)" "tss_esp0 t = kernel_stack_top (proc_at s ?n)"
    by (rule tick_switches [OF pre t(1) _ ne]; use t(3) run in simp)+
  ultimately show ?thesis using t run by auto
qed

theorem scheduler_round_robin_witness:
  "\<exists>t. scheduler_tick (some_sys PROC_READY PROC_RUNNING PROC_READY 1) = Some t \<and> current_proc t = Some 2
     \<and> st t 1 = PROC_READY \<and> st t 0 = PROC_READY"
proof -
  let ?s = "some_sys PROC_READY PROC_RUNNING PROC_READY 1"
  have "sched_inv ?s" by (rule some_sys_inv) (simp_all add: some_sys_at)
  moreover have "due ?s ((1 + 1) mod 64)" by (simp add: due_def some_sys_at numeral_2_eq_2 [symmetric])
  ultimately obtain t where t: "scheduler_tick ?s = Some t" "current_proc t = Some ((1 + 1) mod 64)"
    "st ?s 1 = PROC_RUNNING \<longrightarrow> st t 1 = PROC_READY"
    "\<forall>i<64. i \<noteq> 1 \<and> i \<noteq> (1 + 1) mod 64 \<longrightarrow> st t i = (if due ?s i then PROC_READY else st ?s i)"
    using scheduler_round_robin [of ?s 1 1] by auto
  have "st t 0 = PROC_READY" using t(4) by (simp add: some_sys_at)
  with t show ?thesis by (simp add: some_sys_at numeral_2_eq_2 [symmetric])
qed

lemma runs_soon:
  assumes "sched_inv s" and "i < 64" and "st s i = PROC_READY" and "current_proc s \<noteq> Some i"
  shows "\<exists>n\<le>63. \<exists>t. ticks_n n s = Some t \<and> current_proc t = Some i \<and> st t i = PROC_RUNNING"
proof -
  obtain c where pre: "sched_pre s c" and run: "runnable (st s c)" using assms(1) by (auto simp: sched_inv_def)
  have ne: "i \<noteq> c" using assms(4) sched_preD(2) [OF pre] by auto
  obtain n t where "n \<le> behind c i" "ticks_n n s = Some t" "current_proc t = Some i" "st t i = PROC_RUNNING"
    using ticks_reach [OF pre run assms(2) ne assms(3)] by blast
  moreover have "behind c i \<le> 63" by (rule behind_props(2) [OF sched_preD(3) [OF pre] assms(2) ne])
  ultimately show ?thesis by (meson order_trans)
qed

text \<open>
  C12. No process starves: one that is ready runs after at most 63 further ticks of the timer,
  whatever the states of the others.
\<close>

theorem no_starvation:
  assumes "sched_inv s" and "i < 64" and "st s i = PROC_READY" and "current_proc s \<noteq> Some i"
  shows "\<exists>n\<le>63. \<exists>t. ticks_n n s = Some t \<and> current_proc t = Some i \<and> st t i = PROC_RUNNING"
  by (rule runs_soon [OF assms])

theorem no_starvation_witness:
  "\<exists>n\<le>63. \<exists>t. ticks_n n (some_sys PROC_READY PROC_RUNNING PROC_READY 1) = Some t \<and> current_proc t = Some 0"
proof -
  have "sched_inv (some_sys PROC_READY PROC_RUNNING PROC_READY 1)" by (rule some_sys_inv) (simp_all add: some_sys_at)
  from no_starvation [OF this, of 0] show ?thesis by (auto simp: some_sys_at)
qed

text \<open>
  A process that asks for \<open>ms\<close> milliseconds, 10 or more, sleeps through exactly \<open>ms / 10\<close> of the
  ticks that follow the call, which counts one tick itself: up to a full tick of 10 ms less than it
  asked for, and never longer.
\<close>

theorem proc_sleep_duration:
  assumes "sched_inv s" and "current_proc s = Some c" and "c \<noteq> 0" and "10 \<le> unat ms"
    and "unat (ticks s) + unat ms div 10 + 1 < 4294967296"
  shows "\<exists>t. proc_sleep ms s = Some t \<and> sched_inv t \<and> ticks t = ticks s + 1
    \<and> (\<forall>n. \<exists>u. ticks_n n t = Some u \<and> (st u c = PROC_SLEEPING \<longleftrightarrow> n < unat ms div 10))"
proof -
  note pre = sched_inv_current(1) [OF assms(1,2)]
  note P = sched_preD [OF pre]
  let ?until = "ticks s + (ms div 10 + 1)"
  let ?s = "upd_proc c (\<lambda>p. p\<lparr>pstate := PROC_SLEEPING\<rparr>) (upd_proc c (\<lambda>p. p\<lparr>sleep_until := ?until\<rparr>) s)"
  have pre1: "sched_pre ?s c"
    using assms(3) P(1,3) by (intro sched_pre_upd [OF sched_pre_upd [OF pre]]) (simp_all add: P(5,6))
  have s1: "st ?s c = PROC_SLEEPING" "sleep_until (proc_at ?s c) = ?until" "length (proc_table ?s) = 64" "ticks ?s = ticks s"
    using P(1,3) by simp_all
  have "unat (ms div 10) = unat ms div 10" by (simp add: unat_div)
  then have u: "unat ?until = unat (ticks s) + unat ms div 10 + 1" "unat (ticks s + 1) = unat (ticks s) + 1"
    using assms(5) by (simp_all add: unat_add_small)
  have eq: "proc_sleep ms s = scheduler_tick ?s"
    using yield_eq [OF pre1] s1(1) P(4) by (simp add: proc_sleep_def Let_def del: upd_proc_twice)
  obtain t where t: "scheduler_tick ?s = Some t" "sched_inv t" "moved ?s t (after_switch (woken ?s) c)" "ticks t = ticks ?s + 1"
    by (rule tick_inv [OF pre1]) blast
  have "\<not> due ?s c" using s1 u assms(4) by (simp add: due_def word_le_nat_alt del: upd_proc_twice)
  moreover have "\<not> runnable (st ?s c)" using s1(1) by simp
  ultimately have "after_switch (woken ?s) c c = PROC_SLEEPING" using after_switch_cases [of ?s c c] s1(1) by auto
  moreover have "st t c = after_switch (woken ?s) c c" by (rule movedD(1) [OF t(3)]) (use s1(3) P(3) in simp)
  moreover have "sleep_until (proc_at t c) = ?until" using movedD(4) [OF t(3)] s1(2,3) P(3) by simp
  ultimately have "\<exists>v. ticks_n n t = Some v \<and> (st v c = PROC_SLEEPING \<longleftrightarrow> n < unat ms div 10)" for n
    using u t(4) assms(4) s1(4) by (intro sleep_ticks [OF t(2) P(3)]) simp_all
  with t eq s1(4) show ?thesis by auto
qed

theorem proc_sleep_duration_witness:
  "\<exists>t. proc_sleep 25 (some_sys PROC_READY PROC_RUNNING PROC_READY 1) = Some t
     \<and> (\<exists>u. ticks_n 1 t = Some u \<and> st u 1 = PROC_SLEEPING) \<and> (\<exists>u. ticks_n 2 t = Some u \<and> st u 1 \<noteq> PROC_SLEEPING)"
proof -
  have "sched_inv (some_sys PROC_READY PROC_RUNNING PROC_READY 1)" by (rule some_sys_inv) (simp_all add: some_sys_at)
  from proc_sleep_duration [OF this, of 1 25] obtain t where
    t: "proc_sleep 25 (some_sys PROC_READY PROC_RUNNING PROC_READY 1) = Some t"
    "\<And>n. \<exists>u. ticks_n n t = Some u \<and> (st u 1 = PROC_SLEEPING \<longleftrightarrow> n < 2)" by auto
  from t(1) t(2) [of 1] t(2) [of 2] show ?thesis by auto
qed

lemma runs_at_last:
  assumes inv: "sched_inv s" and i: "i < 64" and run: "runnable (st s i)"
  shows "\<exists>n\<le>63. \<exists>t. ticks_n n s = Some t \<and> current_proc t = Some i"
proof (cases "current_proc s = Some i")
  case True
  then have "ticks_n 0 s = Some s \<and> current_proc s = Some i" by simp
  then show ?thesis by blast
next
  case False
  obtain c where c: "sched_pre s c" using inv by (auto simp: sched_inv_def)
  then have "st s i = PROC_READY" using False run sched_preD(2) [OF c] sched_preD(6) [OF c i] by (auto simp: runnable_def)
  from runs_soon [OF inv i this False] show ?thesis by blast
qed



lemma new_process_entry:
  assumes "sched_inv s" and "proc_create_kernel entry name s = Some (Some i, t)"
    and "scheduler_tick t = Some u" and "current_proc u = Some i"
    and "unat (table_addr s) + 561920 \<le> 4294967296" and "28 \<le> unat (r_esp (cpu_regs s))"
    and "unat (r_esp (cpu_regs s)) \<le> unat (kstack s i) \<or> unat (kstack s i) + 8220 \<le> unat (r_esp (cpu_regs s))"
  shows "cpu_regs u = \<lparr>r_esp = kstack s i + 8192, r_ebp = 0, r_ebx = 0, r_esi = 0, r_edi = 0, r_eip = entry\<rparr>
    \<and> tss_esp0 u = kstack s i + 8192"
proof -
  obtain c where pre: "sched_pre s c" and run: "runnable (st s c)" using assms(1) by (auto simp: sched_inv_def)
  note P = sched_preD [OF pre]
  obtain parent nm dir where i: "i < 64" "st s i = PROC_UNUSED" and t:
    "t = (upd_proc i (\<lambda>_. zero_process\<lparr>pid := next_kpid s, ppid := parent, pstate := PROC_READY,
       page_dir := kernel_dir (pvm s), pname := nm, cwd := dir, esp := kstack s i + 8192 - 4 - 16,
       kernel_stack_top := kstack s i + 8192\<rparr>) s)
       \<lparr>next_kpid := next_kpid s + 1, kmem := kmemset (kstack s i + 8192 - 4 - 16) 0 16
          (wr32 (kmemset (kstack s i) 0 8192 (kmem s)) (kstack s i + 8192 - 4) entry)\<rparr>"
    by (rule create_some [OF assms(2) P(1)]) blast
  have ne: "i \<noteq> c" using i run by auto
  have "sched_inv t" by (rule create_inv [OF pre run assms(2)])
  moreover have "current_proc t = Some c" unfolding t using P(2) by simp
  ultimately have pret: "sched_pre t c" by (rule sched_inv_current)
  note W = tick_switches [OF pret assms(3,4) ne]
  let ?a = "kstack s i + 8192 - 4 - 16"
  have at: "esp (proc_at t i) = ?a" "kernel_stack_top (proc_at t i) = kstack s i + 8192" "cpu_regs t = cpu_regs s"
    "table_addr t = table_addr s"
    unfolding t using i(1) P(1) by simp_all
  have tss: "tss_esp0 u = kstack s i + 8192" using W(5) at(2) by simp
  note B = kstack_bounds [OF assms(5) i(1)]
  have a: "unat ?a = unat (kstack s i) + 8172"
  proof -
    have "unat (kstack s i + 8172) = unat (kstack s i) + unat (8172 :: u32)"
      by (rule unat_add_small) (use B(2) in simp)
    moreover have "unat (8172 :: u32) = 8172" "?a = kstack s i + 8172" by simp_all
    ultimately show ?thesis by (simp only:)
  qed
  let ?R = "\<lparr>r_esp = 0, r_ebp = 0, r_ebx = 0, r_esi = 0, r_edi = 0, r_eip = entry\<rparr>"
  have "saved (kmem t) ?a ?R" unfolding t using first_frame [OF B(2)] by simp
  moreover have "pushed c ?a t x = kmem t x" if "unat ?a \<le> unat x" "unat x < unat ?a + 20" for x
    by (rule pushed_other) (use that a assms(6,7) at(3) in auto)
  ultimately have "saved (pushed c ?a t) ?a ?R"
    using saved_cong [of ?a "pushed c ?a t" "kmem t" ?R] a B(2) by simp
  from switch_loads [OF this] W(1) at(1) tss show ?thesis by simp
qed

text \<open>
  C27. A process made by \<^verbatim>\<open>proc_create_kernel\<close> starts at its entry: when the scheduler first switches
  to it, the instruction pointer is the entry, the saved registers are 0, and the stack pointer is
  the top of its own kernel stack, which the TSS holds as well.
\<close>

theorem new_process_starts_at_entry:
  assumes "sched_inv s" and "proc_create_kernel entry name s = Some (Some i, t)"
    and "scheduler_tick t = Some u" and "current_proc u = Some i"
    and "unat (table_addr s) + 561920 \<le> 4294967296" and "28 \<le> unat (r_esp (cpu_regs s))"
    and "unat (r_esp (cpu_regs s)) \<le> unat (kstack s i) \<or> unat (kstack s i) + 8220 \<le> unat (r_esp (cpu_regs s))"
  shows "cpu_regs u = \<lparr>r_esp = kstack s i + 8192, r_ebp = 0, r_ebx = 0, r_esi = 0, r_edi = 0, r_eip = entry\<rparr>
    \<and> tss_esp0 u = kstack s i + 8192"
  by (rule new_process_entry [OF assms])

theorem new_process_starts_at_entry_witness:
  "\<exists>t u. proc_create_kernel 0x100100 (cstr ''sh'') (some_sys PROC_RUNNING PROC_UNUSED PROC_UNUSED 0) = Some (Some 1, t)
     \<and> scheduler_tick t = Some u \<and> r_eip (cpu_regs u) = 0x100100"
proof -
  let ?s = "some_sys PROC_RUNNING PROC_UNUSED PROC_UNUSED 0"
  have inv: "sched_inv ?s" by (rule some_sys_inv) (simp_all add: some_sys_at)
  have "\<exists>t. proc_create_kernel 0x100100 (map of_char ''sh'' @ [0]) ?s = Some (Some 1, t)"
    by (rule create_ok [OF inv]) (simp_all add: some_sys_at)
  then obtain t where t: "proc_create_kernel 0x100100 (cstr ''sh'') ?s = Some (Some 1, t)" by (auto simp: cstr_def)
  have pre: "sched_pre ?s 0" using inv sched_preD(2) [of ?s] by (fastforce simp: sched_inv_def)
  have "length (proc_table ?s) = 64" by simp
  note made = create_some [OF t this]
  have at: "current_proc t = Some 0" "st t 1 = PROC_READY" by (rule made; simp)+
  have invt: "sched_inv t" by (rule create_inv [OF pre _ t]) (simp add: some_sys_at)
  have "due t ((0 + 1) mod 64)" using at(2) by (simp add: due_def)
  note pret = sched_inv_current(1) [OF invt at(1)]
  have "chosen (woken t) 0 = Some 1"
    unfolding chosen_Some using \<open>due t ((0 + 1) mod 64)\<close> by (intro exI [of _ 1]) (simp add: woken_due)
  moreover obtain u where u: "scheduler_tick t = Some u" "current_proc u = Some (runs_next (woken t) 0)"
    by (rule tick_inv [OF pret]) blast
  ultimately have cur: "current_proc u = Some 1" by (simp add: runs_next_def)
  have "kstack ?s 1 = 0x122498" by (simp add: kstack_def)
  then show ?thesis
    using new_process_starts_at_entry [OF inv t u(1) cur] t u(1) by simp
qed

text \<open>
  C28. A suspended process goes on where it was: when the scheduler has switched away from a process
  and later switches back to it, with its stored stack pointer and the frame it points to
  unchanged, the instruction pointer and the registers the C calling convention preserves are those
  of the moment of the switch, and the stack pointer is 8 below, at the two arguments the caller of
  \<^verbatim>\<open>context_switch\<close> pushed.
\<close>

theorem suspended_process_resumes:
  assumes "sched_inv s" and "current_proc s = Some c" and "scheduler_tick s = Some t" and "current_proc t \<noteq> Some c"
    and "sched_inv u" and "current_proc u = Some d" and "d \<noteq> c" and "scheduler_tick u = Some v" and "current_proc v = Some c"
    and "esp (proc_at u c) = esp (proc_at t c)"
    and "\<And>x. unat (r_esp (cpu_regs s)) - 28 \<le> unat x \<Longrightarrow> unat x < unat (r_esp (cpu_regs s)) \<Longrightarrow> kmem u x = kmem t x"
    and "28 \<le> unat (r_esp (cpu_regs s))" and "28 \<le> unat (r_esp (cpu_regs u))"
    and "unat (r_esp (cpu_regs u)) + 28 \<le> unat (r_esp (cpu_regs s)) \<or> unat (r_esp (cpu_regs s)) + 28 \<le> unat (r_esp (cpu_regs u))"
  shows "cpu_regs v = (cpu_regs s)\<lparr>r_esp := r_esp (cpu_regs s) - 8\<rparr>"
proof -
  note pre = sched_inv_current(1) [OF assms(1,2)] sched_inv_current(1) [OF assms(5,6)]
  have "sched_inv t" by (rule tickD(1) [OF pre(1) assms(3)])
  then obtain n where n: "sched_pre t n" by (auto simp: sched_inv_def)
  have ne: "n \<noteq> c" using assms(4) sched_preD(2) [OF n] by auto
  have nc: "c \<noteq> d" using assms(7) by simp
  note S = tick_switches [OF pre(1) assms(3) sched_preD(2) [OF n] ne]
  note U = tick_switches [OF pre(2) assms(8,9) nc]
  let ?R = "cpu_regs s" and ?a = "r_esp (cpu_regs s) - 28"
  have e: "esp (proc_at u c) = ?a" using S(4) assms(10) sched_preD(3) [OF pre(1)] by simp
  have a: "unat ?a = unat (r_esp ?R) - 28" using assms(12) by (simp add: unat_minus)
  have top: "unat ?a + 20 \<le> 4294967296" using a unat_u32_lt [of "r_esp ?R"] by linarith
  have "saved (kmem t) ?a ?R" unfolding S(2) by (rule pushed_saved [OF assms(12)])
  moreover have "pushed d ?a u x = kmem t x" if "unat ?a \<le> unat x" "unat x < unat ?a + 20" for x
  proof -
    have x: "unat (r_esp ?R) - 28 \<le> unat x" "unat x < unat (r_esp ?R)" using that a assms(12) by simp_all
    have "unat x < unat (r_esp (cpu_regs u)) - 28 \<or> unat (r_esp (cpu_regs u)) \<le> unat x"
      using x assms(14) by linarith
    then have "pushed d ?a u x = kmem u x" by (rule pushed_other [OF assms(13)])
    then show ?thesis using assms(11) [OF x] by simp
  qed
  ultimately have "saved (pushed d ?a u) ?a ?R" using saved_cong [OF top, of "pushed d ?a u" "kmem t" ?R] by simp
  from switch_loads [OF this] U(1) e show ?thesis by simp
qed

theorem suspended_process_resumes_witness:
  "\<exists>t u. scheduler_tick (some_sys PROC_READY PROC_RUNNING PROC_UNUSED 1) = Some t
     \<and> scheduler_tick (t\<lparr>cpu_regs := (cpu_regs t)\<lparr>r_esp := 0x8000\<rparr>\<rparr>) = Some u
     \<and> r_eip (cpu_regs u) = 0x100200 \<and> r_esp (cpu_regs u) = 0x8FF8"
proof -
  let ?s = "some_sys PROC_READY PROC_RUNNING PROC_UNUSED 1"
  have inv: "sched_inv ?s" by (rule some_sys_inv) (simp_all add: some_sys_at)
  then have pre: "sched_pre ?s 1" using sched_preD(2) [of ?s] by (fastforce simp: sched_inv_def)
  obtain t where t: "scheduler_tick ?s = Some t" "sched_inv t" "moved ?s t (after_switch (woken ?s) 1)"
    "current_proc t = Some (runs_next (woken ?s) 1)"
    by (rule tick_inv [OF pre]) blast
  have w: "woken ?s i = (if i = 0 then PROC_READY else if i = 1 then PROC_RUNNING else PROC_UNUSED)" if "i < 64" for i
    using upto64_cases [OF that] by cases (simp_all add: woken_due due_def some_sys_at)
  have ch: "chosen (woken ?s) 1 = Some 0"
    unfolding chosen_Some
  proof (intro exI [of _ 63] conjI allI impI)
    fix j :: nat assume j: "1 \<le> j" "j < 63"
    then have "woken ?s ((1 + j) mod 64) = PROC_UNUSED" by (subst w) simp_all
    then show "woken ?s ((1 + j) mod 64) \<noteq> PROC_READY" by simp
  next
    have "woken ?s 0 = PROC_READY" by (simp add: woken_due due_def some_sys_at)
    then show "woken ?s ((1 + 63) mod 64) = PROC_READY" by (simp del: One_nat_def)
  qed simp_all
  then have cur: "current_proc t = Some 0" using t(4) by (simp add: runs_next_def)
  have st: "st t i = after_switch (woken ?s) 1 i" if "i < 64" for i using movedD(1) [OF t(3)] that by simp
  have "woken ?s 1 = PROC_RUNNING" by (simp add: woken_due due_def some_sys_at)
  then have st01: "st t 0 = PROC_RUNNING" "st t 1 = PROC_READY"
    using ch st [of 0] st [of 1] by (simp_all add: after_switch_def)
  let ?u = "t\<lparr>cpu_regs := (cpu_regs t)\<lparr>r_esp := 0x8000\<rparr>\<rparr>"
  have inv2: "sched_inv ?u" using t(2) by (auto simp: sched_inv_def sched_pre_def)
  have pre2: "sched_pre ?u 0" by (rule sched_inv_current [OF inv2]) (simp add: cur)
  have "chosen (woken ?u) 0 = Some 1"
    unfolding chosen_Some by (intro exI [of _ 1]) (simp add: woken_due due_def st01 [simplified])
  moreover obtain v where v: "scheduler_tick ?u = Some v" "current_proc v = Some (runs_next (woken ?u) 0)"
    by (rule tick_inv [OF pre2]) blast
  ultimately have cv: "current_proc v = Some 1" by (simp add: runs_next_def)
  have "cpu_regs v = (cpu_regs ?s)\<lparr>r_esp := r_esp (cpu_regs ?s) - 8\<rparr>"
    by (rule suspended_process_resumes [of ?s 1 t ?u 0 v, OF inv _ t(1) _ inv2 _ _ v(1) cv]) (simp_all add: cur)
  then show ?thesis using t(1) v(1) by auto
qed

section \<open>Fork\<close>

lemma rd32_shift:
  assumes "\<And>k. k < n \<Longrightarrow> m' (d + of_nat k) = m (e + of_nat k)" and "k + 4 \<le> n"
  shows "rd32 m' (d + of_nat k) = rd32 m (e + of_nat k)"
proof -
  have "m' (d + of_nat k + 1) = m (e + of_nat k + 1)" "m' (d + of_nat k + 2) = m (e + of_nat k + 2)"
    "m' (d + of_nat k + 3) = m (e + of_nat k + 3)"
    using assms(1) [of "k + 1"] assms(1) [of "k + 2"] assms(1) [of "k + 3"] assms(2) by (simp_all add: add_ac)
  moreover have "m' (d + of_nat k) = m (e + of_nat k)" using assms by simp
  ultimately show ?thesis by (simp only: rd32_def)
qed

lemma frame_copy:
  assumes tab: "unat (table_addr s) + 561920 \<le> 4294967296" and ic: "i < 64" "c < 64" "i \<noteq> c"
    and lo: "unat (kstack s c) \<le> unat e" and hi: "unat e + n = unat (kstack s c) + 8192" and "k < n"
  shows "kmemcpy (kstack s i + 8192 - of_nat n) e n
      (kmemcpy (kstack s i) (kstack s c) 8192 (kmemset (kstack s i) 0 8192 m)) (kstack s i + 8192 - of_nat n + of_nat k)
    = m (e + of_nat k)"
proof -
  note I = kstack_bounds [OF tab ic(1)] and C = kstack_bounds [OF tab ic(2)] and D = kstack_disjoint [OF tab ic]
  have n: "n \<le> 8192" using lo hi by linarith
  define d where "d = kstack s i + 8192 - of_nat n"
  have "d = kstack s i + of_nat (8192 - n)" using n by (simp add: d_def of_nat_diff)
  moreover have q: "unat (of_nat (8192 - n) :: u32) = 8192 - n" by (rule unat_of_nat_small) simp
  moreover have "unat (kstack s i + of_nat (8192 - n)) = unat (kstack s i) + unat (of_nat (8192 - n) :: u32)"
    by (rule unat_add_small) (use q I(2) \<open>k < n\<close> in linarith)
  ultimately have ud: "unat d = unat (kstack s i) + (8192 - n)" by (simp only:)
  have un: "unat (of_nat j :: u32) = j" if "j < 8192" for j using that by (intro unat_of_nat_small) simp
  have dj: "unat (d + of_nat j) = unat d + j" "unat (e + of_nat j) = unat e + j" if "j < n" for j
    using that n un [of j] ud I(2) C(2) hi by (simp_all add: unat_add_small)
  have kj: "unat (kstack s i + of_nat j) = unat (kstack s i) + j" "unat (kstack s c + of_nat j) = unat (kstack s c) + j"
    if "j < 8192" for j
    using that un [OF that] I(2) C(2) by (simp_all add: unat_add_small)
  have apart: "d + of_nat p \<noteq> e + of_nat q" if "p < n" "q < n" for p q
  proof
    assume "d + of_nat p = e + of_nat q"
    then have "unat d + p = unat e + q" using dj that by metis
    then show False using D ud that n lo hi by linarith
  qed
  have apart2: "kstack s i + of_nat p \<noteq> kstack s c + of_nat q" if "p < 8192" "q < 8192" for p q
  proof
    assume "kstack s i + of_nat p = kstack s c + of_nat q"
    then have "unat (kstack s i) + p = unat (kstack s c) + q" using kj that by metis
    then show False using D that by linarith
  qed
  let ?x = "e + of_nat k" and ?m2 = "kmemcpy (kstack s i) (kstack s c) 8192 (kmemset (kstack s i) 0 8192 m)"
  have ux: "unat ?x = unat e + k" using dj(2) \<open>k < n\<close> by blast
  have out: "\<not> unat (?x - kstack s i) < 8192"
  proof (cases "unat (kstack s i) \<le> unat ?x")
    case True
    then have "unat (?x - kstack s i) = unat ?x - unat (kstack s i)" by (rule unat_minus)
    then show ?thesis using D ux lo hi \<open>k < n\<close> True by linarith
  next
    case False
    then have "unat (?x - kstack s i) = unat ?x + 4294967296 - unat (kstack s i)"
      by (simp add: unat_sub_if_size word_size)
    then show ?thesis using I(2) by linarith
  qed
  have "kmemcpy d e n ?m2 (d + of_nat k) = ?m2 ?x"
    using kmemcpy_eq [of n d e ?m2, OF _ apart] n \<open>k < n\<close> un [of k] by simp
  also have "\<dots> = kmemset (kstack s i) 0 8192 m ?x"
    using kmemcpy_eq [of 8192 "kstack s i" "kstack s c" "kmemset (kstack s i) 0 8192 m", OF _ apart2] out by simp
  also have "\<dots> = m ?x" using out by (simp add: kmemset_eq)
  finally show ?thesis unfolding d_def .
qed



end
