(* ===== verification/Ports.thy ===== *)
theory Ports
  imports Prelude
begin

text \<open>
  Port input and output: \<^verbatim>\<open>kernel/io.h\<close>, \<^verbatim>\<open>drivers/serial.c\<close> and the functions of the other
  files that only program a device. The state has the writes made, in their order, and for every port
  the values that reading it will give; a value that is never delivered is \<open>None\<close>.
\<close>

unbundle bit_operations_syntax

section \<open>The two instructions\<close>

record ports =
  writes :: "(u16 \<times> u8) list"
  input :: "u16 \<Rightarrow> u8 list"

definition outb :: "u16 \<Rightarrow> u8 \<Rightarrow> 'a ports_scheme \<Rightarrow> 'a ports_scheme" where
  "outb port v s = s\<lparr>writes := writes s @ [(port, v)]\<rparr>"

definition inb :: "u16 \<Rightarrow> 'a ports_scheme \<Rightarrow> (u8 \<times> 'a ports_scheme) option" where
  "inb port s = (case input s port of [] \<Rightarrow> None | v # r \<Rightarrow> Some (v, s\<lparr>input := (input s)(port := r)\<rparr>))"

text \<open>A sequence of writes.\<close>

definition outs :: "(u16 \<times> u8) list \<Rightarrow> 'a ports_scheme \<Rightarrow> 'a ports_scheme" where
  "outs ws s = fold (\<lambda>(p, v). outb p v) ws s"

lemma outs_sent: "outs ws s = s\<lparr>writes := writes s @ ws\<rparr>"
  by (induction ws arbitrary: s) (auto simp: outs_def outb_def)

section \<open>The serial line\<close>

definition COM1 :: u16 where "COM1 = 0x3F8"

definition serial_init :: "'a ports_scheme \<Rightarrow> 'a ports_scheme" where
  "serial_init s = outs [(COM1 + 1, 0x00), (COM1 + 3, 0x80), (COM1 + 0, 0x03), (COM1 + 1, 0x00),
     (COM1 + 3, 0x03), (COM1 + 2, 0xC7), (COM1 + 4, 0x0B)] s"

text \<open>Reading the port until the bits of a mask are all 0, or until one of them is set.\<close>

function wait_set :: "u16 \<Rightarrow> u8 \<Rightarrow> 'a ports_scheme \<Rightarrow> 'a ports_scheme option" where
  "wait_set port bits s =
     (case inb port s of None \<Rightarrow> None
      | Some (v, s') \<Rightarrow> if v AND bits = 0 then wait_set port bits s' else Some s')"
  by pat_completeness auto
termination
  by (relation "measure (\<lambda>(port, bits, s). length (input s port))") (auto simp: inb_def split: list.splits)

declare wait_set.simps [simp del]

definition serial_read_char :: "'a ports_scheme \<Rightarrow> (u8 \<times> 'a ports_scheme) option" where
  "serial_read_char s = do { s \<leftarrow> wait_set (COM1 + 5) 1 s; inb COM1 s }"

section \<open>The interrupt controllers\<close>

definition pic_remap :: "'a ports_scheme \<Rightarrow> 'a ports_scheme" where
  "pic_remap s = outs [(0x20, 0x11), (0xA0, 0x11), (0x21, 0x20), (0xA1, 0x28), (0x21, 0x04), (0xA1, 0x02),
     (0x21, 0x01), (0xA1, 0x01), (0x21, 0xFC), (0xA1, 0xFF)] s"

text \<open>The end of interrupt: \<open>irq\<close> is an int.\<close>

definition pic_eoi :: "int \<Rightarrow> 'a ports_scheme \<Rightarrow> 'a ports_scheme" where
  "pic_eoi irq s = outb 0x20 0x20 (if 8 \<le> irq then outb 0xA0 0x20 s else s)"

section \<open>The keyboard controller and the timer\<close>

function ps2_flush_output :: "'a ports_scheme \<Rightarrow> 'a ports_scheme option" where
  "ps2_flush_output s =
     (case inb 0x64 s of None \<Rightarrow> None
      | Some (v, s') \<Rightarrow>
          if v AND 1 = 0 then Some s'
          else (case inb 0x60 s' of None \<Rightarrow> None | Some (_, s'') \<Rightarrow> ps2_flush_output s''))"
  by pat_completeness auto
termination
  by (relation "measure (\<lambda>s. length (input s 0x64))") (auto simp: inb_def split: list.splits)

declare ps2_flush_output.simps [simp del]

definition ps2_init :: "'a ports_scheme \<Rightarrow> 'a ports_scheme option" where
  "ps2_init s = do {
     s \<leftarrow> ps2_flush_output s;
     let s = outb 0x64 0x20 s;
     (status, s) \<leftarrow> inb 0x60 s;
     let status = status OR 0x01;
     let s = outb 0x64 0x60 s;
     let s = outb 0x60 status s;
     Some (outb 0x60 0xF4 s)
   }"

definition pit_init :: "'a ports_scheme \<Rightarrow> 'a ports_scheme" where
  "pit_init s =
     (let divisor = (1193180 div 100 :: u32)
      in outs [(0x43, 0x36), (0x40, ucast (divisor AND 0xFF)), (0x40, ucast (drop_bit 8 divisor AND 0xFF))] s)"

text \<open>
  Whatever is waiting in the controller is discarded, and the command byte is written back with the
  interrupt of the keyboard enabled.
\<close>

lemma ps2_flush_drains:
  assumes "input s 0x64 = full @ idle # rest" "\<forall>v\<in>set full. v AND 1 \<noteq> 0" "idle AND 1 = 0"
    and "input s 0x60 = junk @ data" "length junk = length full"
  shows "ps2_flush_output s = Some (s\<lparr>input := (input s)(0x64 := rest, 0x60 := data)\<rparr>)"
  using assms
proof (induction full arbitrary: s junk)
  case Nil
  then have "(input s)(100 := rest) = (input s)(100 := rest, 96 := data)" by (auto simp: fun_eq_iff)
  with Nil show ?case by (subst ps2_flush_output.simps) (simp add: inb_def)
next
  case (Cons v full)
  then obtain x junk' where j: "junk = x # junk'" by (cases junk) auto
  let ?s = "s\<lparr>input := (input s)(100 := full @ idle # rest, 96 := junk' @ data)\<rparr>"
  have "ps2_flush_output s = ps2_flush_output ?s"
    using Cons.prems j by (subst ps2_flush_output.simps) (simp add: inb_def)
  also have "\<dots> = Some (?s\<lparr>input := (input ?s)(0x64 := rest, 0x60 := data)\<rparr>)"
    by (rule Cons.IH [of _ junk']) (use Cons.prems j in simp_all)
  also have "(input ?s)(0x64 := rest, 0x60 := data) = (input s)(0x64 := rest, 0x60 := data)" by (rule ext) simp
  also have "?s\<lparr>input := F\<rparr> = s\<lparr>input := F\<rparr>" for F by simp
  finally show ?case .
qed

lemma ps2_init_sends:
  assumes "input s 0x64 = full @ idle # rest" "\<forall>v\<in>set full. v AND 1 \<noteq> 0" "idle AND 1 = 0"
    and "input s 0x60 = junk @ cmd # data" "length junk = length full"
  shows "\<exists>t. ps2_init s = Some t
    \<and> writes t = writes s @ [(0x64, 0x20), (0x64, 0x60), (0x60, cmd OR 1), (0x60, 0xF4)]"
  using ps2_flush_drains [OF assms] by (simp add: ps2_init_def inb_def outb_def Let_def)

end
