(* ===== verification/Gdt.thy ===== *)
theory Gdt
  imports Ports
begin

text \<open>
  The descriptor tables, \<^verbatim>\<open>kernel/gdt.c\<close> and \<^verbatim>\<open>kernel/idt.c\<close>: the entries as the CPU reads them, the task
  state segment, and the registers that the initialisation loads. The addresses of the tables and of
  the interrupt stubs in \<^verbatim>\<open>kernel/isr_stubs.S\<close> are decided by the linker and are arguments. The
  functions \<open>seg_base\<close>, \<open>seg_limit\<close> and \<open>gate\<close> put the fields of an entry together again the
  way the CPU does.
\<close>

unbundle bit_operations_syntax

section \<open>Segments\<close>

record gdt_entry =
  limit_low :: u16
  base_low :: u16
  base_middle :: u8
  access :: u8
  granularity :: u8
  base_high :: u8

record table_ptr =
  ptr_limit :: u16
  ptr_base :: u32

text \<open>The fields of the task state segment that the code sets; the other ones stay 0.\<close>

record tss_entry =
  tss_stack :: u32
  tss_ss0 :: u32
  tss_iomap :: u16

record segments =
  gdt :: "gdt_entry list"
  tss :: tss_entry
  gdtr :: "table_ptr option"
  cs_reg :: u16
  data_regs :: "u16 list"
  task_reg :: u16

definition GDT_ENTRIES :: nat where "GDT_ENTRIES = 6"
definition TSS_SIZE :: u32 where "TSS_SIZE = 104"

definition gdt_set_entry :: "nat \<Rightarrow> u32 \<Rightarrow> u32 \<Rightarrow> u8 \<Rightarrow> u8 \<Rightarrow> 'a segments_scheme \<Rightarrow> 'a segments_scheme option" where
  "gdt_set_entry n base limit acc gran s =
     (if length (gdt s) \<le> n then None
      else Some (s\<lparr>gdt := (gdt s)[n := \<lparr>
        limit_low = ucast (limit AND 0xFFFF),
        base_low = ucast (base AND 0xFFFF),
        base_middle = ucast (drop_bit 16 base AND 0xFF),
        access = acc,
        granularity = ucast (drop_bit 16 limit AND 0x0F) OR (gran AND 0xF0),
        base_high = ucast (drop_bit 24 base AND 0xFF)\<rparr>]\<rparr>))"

definition tss_setup :: "u32 \<Rightarrow> u16 \<Rightarrow> u32 \<Rightarrow> 'a segments_scheme \<Rightarrow> 'a segments_scheme option" where
  "tss_setup tss_addr ss0 esp0 s = do {
     let base = tss_addr;
     let limit = base + TSS_SIZE;
     s \<leftarrow> gdt_set_entry 5 base limit 0x89 0x00 s;
     Some (s\<lparr>tss := \<lparr>tss_stack = esp0, tss_ss0 = ucast ss0, tss_iomap = ucast TSS_SIZE\<rparr>\<rparr>)
   }"

definition gdt_set_kernel_stack :: "u32 \<Rightarrow> 'a segments_scheme \<Rightarrow> 'a segments_scheme" where
  "gdt_set_kernel_stack stack s = s\<lparr>tss := (tss s)\<lparr>tss_stack := stack\<rparr>\<rparr>"

text \<open>\<^verbatim>\<open>lgdt\<close>, the far jump and the five data segment registers.\<close>

definition gdt_flush :: "table_ptr \<Rightarrow> 'a segments_scheme \<Rightarrow> 'a segments_scheme" where
  "gdt_flush p s = s\<lparr>gdtr := Some p, cs_reg := 0x08, data_regs := replicate 5 0x10\<rparr>"

definition flush_tss :: "'a segments_scheme \<Rightarrow> 'a segments_scheme" where
  "flush_tss s = s\<lparr>task_reg := 0x2B\<rparr>"

definition gdt_init :: "u32 \<Rightarrow> u32 \<Rightarrow> 'a segments_scheme \<Rightarrow> 'a segments_scheme option" where
  "gdt_init gdt_addr tss_addr s = do {
     let p = \<lparr>ptr_limit = 8 * of_nat GDT_ENTRIES - 1, ptr_base = gdt_addr\<rparr>;
     s \<leftarrow> gdt_set_entry 0 0 0 0x00 0x00 s;
     s \<leftarrow> gdt_set_entry 1 0 0xFFFFFFFF 0x9A 0xCF s;
     s \<leftarrow> gdt_set_entry 2 0 0xFFFFFFFF 0x92 0xCF s;
     s \<leftarrow> gdt_set_entry 3 0 0xFFFFFFFF 0xFA 0xCF s;
     s \<leftarrow> gdt_set_entry 4 0 0xFFFFFFFF 0xF2 0xCF s;
     s \<leftarrow> tss_setup tss_addr 0x10 0 s;
     Some (flush_tss (gdt_flush p s))
   }"

section \<open>Interrupt gates\<close>

record idt_entry =
  offset_low :: u16
  selector :: u16
  zero_byte :: u8
  type_attr :: u8
  offset_high :: u16

record gates =
  idt :: "idt_entry list"
  idtr :: "table_ptr option"
  int_flag :: bool
  gports :: ports

definition IDT_ENTRIES :: nat where "IDT_ENTRIES = 256"

definition idt_set_gate :: "u8 \<Rightarrow> u32 \<Rightarrow> u16 \<Rightarrow> u8 \<Rightarrow> 'a gates_scheme \<Rightarrow> 'a gates_scheme option" where
  "idt_set_gate num base sel flags s =
     (if length (idt s) \<le> unat num then None
      else Some (s\<lparr>idt := (idt s)[unat num := \<lparr>
        offset_low = ucast (base AND 0xFFFF),
        selector = sel,
        zero_byte = 0,
        type_attr = flags,
        offset_high = ucast (drop_bit 16 base AND 0xFFFF)\<rparr>]\<rparr>))"

text \<open>
  The gates of the initialisation: the exceptions, the interrupts and the system call. The stubs are
  \<open>isr 0\<close> to \<open>isr 19\<close>, \<open>irq 0\<close> to \<open>irq 15\<close> and \<open>isr128\<close>.
\<close>

definition init_gates :: "(nat \<Rightarrow> u32) \<Rightarrow> (nat \<Rightarrow> u32) \<Rightarrow> u32 \<Rightarrow> (u8 \<times> u32 \<times> u16 \<times> u8) list" where
  "init_gates isr irq isr128 =
     map (\<lambda>i. (of_nat i, 0, 0, 0)) [0..<IDT_ENTRIES]
     @ map (\<lambda>i. (of_nat i, isr i, 0x08, 0x8E)) [0..<20]
     @ map (\<lambda>i. (of_nat (32 + i), irq i, 0x08, 0x8E)) [0..<16]
     @ [(128, isr128, 0x08, 0xEE)]"

fun set_gates :: "(u8 \<times> u32 \<times> u16 \<times> u8) list \<Rightarrow> 'a gates_scheme \<Rightarrow> 'a gates_scheme option" where
  "set_gates [] s = Some s"
| "set_gates ((n, base, sel, flags) # gs) s = do { s \<leftarrow> idt_set_gate n base sel flags s; set_gates gs s }"

definition idt_init :: "u32 \<Rightarrow> (nat \<Rightarrow> u32) \<Rightarrow> (nat \<Rightarrow> u32) \<Rightarrow> u32 \<Rightarrow> 'a gates_scheme \<Rightarrow> 'a gates_scheme option" where
  "idt_init idt_addr isr irq isr128 s = do {
     let p = \<lparr>ptr_limit = 8 * of_nat IDT_ENTRIES - 1, ptr_base = idt_addr\<rparr>;
     s \<leftarrow> set_gates (init_gates isr irq isr128) s;
     let s = s\<lparr>gports := pic_remap (gports s)\<rparr>;
     let s = s\<lparr>idtr := Some p, int_flag := True\<rparr>;
     g \<leftarrow> ps2_init (gports s);
     Some (s\<lparr>gports := g\<rparr>)
   }"

section \<open>How the CPU reads the entries\<close>

definition seg_base :: "gdt_entry \<Rightarrow> u32" where
  "seg_base e = ucast (base_low e) OR push_bit 16 (ucast (base_middle e)) OR push_bit 24 (ucast (base_high e))"

definition seg_limit :: "gdt_entry \<Rightarrow> u32" where
  "seg_limit e = ucast (limit_low e) OR push_bit 16 (ucast (granularity e AND 0x0F))"

text \<open>Base, limit, access byte and flags of a segment.\<close>

definition segment :: "gdt_entry \<Rightarrow> u32 \<times> u32 \<times> u8 \<times> u8" where
  "segment e = (seg_base e, seg_limit e, access e, granularity e AND 0xF0)"

text \<open>Offset, selector and attributes of a gate.\<close>

definition gate :: "idt_entry \<Rightarrow> u32 \<times> u16 \<times> u8" where
  "gate e = (ucast (offset_low e) OR push_bit 16 (ucast (offset_high e)), selector e, type_attr e)"

lemma masks: "(0xFFFF :: u32) = mask 16" "(0xFF :: u32) = mask 8" "(0x0F :: u32) = mask 4" "(0x0F :: u8) = mask 4"
  "(0xF0 :: u8) = NOT (mask 4)" "(0xFFFFF :: u32) = mask 20"
  by (simp_all add: mask_eq_exp_minus_1)

lemma halves: "ucast (ucast (v AND 0xFFFF) :: u16) OR push_bit 16 (ucast (ucast (drop_bit 16 v AND 0xFFFF) :: u16)) = v" for v :: u32
proof (rule bit_eqI)
  fix n assume "possible_bit TYPE(u32) n"
  then consider "n < 16" | "16 \<le> n" "n < 32" by fastforce
  then show "bit (ucast (ucast (v AND 0xFFFF) :: u16) OR push_bit 16 (ucast (ucast (drop_bit 16 v AND 0xFFFF) :: u16)) :: u32) n = bit v n"
    unfolding masks by cases (auto simp: bit_simps)
qed

lemma base_parts: "ucast (ucast (v AND 0xFFFF) :: u16) OR push_bit 16 (ucast (ucast (drop_bit 16 v AND 0xFF) :: u8))
    OR push_bit 24 (ucast (ucast (drop_bit 24 v AND 0xFF) :: u8)) = v" for v :: u32
proof (rule bit_eqI)
  fix n assume "possible_bit TYPE(u32) n"
  then consider "n < 16" | "16 \<le> n" "n < 24" | "24 \<le> n" "n < 32" by fastforce
  then show "bit (ucast (ucast (v AND 0xFFFF) :: u16) OR push_bit 16 (ucast (ucast (drop_bit 16 v AND 0xFF) :: u8))
    OR push_bit 24 (ucast (ucast (drop_bit 24 v AND 0xFF) :: u8)) :: u32) n = bit v n"
    unfolding masks by cases (auto simp: bit_simps)
qed

lemma nibbles: "(ucast (w AND 0x0F) OR (g AND 0xF0)) AND 0x0F = (ucast w AND 0x0F :: u8)"
  "(ucast (w AND 0x0F) OR (g AND 0xF0)) AND 0xF0 = (g AND 0xF0 :: u8)" for w :: u32
  unfolding masks by (rule bit_eqI, auto simp: bit_simps)+

lemma limit_parts: "ucast (ucast (v AND 0xFFFF) :: u16) OR push_bit 16 (ucast (ucast (drop_bit 16 v) AND 0x0F :: u8)) = v AND 0xFFFFF" for v :: u32
proof (rule bit_eqI)
  fix n assume "possible_bit TYPE(u32) n"
  then consider "n < 16" | "16 \<le> n" "n < 20" | "20 \<le> n" "n < 32" by fastforce
  then show "bit (ucast (ucast (v AND 0xFFFF) :: u16) OR push_bit 16 (ucast (ucast (drop_bit 16 v) AND 0x0F :: u8)) :: u32) n
      = bit (v AND 0xFFFFF) n"
    unfolding masks by cases (auto simp: bit_simps)
qed

text \<open>What is put into an entry is what the CPU finds there; a limit has 20 bits.\<close>

lemma set_entry_segment:
  assumes "n < length (gdt s)"
  obtains e where "gdt_set_entry n base limit acc gran s = Some (s\<lparr>gdt := (gdt s)[n := e]\<rparr>)"
    "segment e = (base, limit AND 0xFFFFF, acc, gran AND 0xF0)"
proof -
  define e where "e = \<lparr>limit_low = ucast (limit AND 0xFFFF), base_low = ucast (base AND 0xFFFF),
    base_middle = ucast (drop_bit 16 base AND 0xFF), access = acc,
    granularity = ucast (drop_bit 16 limit AND 0x0F) OR (gran AND 0xF0), base_high = ucast (drop_bit 24 base AND 0xFF)\<rparr>"
  have "segment e = (base, limit AND 0xFFFFF, acc, gran AND 0xF0)"
    by (simp only: e_def segment_def seg_base_def seg_limit_def gdt_entry.simps nibbles base_parts limit_parts)
  then show thesis using assms by (intro that [of e]) (simp_all add: gdt_set_entry_def e_def)
qed

lemma set_gate_gate:
  assumes "unat n < length (idt s)"
  obtains e where "idt_set_gate n base sel flags s = Some (s\<lparr>idt := (idt s)[unat n := e]\<rparr>)" "gate e = (base, sel, flags)"
proof -
  define e where "e = \<lparr>offset_low = ucast (base AND 0xFFFF), selector = sel, zero_byte = 0, type_attr = flags,
    offset_high = ucast (drop_bit 16 base AND 0xFFFF)\<rparr>"
  have "gate e = (base, sel, flags)" by (simp only: e_def gate_def idt_entry.simps halves)
  then show thesis using assms by (intro that [of e]) (simp_all add: idt_set_gate_def e_def)
qed

lemma gdt_init_some:
  assumes "length (gdt s) = 6"
  shows "\<exists>t. gdt_init gdt_addr tss_addr s = Some t
    \<and> map segment (gdt t) = [(0, 0, 0, 0), (0, 0xFFFFF, 0x9A, 0xC0), (0, 0xFFFFF, 0x92, 0xC0), (0, 0xFFFFF, 0xFA, 0xC0),
        (0, 0xFFFFF, 0xF2, 0xC0), (tss_addr, (tss_addr + 104) AND 0xFFFFF, 0x89, 0)]
    \<and> gdtr t = Some \<lparr>ptr_limit = 47, ptr_base = gdt_addr\<rparr> \<and> cs_reg t = 8 \<and> data_regs t = replicate 5 16 \<and> task_reg t = 0x2B
    \<and> tss t = \<lparr>tss_stack = 0, tss_ss0 = 16, tss_iomap = 104\<rparr>"
proof -
  obtain a b c d e f where g: "gdt s = [a, b, c, d, e, f]"
    using assms by (auto simp: length_Suc_conv eval_nat_numeral)
  obtain e0 where e0: "gdt_set_entry 0 0 0 0 0 s = Some (s\<lparr>gdt := [e0, b, c, d, e, f]\<rparr>)" "segment e0 = (0, 0, 0, 0)"
    by (rule set_entry_segment [of 0 s 0 0 0 0]) (simp_all add: g)
  obtain e1 where e1: "gdt_set_entry 1 0 0xFFFFFFFF 0x9A 0xCF (s\<lparr>gdt := [e0, b, c, d, e, f]\<rparr>) = Some (s\<lparr>gdt := [e0, e1, c, d, e, f]\<rparr>)"
    "segment e1 = (0, 0xFFFFF, 0x9A, 0xC0)"
    by (rule set_entry_segment [of 1 "s\<lparr>gdt := [e0, b, c, d, e, f]\<rparr>" 0 "0xFFFFFFFF" "0x9A" "0xCF"]) simp_all
  obtain e2 where e2: "gdt_set_entry 2 0 0xFFFFFFFF 0x92 0xCF (s\<lparr>gdt := [e0, e1, c, d, e, f]\<rparr>) = Some (s\<lparr>gdt := [e0, e1, e2, d, e, f]\<rparr>)"
    "segment e2 = (0, 0xFFFFF, 0x92, 0xC0)"
    by (rule set_entry_segment [of 2 "s\<lparr>gdt := [e0, e1, c, d, e, f]\<rparr>" 0 "0xFFFFFFFF" "0x92" "0xCF"]) simp_all
  obtain e3 where e3: "gdt_set_entry 3 0 0xFFFFFFFF 0xFA 0xCF (s\<lparr>gdt := [e0, e1, e2, d, e, f]\<rparr>) = Some (s\<lparr>gdt := [e0, e1, e2, e3, e, f]\<rparr>)"
    "segment e3 = (0, 0xFFFFF, 0xFA, 0xC0)"
    by (rule set_entry_segment [of 3 "s\<lparr>gdt := [e0, e1, e2, d, e, f]\<rparr>" 0 "0xFFFFFFFF" "0xFA" "0xCF"]) simp_all
  obtain e4 where e4: "gdt_set_entry 4 0 0xFFFFFFFF 0xF2 0xCF (s\<lparr>gdt := [e0, e1, e2, e3, e, f]\<rparr>) = Some (s\<lparr>gdt := [e0, e1, e2, e3, e4, f]\<rparr>)"
    "segment e4 = (0, 0xFFFFF, 0xF2, 0xC0)"
    by (rule set_entry_segment [of 4 "s\<lparr>gdt := [e0, e1, e2, e3, e, f]\<rparr>" 0 "0xFFFFFFFF" "0xF2" "0xCF"]) simp_all
  obtain e5 where e5: "gdt_set_entry 5 tss_addr (tss_addr + 104) 0x89 0 (s\<lparr>gdt := [e0, e1, e2, e3, e4, f]\<rparr>)
      = Some (s\<lparr>gdt := [e0, e1, e2, e3, e4, e5]\<rparr>)" "segment e5 = (tss_addr, (tss_addr + 104) AND 0xFFFFF, 0x89, 0)"
    by (rule set_entry_segment [of 5 "s\<lparr>gdt := [e0, e1, e2, e3, e4, f]\<rparr>" tss_addr "tss_addr + 104" "0x89" 0]) simp_all
  show ?thesis
    by (simp add: gdt_init_def tss_setup_def TSS_SIZE_def Let_def flush_tss_def gdt_flush_def GDT_ENTRIES_def
        e0 e1 [simplified] e2 e3 e4 e5)
qed

lemma set_gates_some:
  assumes "length (idt s) = 256"
  shows "\<exists>t. set_gates gs s = Some t \<and> t = s\<lparr>idt := idt t\<rparr> \<and> length (idt t) = 256
    \<and> (\<forall>n<256. gate (idt t ! n) = (case map_of (rev (map (\<lambda>(k, g). (unat k, g)) gs)) n of Some g \<Rightarrow> g | None \<Rightarrow> gate (idt s ! n)))"
  using assms
proof (induction gs arbitrary: s)
  case Nil
  then show ?case by simp
next
  case (Cons g gs)
  obtain k b c f where g: "g = (k, b, c, f)" by (cases g) auto
  have "unat k < length (idt s)" using unsigned_less [of k] Cons.prems by simp
  then obtain e where e: "idt_set_gate k b c f s = Some (s\<lparr>idt := (idt s)[unat k := e]\<rparr>)" "gate e = (b, c, f)"
    by (rule set_gate_gate)
  let ?s = "s\<lparr>idt := (idt s)[unat k := e]\<rparr>"
  obtain t where t: "set_gates gs ?s = Some t" "t = ?s\<lparr>idt := idt t\<rparr>" "length (idt t) = 256"
    "\<forall>n<256. gate (idt t ! n) = (case map_of (rev (map (\<lambda>(k, g). (unat k, g)) gs)) n of Some g \<Rightarrow> g | None \<Rightarrow> gate (idt ?s ! n))"
    using Cons.IH [of ?s] Cons.prems by auto
  have "t = s\<lparr>idt := idt t\<rparr>" by (subst t(2)) simp
  moreover have "set_gates (g # gs) s = Some t" using t(1) e(1) by (simp add: g)
  ultimately show ?case
    using t(3,4) e(2) Cons.prems by (auto simp: g nth_list_update map_add_def split: option.split)
qed

lemma map_of_upt: "map_of (rev (map (\<lambda>i. (a + i, f i)) [0..<k])) n = (if a \<le> n \<and> n < a + k then Some (f (n - a)) else None)"
  by (induction k) auto

lemma map_of_init_gates:
  assumes "n < 256"
  shows "map_of (rev (map (\<lambda>(k, g). (unat k, g)) (init_gates isr irq isr128))) n =
    Some (if n = 128 then (isr128, 8, 0xEE) else if 32 \<le> n \<and> n < 48 then (irq (n - 32), 8, 0x8E)
      else if n < 20 then (isr n, 8, 0x8E) else (0, 0, 0))"
proof -
  have u: "unat (of_nat i :: u8) = i" if "i < 256" for i using that by (simp add: unat_of_nat)
  have u': "unat (32 + of_nat i :: u8) = 32 + i" if "i < 16" for i using u [of "32 + i"] that by simp
  have "map (\<lambda>(k, g). (unat k, g)) (init_gates isr irq isr128) =
      map (\<lambda>i. (0 + i, (0, 0, 0))) [0..<256] @ map (\<lambda>i. (0 + i, (isr i, 8, 0x8E))) [0..<20]
      @ map (\<lambda>i. (32 + i, (irq i, 8, 0x8E))) [0..<16] @ [(128, (isr128, 8, 0xEE))]"
    by (simp add: init_gates_def IDT_ENTRIES_def u u' comp_def del: upt_rec_numeral)
  with assms show ?thesis
    by (simp only: rev_append map_of_append map_add_def map_of_upt) (simp del: upt_rec_numeral)
qed

section \<open>Properties\<close>

lemma idt_init_some:
  assumes "length (idt s) = 256"
    and "input (gports s) 0x64 = full @ idle # rest" "\<forall>v\<in>set full. v AND 1 \<noteq> 0" "idle AND 1 = 0"
    and "input (gports s) 0x60 = junk @ cmd # data" "length junk = length full"
  shows "\<exists>t. idt_init idt_addr isr irq isr128 s = Some t
    \<and> (\<forall>n<256. gate (idt t ! n) = (if n = 128 then (isr128, 8, 0xEE) else if 32 \<le> n \<and> n < 48 then (irq (n - 32), 8, 0x8E)
        else if n < 20 then (isr n, 8, 0x8E) else (0, 0, 0)))
    \<and> idtr t = Some \<lparr>ptr_limit = 2047, ptr_base = idt_addr\<rparr> \<and> int_flag t
    \<and> writes (gports t) = writes (gports s) @ [(0x20, 0x11), (0xA0, 0x11), (0x21, 0x20), (0xA1, 0x28), (0x21, 0x04), (0xA1, 0x02),
        (0x21, 0x01), (0xA1, 0x01), (0x21, 0xFC), (0xA1, 0xFF)] @ [(0x64, 0x20), (0x64, 0x60), (0x60, cmd OR 1), (0x60, 0xF4)]"
proof -
  obtain t where t: "set_gates (init_gates isr irq isr128) s = Some t" "t = s\<lparr>idt := idt t\<rparr>" "length (idt t) = 256"
    "\<forall>n<256. gate (idt t ! n) = (case map_of (rev (map (\<lambda>(k, g). (unat k, g)) (init_gates isr irq isr128))) n of
       Some g \<Rightarrow> g | None \<Rightarrow> gate (idt s ! n))"
    using set_gates_some [OF assms(1)] by blast
  have gp: "gports t = gports s" by (subst t(2)) simp
  let ?g = "pic_remap (gports s)"
  have "input ?g = input (gports s)" by (simp add: pic_remap_def outs_sent)
  then obtain u where u: "ps2_init ?g = Some u" "writes u = writes ?g @ [(0x64, 0x20), (0x64, 0x60), (0x60, cmd OR 1), (0x60, 0xF4)]"
    using ps2_init_sends [of ?g full idle rest junk cmd data] assms by auto
  have "idt_init idt_addr isr irq isr128 s
      = Some (t\<lparr>gports := u, idtr := Some \<lparr>ptr_limit = 2047, ptr_base = idt_addr\<rparr>, int_flag := True\<rparr>)"
    using t(1) u(1) by (simp add: idt_init_def gp Let_def IDT_ENTRIES_def)
  then show ?thesis using t(4) by (simp add: map_of_init_gates u(2) pic_remap_def outs_sent)
qed

text \<open>
  C35. \<^verbatim>\<open>gdt_init\<close> makes six well-formed segments and loads the registers with selectors for them: the
  null segment, code and data of the kernel and of user programs, all flat (base 0, limit 0xFFFFF in
  pages of 4 KB) and present, with the rings 0 and 3 in their access bytes, and the task state segment
  at its address. The stack segment of the task state is the kernel data segment, its I/O map begins
  after it. (The limit of the task state segment is not its size less one, but its end address modulo
  1 MB.)
\<close>

theorem gdt_init_segments:
  assumes "length (gdt s) = 6"
  shows "\<exists>t. gdt_init gdt_addr tss_addr s = Some t
    \<and> map segment (gdt t) = [(0, 0, 0, 0), (0, 0xFFFFF, 0x9A, 0xC0), (0, 0xFFFFF, 0x92, 0xC0), (0, 0xFFFFF, 0xFA, 0xC0),
        (0, 0xFFFFF, 0xF2, 0xC0), (tss_addr, (tss_addr + 104) AND 0xFFFFF, 0x89, 0)]
    \<and> gdtr t = Some \<lparr>ptr_limit = 47, ptr_base = gdt_addr\<rparr> \<and> cs_reg t = 8 \<and> data_regs t = replicate 5 16 \<and> task_reg t = 0x2B
    \<and> tss t = \<lparr>tss_stack = 0, tss_ss0 = 16, tss_iomap = 104\<rparr>"
  by (rule gdt_init_some [OF assms])

text \<open>
  C36. \<^verbatim>\<open>idt_init\<close> fills the interrupt table: the gates of the exceptions 0 to 19 lead to their stubs, the
  gates 32 to 47 to the stubs of the 16 hardware interrupts, gate 128 to the stub of the system call, in
  the kernel code segment; only the last one can be used from ring 3, and every other gate is empty.
  The controllers are set up so that the hardware interrupts come in at 32 and only timer and keyboard
  are let through, and the keyboard controller, emptied first, gets its command byte back with the
  interrupt enabled.
\<close>

theorem idt_init_gates:
  assumes "length (idt s) = 256"
    and "input (gports s) 0x64 = full @ idle # rest" "\<forall>v\<in>set full. v AND 1 \<noteq> 0" "idle AND 1 = 0"
    and "input (gports s) 0x60 = junk @ cmd # data" "length junk = length full"
  shows "\<exists>t. idt_init idt_addr isr irq isr128 s = Some t
    \<and> (\<forall>n<256. gate (idt t ! n) = (if n = 128 then (isr128, 8, 0xEE) else if 32 \<le> n \<and> n < 48 then (irq (n - 32), 8, 0x8E)
        else if n < 20 then (isr n, 8, 0x8E) else (0, 0, 0)))
    \<and> idtr t = Some \<lparr>ptr_limit = 2047, ptr_base = idt_addr\<rparr> \<and> int_flag t
    \<and> writes (gports t) = writes (gports s) @ [(0x20, 0x11), (0xA0, 0x11), (0x21, 0x20), (0xA1, 0x28), (0x21, 0x04), (0xA1, 0x02),
        (0x21, 0x01), (0xA1, 0x01), (0x21, 0xFC), (0xA1, 0xFF)] @ [(0x64, 0x20), (0x64, 0x60), (0x60, cmd OR 1), (0x60, 0xF4)]"
  by (rule idt_init_some [OF assms])

theorem gdt_init_segments_witness:
  "\<exists>t. gdt_init 0x104000 0x104040 \<lparr>gdt = replicate 6 \<lparr>limit_low = 0, base_low = 0, base_middle = 0, access = 0, granularity = 0, base_high = 0\<rparr>,
      tss = \<lparr>tss_stack = 0, tss_ss0 = 0, tss_iomap = 0\<rparr>, gdtr = None, cs_reg = 0, data_regs = [], task_reg = 0\<rparr> = Some t
    \<and> segment (gdt t ! 5) = (0x104040, 0x40A8, 0x89, 0) \<and> segment (gdt t ! 3) = (0, 0xFFFFF, 0xFA, 0xC0)"
proof -
  let ?s = "\<lparr>gdt = replicate 6 \<lparr>limit_low = 0, base_low = 0, base_middle = 0, access = 0, granularity = 0, base_high = 0\<rparr>,
      tss = \<lparr>tss_stack = 0, tss_ss0 = 0, tss_iomap = 0\<rparr>, gdtr = None, cs_reg = 0, data_regs = [], task_reg = 0\<rparr>"
  obtain t where t: "gdt_init 0x104000 0x104040 ?s = Some t"
    "map segment (gdt t) = [(0, 0, 0, 0), (0, 0xFFFFF, 0x9A, 0xC0), (0, 0xFFFFF, 0x92, 0xC0), (0, 0xFFFFF, 0xFA, 0xC0),
        (0, 0xFFFFF, 0xF2, 0xC0), (0x104040, (0x104040 + 104) AND 0xFFFFF, 0x89, 0)]"
    using gdt_init_segments [of ?s "0x104000" "0x104040"] by auto
  have "length (gdt t) = 6" using arg_cong [OF t(2), of length] by simp
  then have "segment (gdt t ! i) = map segment (gdt t) ! i" if "i < 6" for i using that by simp
  from this [of 5] this [of 3] t(1) show ?thesis unfolding t(2) by simp
qed

theorem idt_init_gates_witness:
  "\<exists>t. idt_init 0x105000 (\<lambda>i. 0x100200 + 16 * of_nat i) (\<lambda>i. 0x100400 + 16 * of_nat i) 0x100600
      \<lparr>idt = replicate 256 \<lparr>offset_low = 0, selector = 0, zero_byte = 0, type_attr = 0, offset_high = 0\<rparr>, idtr = None, int_flag = False,
       gports = \<lparr>writes = [], input = (\<lambda>_. [])(0x64 := [1, 0], 0x60 := [0xFA, 0x64])\<rparr>\<rparr> = Some t
    \<and> gate (idt t ! 33) = (0x100410, 8, 0x8E) \<and> gate (idt t ! 128) = (0x100600, 8, 0xEE) \<and> gate (idt t ! 20) = (0, 0, 0)"
proof -
  let ?s = "\<lparr>idt = replicate 256 \<lparr>offset_low = 0, selector = 0, zero_byte = 0, type_attr = 0, offset_high = 0\<rparr>, idtr = None, int_flag = False,
       gports = \<lparr>writes = [], input = (\<lambda>_. [])(0x64 := [1, 0], 0x60 := [0xFA, 0x64])\<rparr>\<rparr>"
  obtain t where t: "idt_init 0x105000 (\<lambda>i. 0x100200 + 16 * of_nat i) (\<lambda>i. 0x100400 + 16 * of_nat i) 0x100600 ?s = Some t"
    "\<forall>n<256. gate (idt t ! n) = (if n = 128 then (0x100600, 8, 0xEE) else if 32 \<le> n \<and> n < 48 then (0x100400 + 16 * of_nat (n - 32), 8, 0x8E)
        else if n < 20 then (0x100200 + 16 * of_nat n, 8, 0x8E) else (0, 0, 0))"
    using idt_init_gates [of ?s "[1]" 0 "[]" "[0xFA]" "0x64" "[]" "0x105000" "\<lambda>i. 0x100200 + 16 * of_nat i" "\<lambda>i. 0x100400 + 16 * of_nat i" "0x100600"]
    by auto
  from t(1) spec [OF t(2), of 33] spec [OF t(2), of 128] spec [OF t(2), of 20] show ?thesis by simp
qed

end
