(* ===== verification/Interrupts.thy ===== *)
theory Interrupts
  imports Shell Scheduling Gdt
begin

text \<open>
  Interrupts and exceptions: \<^verbatim>\<open>drivers/irq.c\<close>, the dispatch in \<^verbatim>\<open>kernel/main.c\<close> and what the stubs of
  \<^verbatim>\<open>kernel/isr_stubs.S\<close> do to the interrupt flag around it. A handler has three outcomes: it returns, it
  has given the CPU to another process and will go on when that gives it back, or it has halted the
  CPU. The keyboard delivers the scan codes the terminal has still to come.
\<close>

unbundle bit_operations_syntax

section \<open>State\<close>

record machine = kernel +
  io :: ports
  int_on :: bool

text \<open>The registers of the caller that the handlers read, and those of a system call.\<close>

record frame = regs +
  int_no :: u32
  err_code :: u32
  f_eip :: u32
  f_cs :: u32
  f_eflags :: u32

datatype outcome = Returned | Switched | Halted

definition eoi :: "int \<Rightarrow> 'a machine_scheme \<Rightarrow> 'a machine_scheme" where
  "eoi irq s = s\<lparr>io := pic_eoi irq (io s)\<rparr>"

section \<open>Hardware interrupts\<close>

definition key_irq :: "'a vfs_scheme \<Rightarrow> 'a vfs_scheme option" where
  "key_irq s = (case scancodes (console s) of [] \<Rightarrow> None
     | sc # rest \<Rightarrow> Some (s\<lparr>console := keyboard_handler sc ((console s)\<lparr>scancodes := rest\<rparr>)\<rparr>))"

text \<open>\<^verbatim>\<open>int irq = r->int_no - 32\<close>. After a switch, the rest of the handler waits on the stack of the process.\<close>

definition irq_handler :: "frame \<Rightarrow> 'a machine_scheme \<Rightarrow> (outcome \<times> 'a machine_scheme) option" where
  "irq_handler r s = do {
     let irq = sint (int_no r - 32);
     if irq = 0 then do {
       p \<leftarrow> scheduler_tick (procs s);
       let t = s\<lparr>procs := p\<rparr>;
       Some (if current_proc p = current_proc (procs s) then (Returned, eoi irq t) else (Switched, t)) }
     else if irq = 1 then do { s \<leftarrow> key_irq s; Some (Returned, eoi irq s) }
     else Some (Returned, eoi irq s)
   }"

text \<open>The stub: interrupts are off during the handler and on again when it returns.\<close>

definition irq_common :: "frame \<Rightarrow> 'a machine_scheme \<Rightarrow> (outcome \<times> 'a machine_scheme) option" where
  "irq_common r s = do {
     (w, s) \<leftarrow> irq_handler r (s\<lparr>int_on := False\<rparr>);
     Some (w, if w = Returned then s\<lparr>int_on := True\<rparr> else s)
   }"

section \<open>Exceptions\<close>

definition exception_msgs :: "string list" where
  "exception_msgs = [''Division by zero'', ''Debug'', ''NMI'', ''Breakpoint'', ''Overflow'', ''Bounds exceeded'',
     ''Invalid opcode'', ''Device not available'', ''Double fault'', ''Coprocessor segment overrun'', ''Invalid TSS'',
     ''Segment not present'', ''Stack segment fault'', ''General protection fault'', ''Page fault'', ''Unknown'',
     ''FPU error'', ''Alignment check'', ''Machine check'', ''SIMD error'']"

text \<open>\<^verbatim>\<open>if (current_proc) kprintf("  Process: ...")\<close>\<close>

definition say_process :: "'a kernel_scheme \<Rightarrow> 'a kernel_scheme option" where
  "say_process s =
     (if current_proc (procs s) = None then Some s
      else do { p \<leftarrow> cur_proc s; kprintf (line_lit ''  Process: %s (pid %d)'') [VStr (Some (pname p)), VWord (pid p)] s })"

text \<open>The test for copy on write has an empty body.\<close>

definition handle_page_fault :: "u32 \<Rightarrow> frame \<Rightarrow> 'a kernel_scheme \<Rightarrow> (outcome \<times> 'a kernel_scheme) option" where
  "handle_page_fault cr2 r s = do {
     s \<leftarrow> puts ([10] @ line_lit ''*** KERNEL PANIC: Page Fault ***'') s;
     s \<leftarrow> kprintf (line_lit ''  Address: 0x%x  EIP: 0x%x  Error: 0x%x'') [VWord cr2, VWord (f_eip r), VWord (err_code r)] s;
     s \<leftarrow> say_process s;
     Some (Halted, s)
   }"

definition isr_handler :: "u32 \<Rightarrow> frame \<Rightarrow> 'a kernel_scheme \<Rightarrow> (outcome \<times> 'a kernel_scheme) option" where
  "isr_handler cr2 r s =
     (if int_no r = 14 then handle_page_fault cr2 r s
      else if int_no r < 20 then do {
        s \<leftarrow> puts ([10] @ lit ''*** EXCEPTION: '') s;
        s \<leftarrow> puts (lit (exception_msgs ! unat (int_no r))) s;
        s \<leftarrow> puts (line_lit '' ***'') s;
        s \<leftarrow> kprintf (line_lit ''  EIP: 0x%x  CS: 0x%x  EFLAGS: 0x%x'') [VWord (f_eip r), VWord (f_cs r), VWord (f_eflags r)] s;
        s \<leftarrow> say_process s;
        Some (Halted, s) }
      else Some (Returned, s))"

text \<open>The handler all stubs call: a system call, with the registers it leaves and the memory it writes, or an exception.\<close>

definition isr_handler_ext :: "('a kernel_scheme \<Rightarrow> 'a kernel_scheme option) \<Rightarrow> bytestr \<Rightarrow> (u32 \<Rightarrow> bytestr) \<Rightarrow> u32
    \<Rightarrow> frame \<Rightarrow> 'a kernel_scheme \<Rightarrow> (outcome \<times> frame \<times> (u32 \<times> bytestr) option \<times> 'a kernel_scheme) option" where
  "isr_handler_ext shell stack mem cr2 r s =
     (if int_no r = 128 then do {
        (v, w, s) \<leftarrow> syscall_dispatch shell stack mem (regs.truncate r) s;
        Some (case v of None \<Rightarrow> (Switched, r, w, s) | Some q \<Rightarrow> (Returned, r\<lparr>r_eax := r_eax q\<rparr>, w, s)) }
      else do { (out, s) \<leftarrow> isr_handler cr2 r s; Some (out, r, None, s) })"

section \<open>Acknowledging interrupts\<close>

lemma machine_procs: "int_on (s\<lparr>procs := p\<rparr>) = int_on s" "io (s\<lparr>procs := p\<rparr>) = io s" for s :: "'a machine_scheme"
  by simp_all

lemma pic_eoi_writes: "writes (pic_eoi irq s) = writes s @ (if 8 \<le> irq then [(0xA0, 0x20)] else []) @ [(0x20, 0x20)]"
  by (simp add: pic_eoi_def outb_def)

lemma sint_irq: "irq < 16 \<Longrightarrow> sint irq = int (unat irq)" for irq :: u32
  by (rule sint_small) (simp add: word_less_nat_alt)

lemma tick_some:
  assumes "sched_inv s"
  obtains t where "scheduler_tick s = Some t" "sched_inv t"
proof -
  obtain c where "sched_pre s c" using assms by (auto simp: sched_inv_def)
  then show thesis using that by (rule tick_inv)
qed

lemma irq_cases:
  assumes "sched_inv (procs s)" "int_no r = 32 + irq" "irq < 16" "irq = 1 \<longrightarrow> scancodes (console s) \<noteq> []"
  shows "\<exists>w t. irq_common r s = Some (w, t) \<and> sched_inv (procs t)
    \<and> (if w = Switched then irq = 0 \<and> current_proc (procs t) \<noteq> current_proc (procs s) \<and> \<not> int_on t \<and> io t = io s
       else w = Returned \<and> current_proc (procs t) = current_proc (procs s) \<and> int_on t
         \<and> writes (io t) = writes (io s) @ (if 8 \<le> irq then [(0xA0, 0x20)] else []) @ [(0x20, 0x20)])"
proof -
  have irq: "sint (int_no r - 32) = int (unat irq)" using assms(2,3) by (simp add: sint_irq)
  have eight: "8 \<le> uint irq \<longleftrightarrow> 8 \<le> irq" by (simp add: word_le_def)
  consider "irq = 0" | "irq = 1" | "irq \<noteq> 0" "irq \<noteq> 1" by blast
  then show ?thesis
  proof cases
    case 1
    obtain p where p: "scheduler_tick (procs s) = Some p" "sched_inv p" by (rule tick_some [OF assms(1)])
    show ?thesis
      using 1 p irq by (cases "current_proc p = current_proc (procs s)")
        (auto simp: irq_common_def irq_handler_def eoi_def pic_eoi_writes)
  next
    case 2
    then obtain sc rest where "scancodes (console s) = sc # rest" using assms(4) by (cases "scancodes (console s)") auto
    moreover have "\<not> 8 \<le> (1 :: u32)" by (simp add: word_le_nat_alt)
    ultimately show ?thesis using 2 irq assms(1) by (simp add: irq_common_def irq_handler_def key_irq_def eoi_def pic_eoi_writes)
  next
    case 3
    then have "unat irq \<noteq> 0" "unat irq \<noteq> 1" by (simp_all add: word_unat_eq_iff)
    then have "int (unat irq) \<noteq> 0" "int (unat irq) \<noteq> 1" by linarith+
    with 3 irq assms(1) show ?thesis
      by (simp add: irq_common_def irq_handler_def Let_def eoi_def pic_eoi_writes eight)
  qed
qed

section \<open>What an exception shows\<close>

definition hexa :: "u32 \<Rightarrow> bytestr" where
  "hexa v = (if v = 0 then [chr CHR ''0''] else rev (digits 16 (unat v)))"

lemma digits_no_tab: "2 \<le> b \<Longrightarrow> b \<le> 16 \<Longrightarrow> 9 \<notin> set (digits b n)"
proof (induction n rule: less_induct)
  case (less n)
  have "n mod b < 16" using less.prems by (intro less_le_trans [OF mod_less_divisor]) auto
  moreover have "\<forall>d\<in>set [0..<16]. hex_digits ! d \<noteq> 9" by code_simp
  ultimately have "hex_digits ! (n mod b) \<noteq> 9" by auto
  with less show ?case by (cases "n = 0") (simp_all add: digits_step)
qed

lemma hexa_chars: "length (hexa v) \<le> 8" "0 \<notin> set (hexa v)" "9 \<notin> set (hexa v)"
proof -
  have "unat v < 16 ^ 8" using unat_u32_lt [of v] by simp
  then show "length (hexa v) \<le> 8" using digits_length [of 16 "unat v" 8] by (simp add: hexa_def)
  show "0 \<notin> set (hexa v)" using digits_nonzero [of 16 "unat v"] by (simp add: hexa_def)
  show "9 \<notin> set (hexa v)" using digits_no_tab [of 16 "unat v"] by (simp add: hexa_def)
qed

lemma itoa_hexa:
  assumes "33 \<le> length buf"
  shows "itoa_buf v buf 16 True = Some (hexa v @ 0 # drop (Suc (length (hexa v))) buf)"
proof -
  have "unat v < 16 ^ 8" using unat_u32_lt [of v] by simp
  then have "v \<noteq> 0 \<Longrightarrow> itoa_loop 16 v [] = Some (digits 16 (unat v))"
    by (subst itoa_loop_digits [where b = 16 and k = 8]) simp_all
  then have "itoa_buf v buf 16 True = strcpy buf (hexa v @ [0])"
    by (cases "v = 0") (simp_all add: itoa_buf_def hexa_def Let_def)
  also have "\<dots> = Some (hexa v @ 0 # drop (Suc (length (hexa v))) buf)"
    using hexa_chars [of v] assms by (intro strcpy_c c_string_make) simp_all
  finally show ?thesis .
qed

lemma render_char: "c \<noteq> 0 \<Longrightarrow> c \<noteq> chr CHR ''%'' \<Longrightarrow> render (c # f) ap = map_option (Cons c) (render f ap)"
  by (simp add: render.simps [of "c # f"])

lemma render_end: "render (0 # f) ap = Some []"
  by (simp add: render.simps)

lemma render_text:
  assumes "\<not> is_digit c" "convert c ap = Some (Text t, ap')" "c_string out t"
  shows "render (chr CHR ''%'' # c # f) ap = map_option (append out) (render f ap')"
proof -
  have "c \<noteq> chr CHR ''0''" using assms(1) by (auto simp: is_digit_def)
  then have "directive (c # f) = Some (False, 0, c, f)" using assms(1) by (simp add: directive_def)
  moreover have "take (length out) t = out" using assms(3) by (auto simp: c_string_def)
  ultimately show ?thesis using assms(2,3)
    by (subst render.simps) (simp add: render_item_def)
qed

lemma render_x: "render (chr CHR ''%'' # chr CHR ''x'' # f) (VWord v # ap) = map_option (append (hexa v)) (render f ap)"
proof (rule render_text)
  show "convert (chr CHR ''x'') (VWord v # ap) = Some (Text (hexa v @ 0 # drop (Suc (length (hexa v))) tmp64), ap)"
    using itoa_hexa [of tmp64 v] by (simp add: convert_def tmp64_def)
  show "c_string (hexa v) (hexa v @ 0 # drop (Suc (length (hexa v))) tmp64)" using hexa_chars by (intro c_string_make)
qed (simp add: is_digit_def)

lemma render_s: "c_string xs str \<Longrightarrow> render (chr CHR ''%'' # chr CHR ''s'' # f) (VStr (Some str) # ap) = map_option (append xs) (render f ap)"
  by (rule render_text) (simp_all add: is_digit_def convert_def)

lemma render_d:
  assumes "v \<noteq> 0x80000000"
  shows "render (chr CHR ''%'' # chr CHR ''d'' # f) (VWord v # ap) = map_option (append (decimal (sint v))) (render f ap)"
proof (rule render_text)
  show "convert (chr CHR ''d'') (VWord v # ap) = Some (Text (decimal (sint v) @ 0 # drop (Suc (length (decimal (sint v)))) tmp64), ap)"
    using itoa_decimal [OF assms, of tmp64] by (simp add: convert_def tmp64_def)
  have "0 \<notin> set (decimal (sint v))" using sint_ge [of v] sint_lt [of v] by (intro decimal_length(2)) simp_all
  then show "c_string (decimal (sint v)) (decimal (sint v) @ 0 # drop (Suc (length (decimal (sint v)))) tmp64)" by (rule c_string_make)
qed (simp add: is_digit_def)


text \<open>An action that only puts a text on the screen.\<close>

definition emits :: "('a vfs_scheme \<Rightarrow> 'a vfs_scheme option) \<Rightarrow> bytestr \<Rightarrow> 'a vfs_scheme \<Rightarrow> bool" where
  "emits f xs s \<longleftrightarrow> (\<forall>T. displays (console s) T \<longrightarrow>
     (\<exists>c. f s = Some (s\<lparr>console := c\<rparr>) \<and> displays c (fold type_char xs T)))"

lemma emitsD: "emits f xs s \<Longrightarrow> displays (console s) T \<Longrightarrow> \<exists>c. f s = Some (s\<lparr>console := c\<rparr>) \<and> displays c (fold type_char xs T)"
  by (simp only: emits_def)

lemma emits_cong: "f s = g s \<Longrightarrow> emits f xs s = emits g xs s"
  by (simp add: emits_def)

lemma emits_seq:
  assumes "emits f xs s" "\<And>c. emits g ys (s\<lparr>console := c\<rparr>)"
  shows "emits (\<lambda>s. f s \<bind> g) (xs @ ys) s"
  unfolding emits_def
proof (intro allI impI)
  fix T assume "displays (console s) T"
  from emitsD [OF assms(1) this]
  obtain c where c: "f s = Some (s\<lparr>console := c\<rparr>)" "displays c (fold type_char xs T)" by blast
  moreover obtain c' where "g (s\<lparr>console := c\<rparr>) = Some (s\<lparr>console := c'\<rparr>)" "displays c' (fold type_char ys (fold type_char xs T))"
    using emitsD [OF assms(2) [of c], of "fold type_char xs T"] c(2) by auto
  ultimately show "\<exists>c. f s \<bind> g = Some (s\<lparr>console := c\<rparr>) \<and> displays c (fold type_char (xs @ ys) T)" by auto
qed

lemma emits_nothing: "emits Some [] s"
  by (auto simp: emits_def intro: exI [of _ "console s"])

lemma emits_puts:
  assumes "0 \<notin> set xs" "printable xs"
  shows "emits (puts (xs @ [0])) xs s"
proof -
  have "\<forall>c\<in>set xs. c \<noteq> 0 \<and> c \<noteq> 9" using assms by (auto simp: printable_def)
  note puts = puts_displays [OF this]
  show ?thesis unfolding emits_def
  proof (intro allI impI)
    fix T assume "displays (console s) T"
    from puts [OF this] show "\<exists>c. puts (xs @ [0]) s = Some (s\<lparr>console := c\<rparr>) \<and> displays c (fold type_char xs T)"
      by (auto simp: puts_def)
  qed
qed

lemma kputs_tty_puts: "kputs_both str s = map_option (\<lambda>t. s\<lparr>console := t\<rparr>) (tty_puts str (console s))"
proof (induction str s rule: kputs_both.induct)
  case (2 c str s)
  show ?case
  proof (cases "tty_putchar c (console s)")
    case (Some t)
    then show ?thesis using "2.IH" [of t] by (cases "tty_puts str t") auto
  qed simp
qed simp

lemma emits_kprintf:
  assumes "render fmt ap = Some out" "0 \<notin> set out" "printable out" "length out < 512"
  shows "emits (kprintf fmt ap) out s"
proof -
  have "min (length out) (unat (512 :: u32) - 1) = length out" using assms(4) by simp
  then have v: "vsnprintf (replicate 512 0) 512 fmt ap = Some (of_nat (length out), out @ 0 # drop (Suc (length out)) (replicate 512 0))"
    using vsnprintf_render [OF assms(1), of 512 "replicate 512 0"] by (simp add: Let_def)
  have "tty_puts (out @ 0 # r) t = tty_puts (out @ [0]) t" for r t
    using assms(2) by (induction out arbitrary: t) (auto split: option.splits bind_splits)
  from this [of "replicate (511 - length out) 0"] have "kprintf fmt ap s = puts (out @ [0]) s"
    by (simp add: kprintf_def v kputs_tty_puts puts_def)
  then show ?thesis using emits_puts [OF assms(2,3), of s] emits_cong by blast
qed

text \<open>The texts of a report.\<close>

abbreviation chars :: "string \<Rightarrow> bytestr" where
  "chars t \<equiv> map of_char t"

definition process_line :: "'a kernel_scheme \<Rightarrow> bytestr \<Rightarrow> bytestr" where
  "process_line s nm = (case cur_proc s of None \<Rightarrow> []
     | Some p \<Rightarrow> chars ''  Process: '' @ nm @ chars '' (pid '' @ decimal (sint (pid p)) @ chars '')'' @ [10])"

definition three_regs :: "string \<Rightarrow> u32 \<Rightarrow> string \<Rightarrow> u32 \<Rightarrow> string \<Rightarrow> u32 \<Rightarrow> bytestr" where
  "three_regs x a y b z c = chars x @ hexa a @ chars y @ hexa b @ chars z @ hexa c @ [10]"

definition exception_text :: "u32 \<Rightarrow> frame \<Rightarrow> bytestr" where
  "exception_text cr2 r =
     (if int_no r = 14
      then ([10] @ chars ''*** KERNEL PANIC: Page Fault ***'' @ [10])
        @ three_regs ''  Address: 0x'' cr2 ''  EIP: 0x'' (f_eip r) ''  Error: 0x'' (err_code r)
      else ([10] @ chars ''*** EXCEPTION: '') @ chars (exception_msgs ! unat (int_no r)) @ (chars '' ***'' @ [10])
        @ three_regs ''  EIP: 0x'' (f_eip r) ''  CS: 0x'' (f_cs r) ''  EFLAGS: 0x'' (f_eflags r))"

lemma regs_render:
  "render (line_lit ''  EIP: 0x%x  CS: 0x%x  EFLAGS: 0x%x'') [VWord a, VWord b, VWord c]
    = Some (three_regs ''  EIP: 0x'' a ''  CS: 0x'' b ''  EFLAGS: 0x'' c)"
  by (simp add: three_regs_def render_char render_end render_x [simplified])

lemma fault_render:
  "render (line_lit ''  Address: 0x%x  EIP: 0x%x  Error: 0x%x'') [VWord a, VWord b, VWord c]
    = Some (three_regs ''  Address: 0x'' a ''  EIP: 0x'' b ''  Error: 0x'' c)"
  by (simp add: three_regs_def render_char render_end render_x [simplified])

lemma process_render:
  assumes "c_string nm (pname p)" "pid p \<noteq> 0x80000000"
  shows "render (line_lit ''  Process: %s (pid %d)'') [VStr (Some (pname p)), VWord (pid p)]
    = Some (chars ''  Process: '' @ nm @ chars '' (pid '' @ decimal (sint (pid p)) @ chars '')'' @ [10])"
  using assms by (simp add: render_char render_end render_s [simplified] render_d [simplified])

lemma decimal_chars: "length (decimal (sint v)) \<le> 11" "0 \<notin> set (decimal (sint v))" "9 \<notin> set (decimal (sint v))" for v :: u32
proof -
  have "- 2147483648 \<le> sint v" "sint v < 4294967296" using sint_ge [of v] sint_lt [of v] by simp_all
  then show "length (decimal (sint v)) \<le> 11" "0 \<notin> set (decimal (sint v))" by (intro decimal_length; simp)+
  show "9 \<notin> set (decimal (sint v))" using digits_no_tab [of 10] by (simp add: decimal_def)
qed

lemma three_regs_chars:
  assumes "length x + length y + length z < 400" "0 \<notin> set (chars (x @ y @ z))" "9 \<notin> set (chars (x @ y @ z))"
  shows "0 \<notin> set (three_regs x a y b z c)" "printable (three_regs x a y b z c)" "length (three_regs x a y b z c) < 512"
  using assms hexa_chars [of a] hexa_chars [of b] hexa_chars [of c] by (auto simp: three_regs_def printable_def)

text \<open>Whether there is a current process, and one whose entry can be shown: its name is \<open>nm\<close>.\<close>

definition names_process :: "bytestr \<Rightarrow> 'a kernel_scheme \<Rightarrow> bool" where
  "names_process nm s \<longleftrightarrow> (current_proc (procs s) \<noteq> None \<longrightarrow> (\<exists>p. cur_proc s = Some p \<and> c_string nm (pname p)
      \<and> printable nm \<and> length nm < 32 \<and> pid p \<noteq> 0x80000000))"

lemma console_irrelevant [simp]: "process_line (s\<lparr>console := c\<rparr>) nm = process_line s nm"
  "names_process nm (s\<lparr>console := c\<rparr>) = names_process nm s"
  by (simp_all add: process_line_def names_process_def cur_proc_def cur_def)

lemma emits_process:
  assumes "names_process nm s"
  shows "emits say_process (process_line s nm) s"
proof (cases "current_proc (procs s) = None")
  case True
  then have "process_line s nm = []" by (simp add: process_line_def cur_proc_def cur_def current_def)
  with True emits_nothing [of s] show ?thesis by (simp add: emits_def say_process_def)
next
  case False
  then obtain p where p: "cur_proc s = Some p" "c_string nm (pname p)" "printable nm" "length nm < 32" "pid p \<noteq> 0x80000000"
    using assms by (auto simp: names_process_def)
  have "0 \<notin> set nm" using p(2) by (simp add: c_string_def)
  then have "emits (kprintf (line_lit ''  Process: %s (pid %d)'') [VStr (Some (pname p)), VWord (pid p)])
      (chars ''  Process: '' @ nm @ chars '' (pid '' @ decimal (sint (pid p)) @ chars '')'' @ [10]) s"
    using p(3,4) decimal_chars [of "pid p"]
    by (intro emits_kprintf process_render [OF p(2,5)]) (simp_all add: printable_def)
  moreover have "say_process s = kprintf (line_lit ''  Process: %s (pid %d)'') [VStr (Some (pname p)), VWord (pid p)] s"
    using False p(1) by (auto simp: say_process_def)
  ultimately show ?thesis using p(1) emits_cong [of say_process s] by (simp only: process_line_def option.case)
qed

lemma msgs_ok: "i < 20 \<Longrightarrow> 0 \<notin> set (chars (exception_msgs ! i)) \<and> printable (chars (exception_msgs ! i))"
proof -
  assume "i < 20"
  moreover have "\<forall>i\<in>set [0..<20]. 0 \<notin> set (chars (exception_msgs ! i)) \<and> 9 \<notin> set (chars (exception_msgs ! i))" by code_simp
  ultimately show ?thesis by (simp add: printable_def)
qed

lemma fault_emits:
  assumes "names_process nm s"
  shows "emits (\<lambda>s. puts (([10] @ chars ''*** KERNEL PANIC: Page Fault ***'' @ [10]) @ [0]) s \<bind>
     (\<lambda>s. kprintf (line_lit ''  Address: 0x%x  EIP: 0x%x  Error: 0x%x'') [VWord a, VWord b, VWord c] s \<bind> say_process))
   (([10] @ chars ''*** KERNEL PANIC: Page Fault ***'' @ [10]) @ three_regs ''  Address: 0x'' a ''  EIP: 0x'' b ''  Error: 0x'' c @ process_line s nm) s"
proof (intro emits_seq)
  show "emits say_process (process_line s nm) (s\<lparr>console := d, console := e\<rparr>)" for d e
    using emits_process [of nm "s\<lparr>console := d, console := e\<rparr>"] assms by simp
  show "emits (kprintf (line_lit ''  Address: 0x%x  EIP: 0x%x  Error: 0x%x'') [VWord a, VWord b, VWord c])
    (three_regs ''  Address: 0x'' a ''  EIP: 0x'' b ''  Error: 0x'' c) (s\<lparr>console := d\<rparr>)" for d
    by (intro emits_kprintf fault_render three_regs_chars) simp_all
qed (intro emits_puts; simp add: printable_def)

lemma exception_emits:
  assumes "names_process nm s" "i < 20"
  shows "emits (\<lambda>s. puts (([10] @ chars ''*** EXCEPTION: '') @ [0]) s \<bind>
     (\<lambda>s. puts (chars (exception_msgs ! i) @ [0]) s \<bind> (\<lambda>s. puts ((chars '' ***'' @ [10]) @ [0]) s \<bind>
     (\<lambda>s. kprintf (line_lit ''  EIP: 0x%x  CS: 0x%x  EFLAGS: 0x%x'') [VWord a, VWord b, VWord c] s \<bind> say_process))))
   (([10] @ chars ''*** EXCEPTION: '') @ chars (exception_msgs ! i) @ (chars '' ***'' @ [10])
      @ three_regs ''  EIP: 0x'' a ''  CS: 0x'' b ''  EFLAGS: 0x'' c @ process_line s nm) s"
proof (intro emits_seq)
  show "emits say_process (process_line s nm) (s\<lparr>console := d, console := e, console := f, console := g\<rparr>)" for d e f g
    using emits_process [of nm "s\<lparr>console := d, console := e, console := f, console := g\<rparr>"] assms(1) by simp
  show "emits (kprintf (line_lit ''  EIP: 0x%x  CS: 0x%x  EFLAGS: 0x%x'') [VWord a, VWord b, VWord c])
    (three_regs ''  EIP: 0x'' a ''  CS: 0x'' b ''  EFLAGS: 0x'' c) (s\<lparr>console := d, console := e, console := f\<rparr>)" for d e f
    by (intro emits_kprintf regs_render three_regs_chars) simp_all
  show "emits (puts (chars (exception_msgs ! i) @ [0])) (chars (exception_msgs ! i)) (s\<lparr>console := d\<rparr>)" for d
    using msgs_ok [OF assms(2)] by (intro emits_puts) simp_all
qed (intro emits_puts; simp add: printable_def)+

lemma halt_after: "map_option (Pair Halted) m = m \<bind> (\<lambda>s. Some (Halted, s))"
  by (cases m) simp_all

lemma exception_reported:
  assumes "int_no r < 20" "names_process nm s" "displays (console s) T"
  shows "\<exists>c. isr_handler cr2 r s = Some (Halted, s\<lparr>console := c\<rparr>)
    \<and> displays c (fold type_char (exception_text cr2 r @ process_line s nm) T)"
proof (cases "int_no r = 14")
  case True
  have "isr_handler cr2 r s = map_option (Pair Halted) (puts (([10] @ chars ''*** KERNEL PANIC: Page Fault ***'' @ [10]) @ [0]) s \<bind>
     (\<lambda>s. kprintf (line_lit ''  Address: 0x%x  EIP: 0x%x  Error: 0x%x'') [VWord cr2, VWord (f_eip r), VWord (err_code r)] s \<bind> say_process))"
    by (simp only: isr_handler_def handle_page_fault_def True simp_thms if_True halt_after Option.bind_assoc append_assoc append_Cons append_Nil)
  with emitsD [OF fault_emits [OF assms(2)] assms(3), of cr2 "f_eip r" "err_code r"] True
  show ?thesis by (auto simp only: exception_text_def simp_thms if_True option.map append_assoc)
next
  case False
  have "isr_handler cr2 r s = map_option (Pair Halted) (puts (([10] @ chars ''*** EXCEPTION: '') @ [0]) s \<bind>
     (\<lambda>s. puts (chars (exception_msgs ! unat (int_no r)) @ [0]) s \<bind> (\<lambda>s. puts ((chars '' ***'' @ [10]) @ [0]) s \<bind>
     (\<lambda>s. kprintf (line_lit ''  EIP: 0x%x  CS: 0x%x  EFLAGS: 0x%x'') [VWord (f_eip r), VWord (f_cs r), VWord (f_eflags r)] s \<bind> say_process))))"
    using False assms(1) by (simp only: isr_handler_def simp_thms if_True if_False halt_after Option.bind_assoc append_assoc append_Cons append_Nil)
  moreover have "unat (int_no r) < 20" using assms(1) by (simp add: word_less_nat_alt)
  ultimately show ?thesis
    using emitsD [OF exception_emits [OF assms(2)] assms(3), of "unat (int_no r)" "f_eip r" "f_cs r" "f_eflags r"] False
    by (auto simp only: exception_text_def simp_thms if_False option.map append_assoc)
qed

text \<open>
  A process that is switched to for the first time begins at its entry with interrupts off and, when
  the switch was made by the timer, with the timer interrupt not acknowledged: the controller lets no
  further interrupt through, not even one of the keyboard, until the process that was interrupted
  goes on.
\<close>

lemma new_process_unacknowledged:
  assumes "sched_inv (procs s)" and "proc_create_kernel start name (procs s) = Some (Some i, t)"
    and "scheduler_tick t = Some u" and "current_proc u = Some i" and "current_proc t \<noteq> Some i"
    and "unat (table_addr (procs s)) + 561920 \<le> 4294967296" and "28 \<le> unat (r_esp (cpu_regs (procs s)))"
    and "unat (r_esp (cpu_regs (procs s))) \<le> unat (kstack (procs s) i)
      \<or> unat (kstack (procs s) i) + 8220 \<le> unat (r_esp (cpu_regs (procs s)))"
    and "int_no r = 32"
  shows "\<exists>w. irq_common r (s\<lparr>procs := t\<rparr>) = Some (Switched, w) \<and> r_eip (cpu_regs (procs w)) = start
    \<and> \<not> int_on w \<and> io w = io s"
proof -
  have "r_eip (cpu_regs u) = start" using new_process_entry [OF assms(1-4,6-8)] by simp
  then show ?thesis using assms(3,4,5,9) by (simp add: irq_common_def irq_handler_def)
qed

section \<open>Properties\<close>

text \<open>
  C37. A hardware interrupt is acknowledged exactly when it returns: then the end of interrupt has gone
  to the first controller, and before it to the second one for the interrupts 8 to 15, interrupts are
  on and the process is the same. Only a timer interrupt does anything else: when it switches to
  another process nothing has been sent to the controllers and interrupts stay off. The invariant of
  the scheduler is kept.
\<close>

theorem irq_acknowledged:
  assumes "sched_inv (procs s)" and "int_no r = 32 + irq" and "irq < 16" and "irq = 1 \<longrightarrow> scancodes (console s) \<noteq> []"
  shows "\<exists>w t. irq_common r s = Some (w, t) \<and> sched_inv (procs t)
    \<and> (if w = Switched then irq = 0 \<and> current_proc (procs t) \<noteq> current_proc (procs s) \<and> \<not> int_on t \<and> io t = io s
       else w = Returned \<and> current_proc (procs t) = current_proc (procs s) \<and> int_on t
         \<and> writes (io t) = writes (io s) @ (if 8 \<le> irq then [(0xA0, 0x20)] else []) @ [(0x20, 0x20)])"
  by (rule irq_cases [OF assms])


definition some_frame :: "u32 \<Rightarrow> frame" where
  "some_frame n = \<lparr>r_eax = 0, a_ebx = 0, a_ecx = 0, a_edx = 0, int_no = n, err_code = 0, f_eip = 0x1001F0, f_cs = 8, f_eflags = 0x202\<rparr>"

definition some_machine :: machine where
  "some_machine = kernel.extend (some_kernel\<lparr>procs := some_sys PROC_READY PROC_RUNNING PROC_READY 1\<rparr>)
     \<lparr>io = \<lparr>writes = [], input = (\<lambda>_. [])\<rparr>, int_on = True\<rparr>"

theorem irq_acknowledged_witness:
  "\<exists>t. irq_common (some_frame 41) some_machine = Some (Returned, t) \<and> int_on t \<and> writes (io t) = [(0xA0, 0x20), (0x20, 0x20)]"
proof -
  have "sched_inv (some_sys PROC_READY PROC_RUNNING PROC_READY 1)" by (rule some_sys_inv) (simp_all add: some_sys_at)
  then have "sched_inv (procs some_machine)" "writes (io some_machine) = []" by (simp_all add: some_machine_def kernel.extend_def)
  moreover have "9 < (16 :: u32)" "8 \<le> (9 :: u32)" by (simp_all add: word_less_nat_alt word_le_nat_alt)
  ultimately show ?thesis
    using irq_acknowledged [of some_machine "some_frame 41" 9] by (force simp: some_frame_def split: if_splits)
qed


end
