(* ===== verification/Stubs.thy ===== *)
theory Stubs
  imports Interrupts
begin

text \<open>
  The assembly parts: the interrupt stubs of \<^verbatim>\<open>kernel/isr_stubs.S\<close> and the entry of the kernel in
  \<^verbatim>\<open>boot/boot.S\<close>, as functions on the registers, the segment registers, the flags and the bytes of
  the memory. The instructions are those the two files use; the handler of an interrupt is a parameter
  with the contract of a C function. A stack is described by the list of the words on it, so that
  every push and every pop is one lemma.
\<close>

unbundle bit_operations_syntax

section \<open>The processor\<close>

datatype reg32 = EAX | ECX | EDX | EBX | ESP | EBP | ESI | EDI
datatype sreg = CS | DS | ES | FS | GS

text \<open>
  The registers are a class of finitely many values: a statement about all of them is computed one by
  one, and two register files are compared as functions.
\<close>

instantiation reg32 :: enum
begin

definition enum_reg32_def: "enum_class.enum = [EAX, ECX, EDX, EBX, ESP, EBP, ESI, EDI]"
definition enum_all_reg32_def: "enum_class.enum_all P = list_all P [EAX, ECX, EDX, EBX, ESP, EBP, ESI, EDI]"
definition enum_ex_reg32_def: "enum_class.enum_ex P = list_ex P [EAX, ECX, EDX, EBX, ESP, EBP, ESI, EDI]"

instance
proof
  show all: "(UNIV :: reg32 set) = set enum_class.enum" by (auto simp: enum_reg32_def intro: reg32.exhaust)
  show "distinct (enum_class.enum :: reg32 list)" by (simp add: enum_reg32_def)
  show "enum_class.enum_all P = Ball UNIV P" "enum_class.enum_ex P = Bex UNIV P" for P :: "reg32 \<Rightarrow> bool"
    unfolding all by (simp_all add: enum_reg32_def enum_all_reg32_def enum_ex_reg32_def)
qed

end

lemma gpr_eq_iff: "f = g \<longleftrightarrow> list_all (\<lambda>r. f r = g r) [EAX, ECX, EDX, EBX, ESP, EBP, ESI, EDI]" for f g :: "reg32 \<Rightarrow> 'b"
  using enum_all_UNIV [of "\<lambda>r. f r = g r"] unfolding enum_all_reg32_def by (simp add: fun_eq_iff)

record x86 =
  gpr :: "reg32 \<Rightarrow> u32"
  sr :: "sreg \<Rightarrow> u16"
  ip :: u32
  flags :: u32
  ram :: bytes

text \<open>The interrupt flag is bit 9 of the flags.\<close>

definition IF_FLAG :: u32 where "IF_FLAG = 0x200"

definition cli :: "x86 \<Rightarrow> x86" where "cli s = s\<lparr>flags := flags s AND NOT IF_FLAG\<rparr>"
definition sti :: "x86 \<Rightarrow> x86" where "sti s = s\<lparr>flags := flags s OR IF_FLAG\<rparr>"

definition pushl :: "u32 \<Rightarrow> x86 \<Rightarrow> x86" where
  "pushl v s = (let a = gpr s ESP - 4 in s\<lparr>gpr := (gpr s)(ESP := a), ram := wr32 (ram s) a v\<rparr>)"

definition top_of_stack :: "x86 \<Rightarrow> u32" where
  "top_of_stack s = rd32 (ram s) (gpr s ESP)"

definition add_esp :: "u32 \<Rightarrow> x86 \<Rightarrow> x86" where
  "add_esp k s = s\<lparr>gpr := (gpr s)(ESP := gpr s ESP + k)\<rparr>"

definition popl :: "reg32 \<Rightarrow> x86 \<Rightarrow> x86" where
  "popl r s = (let v = top_of_stack s in (add_esp 4 s)\<lparr>gpr := (gpr (add_esp 4 s))(r := v)\<rparr>)"

text \<open>A segment register is pushed as a word and popped from its lower half.\<close>

definition push_sreg :: "sreg \<Rightarrow> x86 \<Rightarrow> x86" where
  "push_sreg r s = pushl (ucast (sr s r)) s"

definition pop_sreg :: "sreg \<Rightarrow> x86 \<Rightarrow> x86" where
  "pop_sreg r s = (add_esp 4 s)\<lparr>sr := (sr s)(r := ucast (top_of_stack s))\<rparr>"

text \<open>\<^verbatim>\<open>pushal\<close> pushes the stack pointer it found; \<^verbatim>\<open>popal\<close> skips it.\<close>

definition pushal :: "x86 \<Rightarrow> x86" where
  "pushal s = (let e = gpr s ESP in
     pushl (gpr s EDI) (pushl (gpr s ESI) (pushl (gpr s EBP) (pushl e
       (pushl (gpr s EBX) (pushl (gpr s EDX) (pushl (gpr s ECX) (pushl (gpr s EAX) s))))))))"

definition popal :: "x86 \<Rightarrow> x86" where
  "popal s = popl EAX (popl ECX (popl EDX (popl EBX (add_esp 4 (popl EBP (popl ESI (popl EDI s)))))))"

definition movw_ax :: "u16 \<Rightarrow> x86 \<Rightarrow> x86" where
  "movw_ax v s = s\<lparr>gpr := (gpr s)(EAX := (gpr s EAX AND 0xFFFF0000) OR ucast v)\<rparr>"

text \<open>What the processor does at an interrupt gate without a change of ring, and the return.\<close>

definition enter_gate :: "u32 option \<Rightarrow> u32 \<Rightarrow> x86 \<Rightarrow> x86" where
  "enter_gate code to s =
     (let s' = pushl (ip s) (pushl (ucast (sr s CS)) (pushl (flags s) s));
          s' = (case code of None \<Rightarrow> s' | Some e \<Rightarrow> pushl e s')
      in (cli s')\<lparr>ip := to\<rparr>)"

definition iret :: "x86 \<Rightarrow> x86" where
  "iret s = (let s1 = (add_esp 4 s)\<lparr>ip := top_of_stack s\<rparr>;
                 s2 = pop_sreg CS s1
             in (add_esp 4 s2)\<lparr>flags := top_of_stack s2\<rparr>)"

section \<open>The stubs\<close>

text \<open>The exceptions for which the processor pushes an error code, as the macros are used.\<close>

definition ISR_ERRCODE :: "nat set" where
  "ISR_ERRCODE = {8, 10, 11, 12, 13, 14, 17}"

text \<open>The start of a stub; \<open>ISR_NOERRCODE\<close>, \<open>IRQ\<close> and \<open>isr128\<close> push a code of their own.\<close>

definition stub :: "nat \<Rightarrow> x86 \<Rightarrow> x86" where
  "stub num s = (let s = cli s;
                     s = (if num \<in> ISR_ERRCODE then s else pushl 0 s)
                 in pushl (of_nat num) s)"

definition save_all :: "x86 \<Rightarrow> x86" where
  "save_all s = (let s = push_sreg GS (push_sreg FS (push_sreg ES (push_sreg DS (pushal s))));
                     s = movw_ax 0x10 s;
                     d = ucast (gpr s EAX) :: u16
                 in s\<lparr>sr := (sr s)(DS := d, ES := d, FS := d, GS := d)\<rparr>)"

definition restore_all :: "x86 \<Rightarrow> x86" where
  "restore_all s = (let s = pop_sreg DS (pop_sreg ES (pop_sreg FS (pop_sreg GS s)));
                        s = popal s
                    in iret (sti (add_esp 8 s)))"

text \<open>
  \<open>isr_common\<close> and \<open>irq_common\<close> differ in the handler only: it is called with the address of the
  registers on the stack, and \<open>ret\<close> is the address it returns to.
\<close>

definition stub_common :: "u32 \<Rightarrow> (u32 \<Rightarrow> x86 \<Rightarrow> x86) \<Rightarrow> x86 \<Rightarrow> x86" where
  "stub_common ret handler s =
     (let s = save_all s;
          r = gpr s ESP;
          s = pushl ret (pushl r s);
          s = add_esp 4 (handler r s)
      in restore_all (add_esp 4 s))"

text \<open>One whole interrupt: gate, stub, handler, return.\<close>

definition interrupt :: "u32 option \<Rightarrow> nat \<Rightarrow> u32 \<Rightarrow> u32 \<Rightarrow> (u32 \<Rightarrow> x86 \<Rightarrow> x86) \<Rightarrow> x86 \<Rightarrow> x86" where
  "interrupt code num to ret handler s = stub_common ret handler (stub num (enter_gate code to s))"

text \<open>The structure \<^verbatim>\<open>regs_t\<close> at an address.\<close>

definition frame_at :: "bytes \<Rightarrow> u32 \<Rightarrow> frame" where
  "frame_at m p = \<lparr>r_eax = rd32 m (p + 44), a_ebx = rd32 m (p + 32), a_ecx = rd32 m (p + 40), a_edx = rd32 m (p + 36),
     int_no = rd32 m (p + 48), err_code = rd32 m (p + 52), f_eip = rd32 m (p + 56), f_cs = rd32 m (p + 60), f_eflags = rd32 m (p + 64)\<rparr>"

section \<open>The entry of the kernel\<close>

definition multiboot :: "u32 list" where
  "multiboot = (let magic = 0x1BADB002; fl = 1 OR 2 in [magic, fl, - (magic + fl)])"

text \<open>\<^verbatim>\<open>_start\<close> up to the first instruction of \<^verbatim>\<open>kernel_main\<close>; \<open>ret\<close> is the address of \<^verbatim>\<open>.hang\<close>.\<close>

definition kernel_start :: "u32 \<Rightarrow> u32 \<Rightarrow> u32 \<Rightarrow> x86 \<Rightarrow> x86" where
  "kernel_start stack_top ret main s =
     (let s = s\<lparr>gpr := (gpr s)(ESP := stack_top)\<rparr>;
          s = pushl (gpr s EAX) (pushl (gpr s EBX) s)
      in (pushl ret s)\<lparr>ip := main\<rparr>)"

section \<open>The stack\<close>

text \<open>The words on the stack from an address on, all of them inside the address space.\<close>

fun words_at :: "bytes \<Rightarrow> u32 \<Rightarrow> u32 list \<Rightarrow> bool" where
  "words_at m a [] = True"
| "words_at m a (v # vs) = (unat a + 4 * Suc (length vs) < 4294967296 \<and> rd32 m a = v \<and> words_at m (a + 4) vs)"

lemma words_at_cong:
  "words_at m a vs \<Longrightarrow> (\<And>c. unat a \<le> unat c \<Longrightarrow> m' c = m c) \<Longrightarrow> words_at m' a vs"
proof (induction vs arbitrary: a)
  case (Cons v vs)
  then have a: "unat (a + 4) = unat a + 4" by (simp add: unat_add_small)
  have "rd32 m' a = rd32 m a" using Cons.prems by (intro rd32_cong) auto
  with Cons.IH [of "a + 4"] Cons.prems a show ?case by auto
qed simp

lemma words_at_nth: "words_at m a vs \<Longrightarrow> i < length vs \<Longrightarrow> rd32 m (a + of_nat (4 * i)) = vs ! i"
proof (induction vs arbitrary: a i)
  case (Cons v vs)
  then show ?case by (cases i) (use Cons.IH [of "a + 4"] in \<open>auto simp: algebra_simps\<close>)
qed simp

lemma words_atI:
  "(\<And>i. i < length vs \<Longrightarrow> rd32 m (a + of_nat (4 * i)) = vs ! i) \<Longrightarrow> unat a + 4 * length vs < 4294967296 \<Longrightarrow> words_at m a vs"
proof (induction vs arbitrary: a)
  case (Cons v vs)
  have "unat (a + 4) = unat a + 4" using Cons.prems(2) by (simp add: unat_add_small)
  moreover have "rd32 m (a + 4 + of_nat (4 * i)) = vs ! i" if "i < length vs" for i
    using Cons.prems(1) [of "Suc i"] that by (simp add: algebra_simps)
  ultimately show ?case using Cons.IH [of "a + 4"] Cons.prems(1) [of 0] Cons.prems(2) by simp
qed simp

lemma words_at_push:
  assumes "words_at m a vs" "4 \<le> unat a" "unat a + 4 * length vs < 4294967296"
  shows "words_at (wr32 m (a - 4) v) (a - 4) (v # vs)"
proof -
  have u: "unat (a - 4) = unat a - 4" using assms(2) by (simp add: unat_minus)
  have "words_at (wr32 m (a - 4) v) a vs"
    using assms(1) by (rule words_at_cong) (intro wr32_byte; use u assms in \<open>simp\<close>)
  with u assms(2,3) show ?thesis by simp
qed

text \<open>
  The words that have been pushed since a state \<open>o0\<close>, the last one first; the memory from the stack
  pointer of \<open>o0\<close> on is as it was.
\<close>

definition above :: "x86 \<Rightarrow> x86 \<Rightarrow> u32 list \<Rightarrow> bool" where
  "above o0 s vs \<longleftrightarrow> words_at (ram s) (gpr s ESP) vs \<and> unat (gpr s ESP) + 4 * length vs = unat (gpr o0 ESP)
     \<and> (\<forall>c. unat (gpr o0 ESP) \<le> unat c \<longrightarrow> ram s c = ram o0 c)"

lemma above_start: "above s s []"
  by (simp add: above_def)

lemma above_pushl:
  assumes "above o0 s vs" "4 * Suc (length vs) \<le> unat (gpr o0 ESP)"
  shows "above o0 (pushl v s) (v # vs)"
proof -
  have len: "unat (gpr s ESP) + 4 * length vs = unat (gpr o0 ESP)" using assms(1) by (simp add: above_def)
  then have four: "4 \<le> unat (gpr s ESP)" using assms(2) by simp
  then have u: "unat (gpr s ESP - 4) = unat (gpr s ESP) - 4" by (simp add: unat_minus)
  have "wr32 (ram s) (gpr s ESP - 4) v c = ram s c" if "unat (gpr o0 ESP) \<le> unat c" for c
    using that u len four unat_u32_lt [of "gpr s ESP"] by (intro wr32_byte) linarith+
  moreover have "words_at (wr32 (ram s) (gpr s ESP - 4) v) (gpr s ESP - 4) (v # vs)"
    using assms(1) four len unat_u32_lt [of "gpr o0 ESP"] by (intro words_at_push) (simp_all add: above_def)
  ultimately show ?thesis using assms u len four unfolding above_def by (simp add: pushl_def Let_def)
qed

lemma above_only: "gpr t ESP = gpr s ESP \<Longrightarrow> ram t = ram s \<Longrightarrow> above o0 t vs = above o0 s vs"
  by (simp add: above_def)

lemma above_top: "above o0 s (v # vs) \<Longrightarrow> top_of_stack s = v"
  by (simp add: above_def top_of_stack_def)

lemma above_add_esp: "above o0 s (v # vs) \<Longrightarrow> above o0 (add_esp 4 s) vs"
  using unat_u32_lt [of "gpr o0 ESP"] by (auto simp: above_def add_esp_def unat_add_small)

text \<open>What each instruction does to the registers.\<close>

lemma pushl_sel [simp]: "r \<noteq> ESP \<Longrightarrow> gpr (pushl v s) r = gpr s r" "sr (pushl v s) = sr s" "ip (pushl v s) = ip s"
  "flags (pushl v s) = flags s"
  by (simp_all add: pushl_def Let_def)

lemma add_esp_sel [simp]: "r \<noteq> ESP \<Longrightarrow> gpr (add_esp k s) r = gpr s r" "sr (add_esp k s) = sr s" "ip (add_esp k s) = ip s"
  "flags (add_esp k s) = flags s" "ram (add_esp k s) = ram s" "gpr (add_esp k s) ESP = gpr s ESP + k"
  by (simp_all add: add_esp_def)

lemma cli_sti_sel [simp]: "gpr (cli s) = gpr s" "sr (cli s) = sr s" "ip (cli s) = ip s" "ram (cli s) = ram s"
  "gpr (sti s) = gpr s" "sr (sti s) = sr s" "ip (sti s) = ip s" "ram (sti s) = ram s"
  by (simp_all add: cli_def sti_def)

lemma push_sreg_above:
  "above o0 s vs \<Longrightarrow> 4 * Suc (length vs) \<le> unat (gpr o0 ESP) \<Longrightarrow> above o0 (push_sreg r s) (ucast (sr s r) # vs)"
  by (simp add: push_sreg_def above_pushl)

lemma popped:
  assumes "above o0 s (v # vs)"
  shows "above o0 (pop_sreg r s) vs" "sr (pop_sreg r s) = (sr s)(r := ucast v)" "q \<noteq> ESP \<Longrightarrow> gpr (pop_sreg r s) q = gpr s q"
    "ip (pop_sreg r s) = ip s" "flags (pop_sreg r s) = flags s"
    "p \<noteq> ESP \<Longrightarrow> above o0 (popl p s) vs" "q \<noteq> ESP \<Longrightarrow> gpr (popl p s) q = ((gpr s)(p := v)) q" "sr (popl p s) = sr s"
    "ip (popl p s) = ip s" "flags (popl p s) = flags s"
proof -
  note a = above_add_esp [OF assms] and v = above_top [OF assms]
  show "above o0 (pop_sreg r s) vs" "p \<noteq> ESP \<Longrightarrow> above o0 (popl p s) vs"
    using a by (simp_all add: above_def pop_sreg_def popl_def Let_def)
  show "sr (pop_sreg r s) = (sr s)(r := ucast v)" "q \<noteq> ESP \<Longrightarrow> gpr (pop_sreg r s) q = gpr s q"
    "ip (pop_sreg r s) = ip s" "flags (pop_sreg r s) = flags s"
    "q \<noteq> ESP \<Longrightarrow> gpr (popl p s) q = ((gpr s)(p := v)) q" "sr (popl p s) = sr s" "ip (popl p s) = ip s" "flags (popl p s) = flags s"
    by (simp_all add: pop_sreg_def popl_def Let_def v)
qed

section \<open>An interrupt and its return\<close>

text \<open>
  A handler as C has it: it leaves the stack pointer and everything from the registers on as it was, but for the
  \<^verbatim>\<open>eax\<close> in the structure, which becomes \<open>f\<close> of the registers it is called with.
\<close>

definition answers :: "(frame \<Rightarrow> u32) \<Rightarrow> (u32 \<Rightarrow> x86 \<Rightarrow> x86) \<Rightarrow> bool" where
  "answers f h \<longleftrightarrow> (\<forall>r s. unat r + 68 \<le> 4294967296 \<longrightarrow> gpr (h r s) ESP = gpr s ESP \<and> rd32 (ram (h r s)) (r + 44) = f (frame_at (ram s) r)
     \<and> (\<forall>c. unat r \<le> unat c \<longrightarrow> (unat c < unat r + 44 \<or> unat r + 48 \<le> unat c) \<longrightarrow> ram (h r s) c = ram s c))"

lemma answers_words:
  assumes h: "answers f h" and w: "words_at (ram s) r vs" and len: "17 \<le> length vs" "unat r + 4 * length vs < 4294967296"
  shows "words_at (ram (h r s)) r (vs[11 := f (frame_at (ram s) r)])"
proof (rule words_atI)
  have far: "unat r + 68 \<le> 4294967296" using len by linarith
  fix i assume "i < length (vs[11 := f (frame_at (ram s) r)])"
  then have i: "i < length vs" by simp
  then have small: "unat r + 4 * i < 4294967296" using len(2) by simp
  then have "unat (of_nat (4 * i) :: u32) = 4 * i" by (intro unat_of_nat_small) simp
  with small have u: "unat (r + of_nat (4 * i)) = unat r + 4 * i" using unat_add_small [of r "of_nat (4 * i)"] by (simp only:)
  show "rd32 (ram (h r s)) (r + of_nat (4 * i)) = vs[11 := f (frame_at (ram s) r)] ! i"
  proof (cases "i = 11")
    case True
    then show ?thesis using h far len(1) by (simp add: answers_def)
  next
    case False
    have "rd32 (ram (h r s)) (r + of_nat (4 * i)) = rd32 (ram s) (r + of_nat (4 * i))"
    proof (rule rd32_cong)
      fix c :: u32 assume c: "unat (r + of_nat (4 * i)) \<le> unat c" "unat c < unat (r + of_nat (4 * i)) + 4"
      then have "unat r \<le> unat c" "unat c < unat r + 44 \<or> unat r + 48 \<le> unat c" using u False by arith+
      then show "ram (h r s) c = ram s c" using h far unfolding answers_def by blast
    qed (use u i len(2) in simp)
    then show ?thesis using words_at_nth [OF w i] False by simp
  qed
qed (use len in simp)

text \<open>The words of a frame, as the pushes have left them.\<close>

definition frame_words :: "x86 \<Rightarrow> u32 \<Rightarrow> u32 \<Rightarrow> u32 \<Rightarrow> u32 list" where
  "frame_words s sp code num =
     [ucast (sr s GS), ucast (sr s FS), ucast (sr s ES), ucast (sr s DS), gpr s EDI, gpr s ESI, gpr s EBP, sp,
      gpr s EBX, gpr s EDX, gpr s ECX, gpr s EAX, num, code, ip s, ucast (sr s CS), flags s]"

definition the_frame :: "x86 \<Rightarrow> u32 \<Rightarrow> u32 \<Rightarrow> frame" where
  "the_frame s code num = \<lparr>r_eax = gpr s EAX, a_ebx = gpr s EBX, a_ecx = gpr s ECX, a_edx = gpr s EDX,
     int_no = num, err_code = code, f_eip = ip s, f_cs = ucast (sr s CS), f_eflags = flags s\<rparr>"

lemma frame_words_frame: "words_at m a (frame_words s sp code num) \<Longrightarrow> frame_at m a = the_frame s code num"
  by (simp add: frame_at_def the_frame_def frame_words_def add.commute [of a])

text \<open>From the gate to the call of the handler.\<close>

lemma pushal_above:
  assumes "above o0 s vs" "4 * (length vs + 8) \<le> unat (gpr o0 ESP)"
  shows "above o0 (pushal s) ([gpr s EDI, gpr s ESI, gpr s EBP, gpr s ESP, gpr s EBX, gpr s EDX, gpr s ECX, gpr s EAX] @ vs)"
    "r \<noteq> ESP \<Longrightarrow> gpr (pushal s) r = gpr s r" "sr (pushal s) = sr s"
  unfolding pushal_def Let_def by (use assms in \<open>simp_all add: above_pushl\<close>)

lemma stub_frame:
  assumes room: "76 \<le> unat (gpr s ESP)" and code: "(code = None) = (num \<notin> ISR_ERRCODE)"
  defines "c \<equiv> (case code of None \<Rightarrow> 0 | Some e \<Rightarrow> e)"
  obtains sp where "above s (save_all (stub num (enter_gate code to s))) (frame_words s sp c (of_nat num))"
proof -
  let ?g = "pushl (ip s) (pushl (ucast (sr s CS)) (pushl (flags s) s))"
  have g: "above s ?g [ip s, ucast (sr s CS), flags s]" using room by (intro above_pushl above_start) simp_all
  let ?t = "stub num (enter_gate code to s)"
  have t: "above s ?t [of_nat num, c, ip s, ucast (sr s CS), flags s]" "\<And>r. r \<noteq> ESP \<Longrightarrow> gpr ?t r = gpr s r" "sr ?t = sr s"
  proof -
    have e: "above s (if num \<in> ISR_ERRCODE then enter_gate code to s else pushl 0 (enter_gate code to s))
        [c, ip s, ucast (sr s CS), flags s]"
    proof (cases code)
      case None
      have "above s (enter_gate code to s) [ip s, ucast (sr s CS), flags s]"
        using g None by (simp add: enter_gate_def Let_def above_def)
      from above_pushl [OF this, of 0] room
      have "above s (pushl 0 (enter_gate code to s)) [0, ip s, ucast (sr s CS), flags s]" by simp
      with None code show ?thesis by (simp add: c_def)
    next
      case (Some e)
      have "above s (pushl e ?g) [e, ip s, ucast (sr s CS), flags s]" using above_pushl [OF g, of e] room by simp
      with Some code show ?thesis by (simp add: c_def enter_gate_def Let_def above_def)
    qed
    have "above s (if num \<in> ISR_ERRCODE then cli (enter_gate code to s) else pushl 0 (cli (enter_gate code to s)))
        [c, ip s, ucast (sr s CS), flags s]"
      using e by (simp add: above_def pushl_def Let_def split: if_splits)
    then show "above s ?t [of_nat num, c, ip s, ucast (sr s CS), flags s]"
      using room by (simp add: stub_def Let_def above_pushl)
    show "sr ?t = sr s" by (simp add: stub_def enter_gate_def Let_def split: option.split)
    show "gpr ?t r = gpr s r" if "r \<noteq> ESP" for r using that by (simp add: stub_def enter_gate_def Let_def split: option.split)
  qed
  have p: "above s (pushal ?t) ([gpr s EDI, gpr s ESI, gpr s EBP, gpr ?t ESP, gpr s EBX, gpr s EDX, gpr s ECX, gpr s EAX]
      @ [of_nat num, c, ip s, ucast (sr s CS), flags s])" "sr (pushal ?t) = sr s"
    using pushal_above [OF t(1)] room t(2,3) by simp_all
  let ?p = "push_sreg GS (push_sreg FS (push_sreg ES (push_sreg DS (pushal ?t))))"
  have sr: "sr (push_sreg r u) = sr u" for r u by (simp add: push_sreg_def)
  have "above s ?p (ucast (sr s GS) # ucast (sr s FS) # ucast (sr s ES) # ucast (sr s DS)
      # [gpr s EDI, gpr s ESI, gpr s EBP, gpr ?t ESP, gpr s EBX, gpr s EDX, gpr s ECX, gpr s EAX]
      @ [of_nat num, c, ip s, ucast (sr s CS), flags s])"
    using push_sreg_above [OF push_sreg_above [OF push_sreg_above [OF push_sreg_above [OF p(1), of DS], of ES], of FS], of GS] room p(2)
    by (simp add: sr)
  then have "above s (save_all ?t) (frame_words s (gpr ?t ESP) c (of_nat num))"
    by (simp add: save_all_def Let_def movw_ax_def frame_words_def above_def)
  then show thesis by (rule that)
qed

text \<open>From the return of the handler on.\<close>

lemma above_add_esp8: "above o0 s (x # y # vs) \<Longrightarrow> above o0 (add_esp 8 s) vs"
proof -
  assume "above o0 s (x # y # vs)"
  from above_add_esp [OF above_add_esp [OF this]] show ?thesis by (simp add: add_esp_def add.assoc)
qed

lemma iret_loads:
  assumes "above o0 s [i, c, fl]"
  shows "above o0 (iret s) []" "ip (iret s) = i" "flags (iret s) = fl" "sr (iret s) = (sr s)(CS := ucast c)"
    "r \<noteq> ESP \<Longrightarrow> gpr (iret s) r = gpr s r"
proof -
  let ?s1 = "(add_esp 4 s)\<lparr>ip := top_of_stack s\<rparr>"
  have s1: "above o0 ?s1 [c, fl]" using above_add_esp [OF assms] by (simp add: above_def)
  note P = popped [OF s1]
  show "above o0 (iret s) []" using above_add_esp [OF P(1) [of CS]] by (simp add: iret_def Let_def above_def)
  show "ip (iret s) = i" "sr (iret s) = (sr s)(CS := ucast c)"
    using P(2,4) [of CS] above_top [OF assms] by (simp_all add: iret_def Let_def)
  show "flags (iret s) = fl" using above_top [OF P(1) [of CS]] by (simp add: iret_def Let_def)
  show "gpr (iret s) r = gpr s r" if "r \<noteq> ESP" using P(3) [OF that, of CS] that by (simp add: iret_def Let_def)
qed

lemma popal_loads:
  assumes "above o0 s (edi # esi # ebp # sp # ebx # edx # ecx # eax # vs)"
  shows "above o0 (popal s) vs" "sr (popal s) = sr s"
    "r \<noteq> ESP \<Longrightarrow> gpr (popal s) r = (case r of EAX \<Rightarrow> eax | ECX \<Rightarrow> ecx | EDX \<Rightarrow> edx | EBX \<Rightarrow> ebx | EBP \<Rightarrow> ebp | ESI \<Rightarrow> esi | EDI \<Rightarrow> edi)"
proof -
  note I = popped [OF assms]
  note J = popped [OF I(6) [of EDI]]
  note K = popped [OF J(6) [of ESI]]
  have "above o0 (add_esp 4 (popl EBP (popl ESI (popl EDI s)))) (ebx # edx # ecx # eax # vs)" using above_add_esp [OF K(6) [of EBP]] by simp
  note B = popped [OF this]
  note X = popped [OF B(6) [of EBX]]
  note C = popped [OF X(6) [of EDX]]
  note A = popped [OF C(6) [of ECX]]
  show "above o0 (popal s) vs" unfolding popal_def by (rule A(6)) simp_all
  show "sr (popal s) = sr s" by (simp add: popal_def A(8) C(8) X(8) B(8) K(8) J(8) I(8))
  show "gpr (popal s) r = (case r of EAX \<Rightarrow> eax | ECX \<Rightarrow> ecx | EDX \<Rightarrow> edx | EBX \<Rightarrow> ebx | EBP \<Rightarrow> ebp | ESI \<Rightarrow> esi | EDI \<Rightarrow> edi)"
    if "r \<noteq> ESP" using that by (cases r) (simp_all add: popal_def A(7) C(7) X(7) B(7) K(7) J(7) I(7))
qed

lemma ucast_up_down [simp]: "ucast (ucast v :: u32) = v" for v :: u16
  by (rule bit_word_eqI) (simp add: bit_simps)

lemma restore_frame:
  assumes "above o0 s (frame_words x sp code num)"
  shows "above o0 (restore_all s) []" "ip (restore_all s) = ip x" "flags (restore_all s) = flags x" "sr (restore_all s) = sr x"
    "r \<noteq> ESP \<Longrightarrow> gpr (restore_all s) r = gpr x r"
proof -
  let ?s4 = "pop_sreg DS (pop_sreg ES (pop_sreg FS (pop_sreg GS s)))"
  note G = popped [OF assms [unfolded frame_words_def]]
  note F = popped [OF G(1)]
  note E = popped [OF F(1)]
  note D = popped [OF E(1)]
  have sr4: "sr ?s4 = (sr s)(GS := sr x GS, FS := sr x FS, ES := sr x ES, DS := sr x DS)" by (simp add: D(2) E(2) F(2) G(2))
  note P = popal_loads [OF D(1)]
  let ?s11 = "popal ?s4"
  have "above o0 (sti (add_esp 8 ?s11)) [ip x, ucast (sr x CS), flags x]" using above_add_esp8 [OF P(1)] by (simp add: above_def)
  note R = iret_loads [OF this]
  have eq: "restore_all s = iret (sti (add_esp 8 ?s11))" by (simp add: restore_all_def Let_def)
  show "above o0 (restore_all s) []" "ip (restore_all s) = ip x" "flags (restore_all s) = flags x" unfolding eq by (fact R)+
  have "sr (restore_all s) r = sr x r" for r unfolding eq R(4) by (cases r) (simp_all add: P(2) sr4)
  then show "sr (restore_all s) = sr x" by blast
  show "gpr (restore_all s) r = gpr x r" if "r \<noteq> ESP"
    unfolding eq R(5) [OF that] using that P(3) [OF that] by (cases r) simp_all
qed

lemma stub_restores:
  assumes room: "76 \<le> unat (gpr s ESP)" and code: "(code = None) = (num \<notin> ISR_ERRCODE)" and h: "answers f h"
  defines "F \<equiv> the_frame s (case code of None \<Rightarrow> 0 | Some e \<Rightarrow> e) (of_nat num)"
  shows "gpr (interrupt code num to ret h s) = (gpr s)(EAX := f F)" "sr (interrupt code num to ret h s) = sr s"
    "ip (interrupt code num to ret h s) = ip s" "flags (interrupt code num to ret h s) = flags s"
    "unat (gpr s ESP) \<le> unat a \<Longrightarrow> ram (interrupt code num to ret h s) a = ram s a"
proof -
  let ?c = "case code of None \<Rightarrow> 0 | Some e \<Rightarrow> e"
  define u where "u = save_all (stub num (enter_gate code to s))"
  define r where "r = gpr u ESP"
  obtain sp where u: "above s u (frame_words s sp ?c (of_nat num))" unfolding u_def by (rule stub_frame [OF room code])
  have len: "length (frame_words s sp ?c (of_nat num)) = 17" by (simp add: frame_words_def)
  define v where "v = pushl ret (pushl r u)"
  have v: "above s v (ret # r # frame_words s sp ?c (of_nat num))"
    unfolding v_def using above_pushl [OF above_pushl [OF u, of r], of ret] room len by simp
  have r: "gpr v ESP + 4 + 4 = r" by (simp add: v_def r_def pushl_def Let_def)
  have rv: "unat r + 68 = unat (gpr s ESP)" using u len by (simp add: above_def r_def)
  have w: "words_at (ram v) r (frame_words s sp ?c (of_nat num))" using v by (simp only: above_def words_at.simps r simp_thms)
  have F: "frame_at (ram v) r = F" using frame_words_frame [OF w] by (simp add: F_def)
  define w where "w = h r v"
  have "unat r + 68 \<le> 4294967296" using rv unat_u32_lt [of "gpr s ESP"] by linarith
  then have hw: "gpr w ESP = gpr v ESP" "\<And>c. unat r + 48 \<le> unat c \<Longrightarrow> ram w c = ram v c"
    using h unfolding answers_def w_def by simp_all
  have "words_at (ram w) r ((frame_words s sp ?c (of_nat num))[11 := f F])"
    unfolding F [symmetric] w_def using rv len unat_u32_lt [of "gpr s ESP"] by (intro answers_words [OF h w]) linarith+
  moreover have "(frame_words s sp ?c (of_nat num))[11 := f F] = frame_words (s\<lparr>gpr := (gpr s)(EAX := f F)\<rparr>) sp ?c (of_nat num)"
    by (simp add: frame_words_def)
  moreover have "gpr (add_esp 4 (add_esp 4 w)) ESP = r" by (simp add: hw(1) r)
  moreover have "ram w c = ram s c" if "unat (gpr s ESP) \<le> unat c" for c
    using hw(2) [of c] v that rv by (simp add: above_def)
  moreover have "length (frame_words (s\<lparr>gpr := (gpr s)(EAX := f F)\<rparr>) sp ?c (of_nat num)) = 17" by (simp add: frame_words_def)
  ultimately have "above s (add_esp 4 (add_esp 4 w)) (frame_words (s\<lparr>gpr := (gpr s)(EAX := f F)\<rparr>) sp ?c (of_nat num))"
    using rv by (simp add: above_def)
  note R = restore_frame [OF this]
  have eq: "interrupt code num to ret h s = restore_all (add_esp 4 (add_esp 4 w))"
    by (simp add: interrupt_def stub_common_def Let_def w_def v_def r_def u_def)
  have "gpr (restore_all (add_esp 4 (add_esp 4 w))) q = ((gpr s)(EAX := f F)) q" for q
    using R(1) R(5) [of q] by (cases "q = ESP") (simp_all add: above_def word_unat_eq_iff)
  then show "gpr (interrupt code num to ret h s) = (gpr s)(EAX := f F)" unfolding eq by blast
  show "sr (interrupt code num to ret h s) = sr s" "ip (interrupt code num to ret h s) = ip s"
    "flags (interrupt code num to ret h s) = flags s" unfolding eq using R(2-4) by simp_all
  show "unat (gpr s ESP) \<le> unat a \<Longrightarrow> ram (interrupt code num to ret h s) a = ram s a" unfolding eq using R(1) by (simp add: above_def)
qed

lemma start_arguments:
  assumes "12 \<le> unat stk"
  shows "top_of_stack (kernel_start stk ret main s) = ret" "top_of_stack (add_esp 4 (kernel_start stk ret main s)) = gpr s EAX"
    "top_of_stack (add_esp 8 (kernel_start stk ret main s)) = gpr s EBX" "ip (kernel_start stk ret main s) = main"
proof -
  let ?s = "s\<lparr>gpr := (gpr s)(ESP := stk)\<rparr>"
  have "above ?s (pushl ret (pushl (gpr s EAX) (pushl (gpr s EBX) ?s))) [ret, gpr s EAX, gpr s EBX]"
    using assms by (intro above_pushl above_start) simp_all
  then have a: "above ?s (kernel_start stk ret main s) [ret, gpr s EAX, gpr s EBX]" by (simp add: kernel_start_def Let_def above_def)
  show "top_of_stack (kernel_start stk ret main s) = ret" by (rule above_top [OF a])
  show "top_of_stack (add_esp 4 (kernel_start stk ret main s)) = gpr s EAX" by (rule above_top [OF above_add_esp [OF a]])
  show "top_of_stack (add_esp 8 (kernel_start stk ret main s)) = gpr s EBX" by (rule above_top [OF above_add_esp8 [OF a]])
  show "ip (kernel_start stk ret main s) = main" by (simp add: kernel_start_def Let_def)
qed

lemma multiboot_checksum: "sum_list multiboot = 0"
  by (simp add: multiboot_def)

section \<open>Properties\<close>

text \<open>
  C21. The stubs put the registers where \<^verbatim>\<open>regs_t\<close> says and give them back. For an interrupt or exception
  at any instruction, with 76 bytes of stack left and a handler that keeps the stack from the
  structure on: the structure the handler is called with has the number, the error code (0 when the
  processor gives none), and the general registers, instruction pointer, code segment and flags of
  the interrupted program; afterwards all registers, segments, flags and the instruction pointer are
  as they were, except that \<^verbatim>\<open>eax\<close> has what the handler has put into the structure, and the stack is as it was.
\<close>

theorem stub_restores_registers:
  assumes "76 \<le> unat (gpr s ESP)" and "(code = None) = (num \<notin> ISR_ERRCODE)" and "answers f h"
  shows "\<exists>t. interrupt code num to ret h s = t
    \<and> gpr t = (gpr s)(EAX := f (the_frame s (case code of None \<Rightarrow> 0 | Some e \<Rightarrow> e) (of_nat num)))
    \<and> sr t = sr s \<and> ip t = ip s \<and> flags t = flags s \<and> (\<forall>a. unat (gpr s ESP) \<le> unat a \<longrightarrow> ram t a = ram s a)"
  using stub_restores [OF assms] by blast

text \<open>A handler that answers with the number of the interrupt, and a processor at work.\<close>

definition number_handler :: "u32 \<Rightarrow> x86 \<Rightarrow> x86" where
  "number_handler r s = s\<lparr>ram := wr32 (ram s) (r + 44) (rd32 (ram s) (r + 48))\<rparr>"

definition busy :: x86 where
  "busy = \<lparr>gpr = (\<lambda>_. 7)(ESP := 0x9000, EBX := 5), sr = (\<lambda>_. 16)(CS := 8), ip = 0x1234, flags = 0x202, ram = (\<lambda>_. 0)\<rparr>"

lemma number_handler_answers: "answers int_no number_handler"
  unfolding answers_def
proof (intro allI impI)
  fix r and s :: x86 assume r: "unat (r :: u32) + 68 \<le> 4294967296"
  then have "unat (r + 44) = unat r + 44" by (simp add: unat_add_small)
  then have "wr32 (ram s) (r + 44) v c = ram s c" if "unat c < unat r + 44 \<or> unat r + 48 \<le> unat c" for v c
    using r that by (intro wr32_byte) auto
  then show "gpr (number_handler r s) ESP = gpr s ESP \<and> rd32 (ram (number_handler r s)) (r + 44) = int_no (frame_at (ram s) r)
     \<and> (\<forall>c. unat r \<le> unat c \<longrightarrow> (unat c < unat r + 44 \<or> unat r + 48 \<le> unat c) \<longrightarrow> ram (number_handler r s) c = ram s c)"
    by (simp add: number_handler_def frame_at_def)
qed

theorem stub_restores_registers_witness:
  "gpr (interrupt None 128 0x100600 0x100700 number_handler busy) = (\<lambda>_. 7)(EAX := 128, ESP := 0x9000, EBX := 5)
    \<and> ip (interrupt None 128 0x100600 0x100700 number_handler busy) = 0x1234
    \<and> flags (interrupt None 128 0x100600 0x100700 number_handler busy) = 0x202"
  using stub_restores_registers [OF _ _ number_handler_answers, of busy None 128 "0x100600" "0x100700"]
  by (simp add: busy_def ISR_ERRCODE_def the_frame_def gpr_eq_iff)

end
