(* ===== verification/Initfs.thy ===== *)
theory Initfs
  imports Interrupts
begin

text \<open>
  The initial file system, \<^verbatim>\<open>build_initfs\<close> of \<^verbatim>\<open>kernel/main.c\<close>: the calls that make it, a file system seen
  as the table of its nodes, the same calls on such tables, and the proof that the real ones refine
  them. Two of the files are written with more bytes than their texts have: what the memory holds
  after a string literal is the argument \<open>after\<close>.
\<close>

unbundle bit_operations_syntax

section \<open>The initial file system\<close>

definition motd :: bytestr where
  "motd = map of_char ''Welcome to MyOS!'' @ [10] @ map of_char ''A minimal Unix-like OS written in C.'' @ [10]
     @ map of_char ''Type '' @ [39] @ map of_char ''help'' @ [39] @ map of_char '' for available commands.'' @ [10]"

definition hostname :: bytestr where
  "hostname = map of_char ''myos'' @ [10]"

definition passwd :: bytestr where
  "passwd = map of_char ''root:x:0:0:root:/home/root:/bin/sh'' @ [10]"

definition readme :: bytestr where
  "readme = map of_char ''MyOS - Minimal Unix-like Operating System'' @ [10]
     @ map of_char ''=========================================='' @ [10]
     @ map of_char ''Built from scratch in C.'' @ [10]
     @ map of_char ''Features:'' @ [10]
     @ map of_char ''  - x86 protected mode'' @ [10]
     @ map of_char ''  - Paging / virtual memory (CoW)'' @ [10]
     @ map of_char ''  - Round-robin scheduler'' @ [10]
     @ map of_char ''  - ramfs virtual filesystem'' @ [10]
     @ map of_char ''  - POSIX-like system calls'' @ [10]
     @ map of_char ''  - Interactive shell'' @ [10]"

text \<open>\<^verbatim>\<open>root->ops->finddir(root, "..."), if (...)\<close>: doing something in a directory that is there.\<close>

definition within :: "u32 \<Rightarrow> string \<Rightarrow> (u32 \<Rightarrow> 'a fs_scheme \<Rightarrow> 'a fs_scheme option) \<Rightarrow> 'a fs_scheme \<Rightarrow> 'a fs_scheme option" where
  "within root name f s = do {
     d \<leftarrow> ramfs_finddir root (lit name) s;
     case d of Some (Ram a) \<Rightarrow> f a s | _ \<Rightarrow> Some s
   }"

definition build_etc :: "(bytestr \<Rightarrow> bytestr) \<Rightarrow> u32 \<Rightarrow> 'a fs_scheme \<Rightarrow> 'a fs_scheme option" where
  "build_etc after etc s = do {
     s \<leftarrow> ramfs_write_file etc (lit ''motd'') (motd @ 0 # after motd) 100 s;
     s \<leftarrow> ramfs_write_file etc (lit ''hostname'') (hostname @ 0 # after hostname) 6 s;
     ramfs_write_file etc (lit ''passwd'') (passwd @ 0 # after passwd) 36 s
   }"

definition build_root :: "(bytestr \<Rightarrow> bytestr) \<Rightarrow> u32 \<Rightarrow> 'a fs_scheme \<Rightarrow> 'a fs_scheme option" where
  "build_root after root s = do {
     s \<leftarrow> ramfs_mkdir root (lit ''bin'') s;
     s \<leftarrow> ramfs_mkdir root (lit ''etc'') s;
     s \<leftarrow> ramfs_mkdir root (lit ''home'') s;
     s \<leftarrow> ramfs_mkdir root (lit ''tmp'') s;
     s \<leftarrow> ramfs_mkdir root (lit ''dev'') s;
     s \<leftarrow> ramfs_mkdir root (lit ''proc'') s;
     s \<leftarrow> within root ''home'' (\<lambda>home. ramfs_mkdir home (lit ''user'')) s;
     s \<leftarrow> within root ''etc'' (build_etc after) s;
     s \<leftarrow> ramfs_write_file root (lit ''README'') (readme @ 0 # after readme) 300 s;
     within root ''dev'' (\<lambda>dev. ramfs_mkdir dev (lit ''tty0'')) s
   }"

definition build_initfs :: "(bytestr \<Rightarrow> bytestr) \<Rightarrow> 'a vfs_scheme \<Rightarrow> 'a vfs_scheme option" where
  "build_initfs after s = do {
     let s = vfs_init s;
     (root, s) \<leftarrow> ramfs_create_root s;
     (_, s) \<leftarrow> vfs_mount (lit ''/'') root s;
     case root of Ram r \<Rightarrow> build_root after r s | Tty \<Rightarrow> None
   }"

section \<open>The file system as a table of its nodes\<close>

datatype item = Folder "(bytestr \<times> u32) list" | File bytestr

definition item_of :: "'a fs_scheme \<Rightarrow> u32 \<Rightarrow> item option" where
  "item_of s a = map_option (\<lambda>n. if rtype n = VFS_DIR then Folder (map (\<lambda>c. (cname s c, c)) (children n)) else File (content n)) (nodes s a)"

text \<open>
  The nodes are the table \<open>V\<close>; nothing is mounted, and no node is at an address that is still to be
  handed out.
\<close>

definition fs_is :: "(u32 \<Rightarrow> item option) \<Rightarrow> 'a fs_scheme \<Rightarrow> bool" where
  "fs_is V s \<longleftrightarrow> item_of s = V \<and> (\<forall>a n. nodes s a = Some n \<longrightarrow>
      a \<noteq> 0 \<and> unat a < unat (fresh s) \<and> mount_point (rvnode n) = None \<and> 0 \<in> set (rname n)
      \<and> (if rtype n = VFS_DIR then ramdir_ok a s else rtype n = VFS_FILE \<and> file_ok n)) \<and> 0 < unat (fresh s)"

lemma fs_is_folder:
  assumes "fs_is V s" "V a = Some (Folder es)"
  obtains n where "nodes s a = Some n" "rtype n = VFS_DIR" "ramdir_ok a s" "children n = map snd es" "kids s a = map snd es"
    "map (\<lambda>c. (cname s c, c)) (kids s a) = es"
proof -
  have "item_of s a = Some (Folder es)" using assms by (simp add: fs_is_def)
  then obtain n where n: "nodes s a = Some n" "rtype n = VFS_DIR" "map (\<lambda>c. (cname s c, c)) (children n) = es"
    by (auto simp: item_of_def split: if_splits)
  then have "children n = map snd es" by (auto simp: comp_def)
  with n assms(1) show thesis by (intro that [of n]) (auto simp: fs_is_def kids_def)
qed

lemma fs_is_find:
  assumes "fs_is V s" "V a = Some (Folder es)" "c_string nm name"
  shows "ramfs_finddir a name s = Some (map_option Ram (map_of es nm))"
proof -
  obtain n where n: "ramdir_ok a s" "map (\<lambda>c. (cname s c, c)) (kids s a) = es" by (rule fs_is_folder [OF assms(1,2)]) blast
  then show ?thesis using finddir_map [OF n(1) assms(3)] by (simp add: dir_map_def)
qed


lemma fs_create:
  assumes V: "fs_is V s" "V a = Some (Folder es)" and nm: "c_string nm name" "length nm < 128" "map_of es nm = None"
    and "length es < 64" and addr: "unat (fresh s) + 1 < 4294967296" and ty: "type = VFS_DIR \<or> type = VFS_FILE"
  obtains t n where "ramfs_create a name type s = Some (0, t)"
    "fs_is (V(a \<mapsto> Folder (es @ [(nm, fresh s)]), fresh s \<mapsto> (if type = VFS_DIR then Folder [] else File []))) t"
    "fresh t = fresh s + 1" "fs.more t = fs.more s" "nodes t (fresh s) = Some n" "capacity n = 0"
proof -
  obtain p where p: "nodes s a = Some p" "rtype p = VFS_DIR" "ramdir_ok a s" "children p = map snd es" "kids s a = map snd es"
    "map (\<lambda>c. (cname s c, c)) (kids s a) = es" by (rule fs_is_folder [OF V(1,2)])
  have live: "a \<noteq> 0 \<and> unat a < unat (fresh s) \<and> mount_point (rvnode n) = None \<and> 0 \<in> set (rname n)
      \<and> (if rtype n = VFS_DIR then ramdir_ok a s else rtype n = VFS_FILE \<and> file_ok n)" if "nodes s a = Some n" for a n
    using V(1) that by (simp add: fs_is_def)
  have room: "0 < unat (fresh s)" "unat (fresh s) + 1 < 4294967296" using V(1) addr by (simp_all add: fs_is_def)
  have new: "nodes s (fresh s) = None" using live [of "fresh s"] by (cases "nodes s (fresh s)") auto
  have can: "can_create a s" using new room(1) assms(6) p(5) by (simp add: can_create_def unat_gt_0)
  have free: "dir_map a s nm = None" using nm(3) p(6) by (simp add: dir_map_def)
  obtain t n where t: "ramfs_create a name type s = Some (0, t)" "kids t a = kids s a @ [fresh s]"
    "nodes t (fresh s) = Some n" "rtype n = type" "children n = []" "rdata n = None" "rsize n = 0" "capacity n = 0"
    "vtype (rvnode n) = type" "vsize (rvnode n) = 0" "mount_point (rvnode n) = None" "ref_count (rvnode n) = 0"
    "cname t (fresh s) = nm" "child_ok t (fresh s)" "\<And>b. b \<noteq> a \<Longrightarrow> b \<noteq> fresh s \<Longrightarrow> nodes t b = nodes s b"
    "fresh t = fresh s + 1" "fs.more t = fs.more s"
    "nodes t a = map_option (\<lambda>n. n\<lparr>children := kids s a @ [fresh s]\<rparr>) (nodes s a)" "fresh s \<noteq> a"
    by (rule ramfs_create_some [OF p(3) can nm(1,2), of type], rule that)
  have ra: "ramdir_ok a t" by (rule create_dir_map(2) [OF p(3) can nm(1,2) free t(1)])
  have keep: "\<exists>m'. nodes t c = Some m' \<and> rname m' = rname m" if "nodes s c = Some m" for c m
  proof -
    have "c \<noteq> fresh s" using that new by auto
    then show ?thesis using that t(15) [of c] t(18) by (cases "c = a") simp_all
  qed
  have cn: "cname t c = cname s c" "child_ok t c = child_ok s c" if "nodes s c \<noteq> None" for c
    using that keep [of c] by (auto simp: cname_def child_ok_def)
  have kids_live: "nodes s c \<noteq> None" if "ramdir_ok b s" "c \<in> set (kids s b)" for b c
    using that by (auto simp: ramdir_ok_def child_ok_def split: option.splits)
  have other: "nodes t b = nodes s b" "kids t b = kids s b" if "b \<noteq> a" "b \<noteq> fresh s" for b
    using t(15) [OF that] by (simp_all add: kids_def)
  have rb: "ramdir_ok b t" if "ramdir_ok b s" "b \<noteq> a" "b \<noteq> fresh s" for b
  proof -
    have "map (cname t) (kids s b) = map (cname s) (kids s b)" "\<forall>c\<in>set (kids s b). child_ok t c = child_ok s c"
      using cn kids_live [OF that(1)] by auto
    then show ?thesis using that(1) other [OF that(2,3)] by (simp add: ramdir_ok_def cong: map_cong)
  qed
  have ek: "map (\<lambda>c. (cname t c, c)) (kids s b) = map (\<lambda>c. (cname s c, c)) (kids s b)" if "ramdir_ok b s" for b
    using cn kids_live [OF that] by auto
  have "item_of t b = (V(a \<mapsto> Folder (es @ [(nm, fresh s)]), fresh s \<mapsto> (if type = VFS_DIR then Folder [] else File []))) b" for b
  proof -
    have ne: "VFS_FILE \<noteq> VFS_DIR" by (simp add: VFS_FILE_def VFS_DIR_def)
    consider "b = fresh s" | "b = a" | "b \<noteq> a" "b \<noteq> fresh s" by blast
    then show ?thesis
    proof cases
      case 1
      then show ?thesis using t(3-6) ty ne by (auto simp: item_of_def content_def)
    next
      case 2
      have "map (\<lambda>c. (cname t c, c)) (kids s a @ [fresh s]) = es @ [(nm, fresh s)]" using ek [OF p(3)] p(6) t(13) by simp
      then show ?thesis using 2 t(18,19) p(1,2) by (simp add: item_of_def)
    next
      case 3
      have "item_of t b = item_of s b"
      proof (cases "nodes s b")
        case (Some m)
        then have "rtype m = VFS_DIR \<Longrightarrow> map (\<lambda>c. (cname t c, c)) (children m) = map (\<lambda>c. (cname s c, c)) (children m)"
          using ek [of b] live [of b m] by (simp add: kids_def)
        then show ?thesis using Some other(1) [OF 3] by (simp add: item_of_def)
      qed (simp add: item_of_def other(1) [OF 3])
      then show ?thesis using 3 V(1) by (auto simp: fs_is_def)
    qed
  qed
  then have "item_of t = V(a \<mapsto> Folder (es @ [(nm, fresh s)]), fresh s \<mapsto> (if type = VFS_DIR then Folder [] else File []))" by (rule ext)
  moreover have "b \<noteq> 0 \<and> unat b < unat (fresh t) \<and> mount_point (rvnode m) = None \<and> 0 \<in> set (rname m)
      \<and> (if rtype m = VFS_DIR then ramdir_ok b t else rtype m = VFS_FILE \<and> file_ok m)" if m: "nodes t b = Some m" for b m
  proof -
    have f: "unat (fresh t) = unat (fresh s) + 1" using room(2) t(16) by (simp add: unat_add_small)
    consider "b = fresh s" | "b = a" | "b \<noteq> a" "b \<noteq> fresh s" by blast
    then show ?thesis
    proof cases
      case 1
      then have "m = n" using m t(3) by simp
      moreover have "ramdir_ok (fresh s) t" if "type = VFS_DIR" using that t(3-5) by (simp add: ramdir_ok_def kids_def)
      moreover have "fresh s \<noteq> 0" using room(1) by (simp add: unat_gt_0)
      moreover have "0 \<in> set (rname n)" using t(14) t(3) by (simp add: child_ok_def)
      moreover have "file_ok n" using t(6-8,10) by (simp add: file_ok_def)
      ultimately show ?thesis using 1 t(4,11) ty f by auto
    next
      case 2
      then show ?thesis using m live [OF p(1)] t(18) p(1,2) ra f by auto
    next
      case 3
      then have "nodes s b = Some m" using m other(1) [OF 3] by simp
      from live [OF this] show ?thesis using rb [OF _ 3] f by auto
    qed
  qed
  moreover have "unat (fresh t) = unat (fresh s) + 1" using room(2) t(16) by (simp add: unat_add_small)
  ultimately have "fs_is (V(a \<mapsto> Folder (es @ [(nm, fresh s)]), fresh s \<mapsto> (if type = VFS_DIR then Folder [] else File []))) t"
    using room unfolding fs_is_def by simp
  then show thesis by (rule that [OF t(1) _ t(16,17,3,8)])
qed


lemma ramfs_write_fresh:
  assumes "ramfs_write a pos sz buf s = Some (r, t)" "nodes s a = Some n" "rtype n = VFS_FILE"
  shows "fresh t = (if capacity n < pos + sz then fresh s + 1 else fresh s)"
  using assms by (auto simp: ramfs_write_def new_addr_def Let_def bind_eq_Some_conv split: if_splits)

lemma fs_write:
  assumes V: "fs_is V s" "nodes s a = Some n" "rtype n = VFS_FILE" "capacity n = 0" "content n = []"
    and sz: "sz \<noteq> 0" "unat sz < 65536" "unat sz \<le> length data"
    and addr: "unat (fresh s) + 1 < 4294967296"
  obtains t where "ramfs_write a 0 sz data s = Some (sz, t)" "fs_is (V(a \<mapsto> File (take (unat sz) data))) t"
    "fresh t = fresh s + 1" "fs.more t = fs.more s"
proof -
  have live: "a \<noteq> 0 \<and> unat a < unat (fresh s) \<and> mount_point (rvnode n) = None \<and> 0 \<in> set (rname n)
      \<and> (if rtype n = VFS_DIR then ramdir_ok a s else rtype n = VFS_FILE \<and> file_ok n)" if "nodes s a = Some n" for a n
    using V(1) that by (simp add: fs_is_def)
  have ne: "VFS_FILE \<noteq> VFS_DIR" by (simp add: VFS_FILE_def VFS_DIR_def)
  have room: "0 < unat (fresh s)" "unat (fresh s) + 1 < 4294967296" using V(1) addr by (simp_all add: fs_is_def)
  have ok: "file_ok n" using live [OF V(2)] V(3) ne by simp
  obtain t n' junk where t: "ramfs_write a 0 sz data s = Some (sz, t)" "nodes t a = Some n'" "file_ok n'"
    "\<And>b. b \<noteq> a \<Longrightarrow> nodes t b = nodes s b"
    "n' = n\<lparr>rdata := rdata n', rsize := rsize n', capacity := capacity n', rvnode := (rvnode n)\<lparr>vsize := rsize n'\<rparr>\<rparr>"
    "content n' = patched junk (content n) 0 (take (unat sz) data)" "fs.more t = fs.more s"
    by (rule ramfs_write_some [OF V(2,3) ok _ _ sz(3,1), of 0]) (use room sz(2) in \<open>auto simp: unat_gt_0\<close>)
  have n': "rtype n' = VFS_FILE" "rname n' = rname n" "children n' = children n" "mount_point (rvnode n') = None"
    using V(3) live [OF V(2)] by (subst t(5), simp)+
  have c': "content n' = take (unat sz) data" unfolding t(6) V(5) by (simp add: patched_def)
  have "\<not> 0 < (0 :: u32)" "0 < sz" using sz(1) by (simp_all add: word_gt_0)
  then have f: "fresh t = fresh s + 1" using ramfs_write_fresh [OF t(1) V(2,3)] V(4) by simp
  have sh: "shape t x = shape s x" for x
    using t(2) t(4) [of x] n' V(2,3) by (cases "x = a") (auto simp: shape_def)
  note same = same_shape [OF sh]
  have cn: "cname t c = cname s c" for c
    using sh [of c] by (cases "nodes t c"; cases "nodes s c") (auto simp: shape_def cname_def)
  have "item_of t b = (V(a \<mapsto> File (take (unat sz) data))) b" for b
    using t(2) t(4) [of b] n'(1) c' ne V(1) by (cases "b = a") (auto simp: item_of_def fs_is_def cn cong: if_cong)
  moreover have "b \<noteq> 0 \<and> unat b < unat (fresh t) \<and> mount_point (rvnode m) = None \<and> 0 \<in> set (rname m)
      \<and> (if rtype m = VFS_DIR then ramdir_ok b t else rtype m = VFS_FILE \<and> file_ok m)" if m: "nodes t b = Some m" for b m
  proof (cases "b = a")
    case True
    then show ?thesis using m t(2,3) n' live [OF V(2)] f room ne by (auto simp: unat_add_small)
  next
    case False
    then have "nodes s b = Some m" using m t(4) by simp
    from live [OF this] show ?thesis using f room same(1) by (auto simp: unat_add_small)
  qed
  ultimately have "fs_is (V(a \<mapsto> File (take (unat sz) data))) t"
    using room f unfolding fs_is_def by (auto simp: unat_add_small fun_eq_iff)
  then show thesis by (rule that [OF t(1) _ f t(7)])
qed


section \<open>The boot on an abstract file system\<close>

text \<open>A table of nodes and the next address. Operations that the real ones would not carry out have no result.\<close>

type_synonym afs = "(u32 \<Rightarrow> item option) \<times> u32"

definition a_new :: "u32 \<Rightarrow> string \<Rightarrow> item \<Rightarrow> nat \<Rightarrow> afs \<Rightarrow> afs option" where
  "a_new a nm it n x = (case fst x a of
     Some (Folder es) \<Rightarrow>
       if map_of es (chars nm) = None \<and> length es < 64 \<and> 0 \<notin> set (chars nm) \<and> length nm < 128 \<and> unat (snd x) + n < 4294967296
       then Some ((fst x)(a \<mapsto> Folder (es @ [(chars nm, snd x)]), snd x \<mapsto> it), snd x + of_nat n) else None
   | _ \<Rightarrow> None)"

definition a_mkdir :: "u32 \<Rightarrow> string \<Rightarrow> afs \<Rightarrow> afs option" where
  "a_mkdir a nm x = a_new a nm (Folder []) 1 x"

definition a_write_file :: "u32 \<Rightarrow> string \<Rightarrow> bytestr \<Rightarrow> nat \<Rightarrow> afs \<Rightarrow> afs option" where
  "a_write_file a nm data n x =
     (if 0 < n \<and> n < 65536 \<and> n \<le> length data then a_new a nm (File (take n data)) 2 x else None)"

definition a_within :: "u32 \<Rightarrow> string \<Rightarrow> (u32 \<Rightarrow> afs \<Rightarrow> afs option) \<Rightarrow> afs \<Rightarrow> afs option" where
  "a_within r nm g x = (case fst x r of
     Some (Folder es) \<Rightarrow> if 0 \<in> set (chars nm) then None else do { a \<leftarrow> map_of es (chars nm); g a x }
   | _ \<Rightarrow> None)"

definition a_etc :: "(bytestr \<Rightarrow> bytestr) \<Rightarrow> u32 \<Rightarrow> afs \<Rightarrow> afs option" where
  "a_etc after etc x = do {
     x \<leftarrow> a_write_file etc ''motd'' (motd @ 0 # after motd) 100 x;
     x \<leftarrow> a_write_file etc ''hostname'' (hostname @ 0 # after hostname) 6 x;
     a_write_file etc ''passwd'' (passwd @ 0 # after passwd) 36 x }"

definition a_root :: "(bytestr \<Rightarrow> bytestr) \<Rightarrow> u32 \<Rightarrow> afs \<Rightarrow> afs option" where
  "a_root after root x = do {
     x \<leftarrow> a_mkdir root ''bin'' x;
     x \<leftarrow> a_mkdir root ''etc'' x;
     x \<leftarrow> a_mkdir root ''home'' x;
     x \<leftarrow> a_mkdir root ''tmp'' x;
     x \<leftarrow> a_mkdir root ''dev'' x;
     x \<leftarrow> a_mkdir root ''proc'' x;
     x \<leftarrow> a_within root ''home'' (\<lambda>home. a_mkdir home ''user'') x;
     x \<leftarrow> a_within root ''etc'' (a_etc after) x;
     x \<leftarrow> a_write_file root ''README'' (readme @ 0 # after readme) 300 x;
     a_within root ''dev'' (\<lambda>dev. a_mkdir dev ''tty0'') x }"

text \<open>The real operations do what the abstract ones do, and touch nothing but the file system.\<close>

definition refines :: "(afs \<Rightarrow> afs option) \<Rightarrow> ('a fs_scheme \<Rightarrow> 'a fs_scheme option) \<Rightarrow> bool" where
  "refines g h \<longleftrightarrow> (\<forall>x y s. fs_is (fst x) s \<and> fresh s = snd x \<and> g x = Some y \<longrightarrow>
     (\<exists>t. h s = Some t \<and> fs_is (fst y) t \<and> fresh t = snd y \<and> fs.more t = fs.more s))"

lemma refinesI: "(\<And>x y s. fs_is (fst x) s \<Longrightarrow> fresh s = snd x \<Longrightarrow> g x = Some y \<Longrightarrow>
     \<exists>t. h s = Some t \<and> fs_is (fst y) t \<and> fresh t = snd y \<and> fs.more t = fs.more s) \<Longrightarrow> refines g h"
  unfolding refines_def by blast

lemma refinesD: "refines g h \<Longrightarrow> g x = Some y \<Longrightarrow> fs_is (fst x) s \<Longrightarrow> fresh s = snd x \<Longrightarrow>
     \<exists>t. h s = Some t \<and> fs_is (fst y) t \<and> fresh t = snd y \<and> fs.more t = fs.more s"
  unfolding refines_def by blast

lemma refines_bind:
  fixes h h' :: "'a fs_scheme \<Rightarrow> 'a fs_scheme option"
  assumes "refines g h" "refines g' h'"
  shows "refines (\<lambda>x. g x \<bind> g') (\<lambda>s. h s \<bind> h')"
proof (rule refinesI)
  fix x y and s :: "'a fs_scheme" assume s: "fs_is (fst x) s" "fresh s = snd x" and "g x \<bind> g' = Some y"
  then obtain z where z: "g x = Some z" "g' z = Some y" by (auto simp: bind_eq_Some_conv)
  obtain t where t: "h s = Some t" "fs_is (fst z) t" "fresh t = snd z" "fs.more t = fs.more s"
    using refinesD [OF assms(1) z(1) s] by blast
  from refinesD [OF assms(2) z(2) t(2,3)] t(1,4)
  show "\<exists>t. h s \<bind> h' = Some t \<and> fs_is (fst y) t \<and> fresh t = snd y \<and> fs.more t = fs.more s" by auto
qed

lemma a_new_Some:
  assumes "a_new a nm it n x = Some y"
  obtains es where "fst x a = Some (Folder es)" "map_of es (chars nm) = None" "length es < 64" "0 \<notin> set (chars nm)"
    "length nm < 128" "unat (snd x) + n < 4294967296"
    "y = ((fst x)(a \<mapsto> Folder (es @ [(chars nm, snd x)]), snd x \<mapsto> it), snd x + of_nat n)"
  using assms by (auto simp: a_new_def split: option.splits item.splits if_splits)

lemma lit_string: "0 \<notin> set (chars nm) \<Longrightarrow> c_string (chars nm) (lit nm)"
  using c_string_make [of "chars nm" "[]"] by simp

lemma refines_mkdir: "refines (a_mkdir a nm) (ramfs_mkdir a (lit nm) :: 'a fs_scheme \<Rightarrow> 'a fs_scheme option)"
proof (rule refinesI)
  fix x y and s :: "'a fs_scheme" assume s: "fs_is (fst x) s" "fresh s = snd x" and "a_mkdir a nm x = Some y"
  then obtain es where es: "fst x a = Some (Folder es)" "map_of es (chars nm) = None" "length es < 64" "0 \<notin> set (chars nm)"
    "length nm < 128" "unat (snd x) + 1 < 4294967296"
    "y = ((fst x)(a \<mapsto> Folder (es @ [(chars nm, snd x)]), snd x \<mapsto> Folder []), snd x + of_nat 1)"
    by (auto simp: a_mkdir_def elim: a_new_Some)
  have len: "length (chars nm) < 128" and room: "unat (fresh s) + 1 < 4294967296" using es(5,6) s(2) by simp_all
  obtain t n where "ramfs_create a (lit nm) VFS_DIR s = Some (0, t)"
    "fs_is ((fst x)(a \<mapsto> Folder (es @ [(chars nm, fresh s)]), fresh s \<mapsto> (if VFS_DIR = VFS_DIR then Folder [] else File []))) t"
    "fresh t = fresh s + 1" "fs.more t = fs.more s"
    using fs_create [OF s(1) es(1) lit_string [OF es(4)] len es(2,3) room, of VFS_DIR] by blast
  then show "\<exists>t. ramfs_mkdir a (lit nm) s = Some t \<and> fs_is (fst y) t \<and> fresh t = snd y \<and> fs.more t = fs.more s"
    using es(7) s(2) by (simp add: ramfs_mkdir_def)
qed

lemma refines_write_file:
  assumes "unat sz = n"
  shows "refines (a_write_file a nm data n) (ramfs_write_file a (lit nm) data sz :: 'a fs_scheme \<Rightarrow> 'a fs_scheme option)"
proof (rule refinesI)
  fix x y and s :: "'a fs_scheme" assume s: "fs_is (fst x) s" "fresh s = snd x" and y: "a_write_file a nm data n x = Some y"
  then have sz: "sz \<noteq> 0" "unat sz < 65536" "unat sz \<le> length data" using assms by (auto simp: a_write_file_def split: if_splits)
  have "a_new a nm (File (take n data)) 2 x = Some y" using y by (auto simp: a_write_file_def split: if_splits)
  then obtain es where es: "fst x a = Some (Folder es)" "map_of es (chars nm) = None" "length es < 64" "0 \<notin> set (chars nm)"
    "length nm < 128" "unat (snd x) + 2 < 4294967296"
    "y = ((fst x)(a \<mapsto> Folder (es @ [(chars nm, snd x)]), snd x \<mapsto> File (take n data)), snd x + of_nat 2)"
    by (elim a_new_Some) blast
  have nm: "c_string (chars nm) (lit nm)" "length (chars nm) < 128" using es(5) lit_string [OF es(4)] by simp_all
  have ne: "VFS_FILE \<noteq> VFS_DIR" by (simp add: VFS_FILE_def VFS_DIR_def)
  let ?f = "snd x"
  let ?V = "(fst x)(a \<mapsto> Folder (es @ [(chars nm, ?f)]), ?f \<mapsto> File [])"
  have room: "unat (fresh s) + 1 < 4294967296" "unat (?f + 1) + 1 < 4294967296" using es(6) s(2) by (simp_all add: unat_add_small)
  obtain t m where t: "ramfs_create a (lit nm) VFS_FILE s = Some (0, t)"
    "fs_is ((fst x)(a \<mapsto> Folder (es @ [(chars nm, fresh s)]), fresh s \<mapsto> (if VFS_FILE = VFS_DIR then Folder [] else File []))) t"
    "fresh t = fresh s + 1" "fs.more t = fs.more s" "nodes t (fresh s) = Some m" "capacity m = 0"
    using fs_create [OF s(1) es(1) nm es(2,3) room(1), of VFS_FILE] by blast
  have t': "fs_is ?V t" "nodes t ?f = Some m" "unat (fresh t) + 1 < 4294967296" using t(2,3,5) ne s(2) room(2) by simp_all
  have af: "a \<noteq> ?f"
  proof -
    obtain p where "nodes s a = Some p" by (rule fs_is_folder [OF s(1) es(1)]) blast
    then show ?thesis using s by (auto simp: fs_is_def)
  qed
  have "item_of t ?f = Some (File [])" using t'(1) by (simp add: fs_is_def)
  then have m: "rtype m \<noteq> VFS_DIR" "content m = []" using t'(2) by (auto simp: item_of_def split: if_splits)
  then have "rtype m = VFS_FILE" using t'(1,2) by (auto simp: fs_is_def)
  from fs_write [OF t'(1,2) this t(6) m(2) sz t'(3)] obtain u where u: "ramfs_write ?f 0 sz data t = Some (sz, u)"
    "fs_is (?V(?f \<mapsto> File (take (unat sz) data))) u" "fresh u = fresh t + 1" "fs.more u = fs.more t" by blast
  have "ramfs_finddir a (lit nm) t = Some (map_option Ram (map_of (es @ [(chars nm, ?f)]) (chars nm)))"
    by (rule fs_is_find [OF t'(1) _ nm(1)]) (simp add: af)
  also have "map_of (es @ [(chars nm, ?f)]) (chars nm) = Some ?f" using es(2) by (simp add: map_add_def)
  finally have "ramfs_write_file a (lit nm) data sz s = Some u" using t(1) u(1) by (simp add: ramfs_write_file_def)
  then show "\<exists>t. ramfs_write_file a (lit nm) data sz s = Some t \<and> fs_is (fst y) t \<and> fresh t = snd y \<and> fs.more t = fs.more s"
    using u t(3,4) es(7) s(2) assms by simp
qed

lemma refines_within:
  assumes "\<And>a. refines (g a) (h a :: 'a fs_scheme \<Rightarrow> 'a fs_scheme option)"
  shows "refines (a_within r nm g) (within r nm h)"
proof (rule refinesI)
  fix x y and s :: "'a fs_scheme" assume s: "fs_is (fst x) s" "fresh s = snd x" and "a_within r nm g x = Some y"
  then obtain es a where es: "fst x r = Some (Folder es)" "0 \<notin> set (chars nm)" "map_of es (chars nm) = Some a" "g a x = Some y"
    by (auto simp: a_within_def bind_eq_Some_conv split: option.splits item.splits if_splits)
  have "within r nm h s = h a s" using fs_is_find [OF s(1) es(1) lit_string [OF es(2)]] es(3) by (simp add: within_def)
  with refinesD [OF assms es(4) s]
  show "\<exists>t. within r nm h s = Some t \<and> fs_is (fst y) t \<and> fresh t = snd y \<and> fs.more t = fs.more s" by simp
qed

lemma refines_build_root: "refines (a_root after r) (build_root after r)"
  unfolding a_root_def [abs_def] build_root_def [abs_def] a_etc_def [abs_def] build_etc_def [abs_def]
  by (intro refines_bind refines_mkdir refines_write_file refines_within) simp_all


text \<open>The table that the boot makes, for a root at the address \<open>f\<close>; the buffers of the files have addresses, too.\<close>

definition boot_table :: "(bytestr \<Rightarrow> bytestr) \<Rightarrow> u32 \<Rightarrow> u32 \<Rightarrow> item option" where
  "boot_table after f =
    [f \<mapsto> Folder [(chars ''bin'', f + 1), (chars ''etc'', f + 2), (chars ''home'', f + 3), (chars ''tmp'', f + 4), (chars ''dev'', f + 5), (chars ''proc'', f + 6), (chars ''README'', f + 14)],
     f + 1 \<mapsto> Folder [],
     f + 2 \<mapsto> Folder [(chars ''motd'', f + 8), (chars ''hostname'', f + 10), (chars ''passwd'', f + 12)],
     f + 3 \<mapsto> Folder [(chars ''user'', f + 7)],
     f + 4 \<mapsto> Folder [],
     f + 5 \<mapsto> Folder [(chars ''tty0'', f + 16)],
     f + 6 \<mapsto> Folder [],
     f + 7 \<mapsto> Folder [],
     f + 8 \<mapsto> File (take 100 (motd @ 0 # after motd)),
     f + 10 \<mapsto> File (take 6 (hostname @ 0 # after hostname)),
     f + 12 \<mapsto> File (take 36 (passwd @ 0 # after passwd)),
     f + 14 \<mapsto> File (take 300 (readme @ 0 # after readme)),
     f + 16 \<mapsto> Folder []]"

lemma literal_lengths: "length motd = 90" "length hostname = 5" "length passwd = 35" "length readme = 282"
  by (simp_all add: motd_def hostname_def passwd_def readme_def)

lemma a_root_table:
  assumes "9 \<le> length (after motd)" "17 \<le> length (after readme)" "unat f + 17 < 4294967296"
  shows "a_root after f ([f \<mapsto> Folder []], f + 1) = Some (boot_table after f, f + 17)"
proof -
  have addrs: "unat (f + 1) = unat f + 1" "\<And>n. numeral n + f = f + numeral n" "\<And>n. unat (numeral n :: u32) \<le> 17 \<Longrightarrow> unat (f + numeral n) = unat f + unat (numeral n :: u32)"
    using assms(3) by (simp_all add: unat_add_small add.commute)
  show ?thesis
    using assms by (simp add: a_root_def a_mkdir_def a_new_def a_within_def a_write_file_def a_etc_def literal_lengths addrs
       boot_table_def fun_upd_twist)
qed

lemma fs_more_vfs:
  fixes s t :: "'a vfs_scheme"
  assumes "fs.more t = fs.more s"
  shows "vfs_root t = vfs_root s" "tty_vnode t = tty_vnode s" "console t = console s" "files t = files s"
    "vfs.more t = vfs.more s"
  using assms by (cases s rule: vfs.cases_scheme; cases t rule: vfs.cases_scheme; simp)+

lemma fs_is_nodes:
  assumes "nodes t = nodes s" "fresh t = fresh s"
  shows "fs_is V t = fs_is V s"
proof -
  have cn: "cname t = cname s" "child_ok t = child_ok s" by (simp_all add: fun_eq_iff cname_def child_ok_def assms)
  then have "item_of t = item_of s" by (intro ext) (simp add: item_of_def assms cn cong: if_cong)
  moreover have "ramdir_ok a t = ramdir_ok a s" for a
    using cn by (simp add: ramdir_ok_def kids_def assms)
  ultimately show ?thesis by (simp add: fs_is_def assms)
qed

text \<open>The root of an empty file system.\<close>

lemma fs_root:
  fixes s :: "'a fs_scheme"
  assumes s: "nodes s = Map.empty" and f: "unat (fresh s) + 1 < 4294967296" "fresh s \<noteq> 0"
  obtains t where "ramfs_create_root s = Some (Ram (fresh s), t)" "fs_is [fresh s \<mapsto> Folder []] t" "fresh t = fresh s + 1"
    "fs.more t = fs.more s"
proof -
  have nm: "c_string (chars ''/'') (map of_char ''/'' @ [0])" "length (chars ''/'') < 128"
    using c_string_make [of "chars ''/''" "[]"] by simp_all
  obtain n t where t: "new_ramfs_node (map of_char ''/'' @ [0]) VFS_DIR s = Some (fresh s, t)"
    "t = s\<lparr>nodes := (nodes s)(fresh s \<mapsto> n), next_inode := next_inode s + 1, fresh := fresh s + 1\<rparr>"
    "rtype n = VFS_DIR" "children n = []" "0 \<in> set (rname n)" "mount_point (rvnode n) = None"
    using new_node_some [OF nm f(2), of VFS_DIR] by metis
  have nt: "nodes t = [fresh s \<mapsto> n]" and ft: "fresh t = fresh s + 1" using t(2) s by simp_all
  have "ramdir_ok (fresh s) t" using nt t(3,4) f(2) by (simp add: ramdir_ok_def kids_def)
  moreover have "unat (fresh s) < unat (fresh t)" using ft f(1) by (simp add: unat_add_small)
  moreover have "item_of t = [fresh s \<mapsto> Folder []]" using nt t(3,4) by (auto simp: item_of_def fun_eq_iff)
  ultimately have "fs_is [fresh s \<mapsto> Folder []] t" using nt t(3,5,6) f(2) by (auto simp: fs_is_def)
  moreover have "fs.more t = fs.more s" using t(2) by simp
  ultimately show thesis using that [of t] t(1) ft by (simp add: ramfs_create_root_def)
qed

lemma build_initfs_some:
  fixes s :: "'a vfs_scheme"
  assumes s: "nodes s = Map.empty" and f: "unat (fresh s) + 17 < 4294967296" "fresh s \<noteq> 0"
    and after: "9 \<le> length (after motd)" "17 \<le> length (after readme)"
  shows "\<exists>t. build_initfs after s = Some t \<and> fs_is (boot_table after (fresh s)) t \<and> vfs_root t = Some (Ram (fresh s))
    \<and> tty_vnode t = tty_vnode s \<and> console t = console s \<and> files t = files s \<and> vfs.more t = vfs.more s"
proof -
  obtain u where u: "ramfs_create_root (vfs_init s) = Some (Ram (fresh s), u)" "fs_is [fresh s \<mapsto> Folder []] u"
    "fresh u = fresh s + 1" "fs.more u = fs.more (vfs_init s)"
    using fs_root [of "vfs_init s"] s f by (auto simp: vfs_init_def)
  have "strcmp (lit ''/'') [slash, 0] = Some 0" by (simp add: of_char_def)
  then have mnt: "vfs_mount (lit ''/'') (Ram (fresh s)) u = Some (0, u\<lparr>vfs_root := Some (Ram (fresh s))\<rparr>)"
    by (simp add: vfs_mount_def)
  let ?w = "u\<lparr>vfs_root := Some (Ram (fresh s))\<rparr>"
  have "fs_is [fresh s \<mapsto> Folder []] ?w" using u(2) fs_is_nodes [of ?w u] by simp
  from refinesD [OF refines_build_root a_root_table [OF after f(1)], of ?w] this u(3)
  obtain t where t: "build_root after (fresh s) ?w = Some t" "fs_is (boot_table after (fresh s)) t" "fs.more t = fs.more ?w"
    by auto
  show ?thesis using u(1) mnt t(1,2) fs_more_vfs [OF t(3)] fs_more_vfs [OF u(4)] by (simp add: build_initfs_def vfs_init_def)
qed

text \<open>
  C39. \<^verbatim>\<open>build_initfs\<close> from an empty heap of nodes: it returns, the root of the file system is a directory with the seven
  entries, the tree has exactly the directories and files of the table with the bytes that the sizes in
  the calls say, and the console, the open files and the rest of the system are as before.
\<close>

theorem build_initfs_tree:
  fixes s :: "'a vfs_scheme"
  assumes s: "nodes s = Map.empty" and f: "unat (fresh s) + 17 < 4294967296" "fresh s \<noteq> 0"
    and after: "9 \<le> length (after motd)" "17 \<le> length (after readme)"
  shows "\<exists>t. build_initfs after s = Some t \<and> fs_is (boot_table after (fresh s)) t \<and> vfs_root t = Some (Ram (fresh s))
    \<and> tty_vnode t = tty_vnode s \<and> console t = console s \<and> files t = files s \<and> vfs.more t = vfs.more s"
  by (rule build_initfs_some [OF assms])

theorem build_initfs_tree_witness:
  "\<exists>t. build_initfs (\<lambda>_. replicate 17 0) (some_vfs\<lparr>nodes := Map.empty, fresh := 1\<rparr>) = Some t
    \<and> item_of t 3 = Some (Folder [(chars ''motd'', 9), (chars ''hostname'', 11), (chars ''passwd'', 13)])
    \<and> item_of t 11 = Some (File (chars ''myos'' @ [10, 0]))"
proof -
  obtain t where t: "build_initfs (\<lambda>_. replicate 17 0) (some_vfs\<lparr>nodes := Map.empty, fresh := 1\<rparr>) = Some t"
    "fs_is (boot_table (\<lambda>_. replicate 17 0) 1) t"
    using build_initfs_tree [of "some_vfs\<lparr>nodes := Map.empty, fresh := 1\<rparr>" "\<lambda>_. replicate 17 0"] by auto
  then have "item_of t = boot_table (\<lambda>_. replicate 17 0) 1" by (simp add: fs_is_def)
  then have "item_of t 3 = Some (Folder [(chars ''motd'', 9), (chars ''hostname'', 11), (chars ''passwd'', 13)])"
    "item_of t 11 = Some (File (chars ''myos'' @ [10, 0]))" by (simp_all add: boot_table_def hostname_def)
  with t(1) show ?thesis by blast
qed

end
