(* ===== verification/Boot.thy ===== *)
theory Boot
  imports Initfs
begin

text \<open>
  Starting the system, \<^verbatim>\<open>kernel/main.c\<close>: the memory size, the order in which the components are set up,
  and the first process. Each component has its own state, so that the whole machine is a record of
  them; the parts that share physical memory are handed on explicitly. The last part composes the
  components: what holds of all of them when the kernel gets to its idle loop.
\<close>

unbundle bit_operations_syntax

section \<open>The size of the memory\<close>

definition MBOOT_MAGIC :: u32 where "MBOOT_MAGIC = 0x2BADB002"

text \<open>The one field of the multiboot information that is read; \<open>None\<close> is the NULL pointer.\<close>

record mboot_info =
  mem_upper :: u32

definition mem_size :: "u32 \<Rightarrow> mboot_info option \<Rightarrow> u32" where
  "mem_size magic mbi =
     (let mem_kb = 1024;
          mem_kb = (case mbi of Some m \<Rightarrow> if magic = MBOOT_MAGIC then mem_upper m + 1024 else mem_kb | None \<Rightarrow> mem_kb);
          mem_bytes = mem_kb * 1024
      in if mem_bytes < 4 * 1024 * 1024 then 4 * 1024 * 1024 else mem_bytes)"

section \<open>The first process\<close>

text \<open>The loop that makes the descriptors 0, 1 and 2 a terminal each.\<close>

definition tty_fd :: "nat \<Rightarrow> 'a kernel_scheme \<Rightarrow> 'a kernel_scheme option" where
  "tty_fd i s = do {
     (f, s) \<leftarrow> new_addr s;
     let s = s\<lparr>files := (files s)(f \<mapsto> \<lparr>foffset = 0, fvnode = Tty, fflags = (if i = 0 then 0 else 1), fref = 1\<rparr>)\<rparr>;
     let s = upd_vnode Tty (\<lambda>n. n\<lparr>ref_count := ref_count n + 1\<rparr>) s;
     set_fd i f s
   }"

partial_function (option) show_motd :: "u32 \<Rightarrow> 'a kernel_scheme \<Rightarrow> 'a kernel_scheme option" where
  "show_motd f s = do {
     (n, buf, s) \<leftarrow> file_read f (replicate 256 0) 255 s;
     if 0 < sint n then do { buf \<leftarrow> buf_set (unat n) 0 buf; s \<leftarrow> puts buf s; show_motd f s } else Some s
   }"

text \<open>Up to the start of the shell; after it the CPU halts.\<close>

definition init_process :: "'a kernel_scheme \<Rightarrow> 'a kernel_scheme option" where
  "init_process s = do {
     (_, s) \<leftarrow> file_open (Some (lit ''/dev/tty0'')) 0 s;
     (_, s) \<leftarrow> file_open (Some (lit ''/dev/tty0'')) 1 s;
     s \<leftarrow> for_range 0 3 tty_fd s;
     s \<leftarrow> kprintf [10, 0] [] s;
     (f, s) \<leftarrow> file_open (Some (lit ''/etc/motd'')) 0 s;
     s \<leftarrow> (if f = 0 then Some s else do { s \<leftarrow> show_motd f s; map_option snd (file_close f s) });
     s \<leftarrow> shell_main s;
     puts ([10] @ line_lit ''Shell exited. Halting.'') s
   }"

section \<open>kernel_main\<close>

record system = machine +
  segs :: segments
  gts :: gates
  kheap :: heap

text \<open>Where the linker has put the tables, the stubs and the functions.\<close>

record image =
  i_gdt :: u32
  i_tss :: u32
  i_idt :: u32
  i_isr :: "nat \<Rightarrow> u32"
  i_irq :: "nat \<Rightarrow> u32"
  i_isr128 :: u32
  i_end :: u32
  i_init :: u32
  i_after :: "bytestr \<Rightarrow> bytestr"

definition greet :: "'a vfs_scheme \<Rightarrow> 'a vfs_scheme option" where
  "greet s = do {
     t \<leftarrow> tty_clear (console s);
     let t = serial_write (of_char CHR ''a'') t;
     t \<leftarrow> serial_puts (line_lit ''[BOOT] MyOS kernel starting...'') t;
     t \<leftarrow> tty_puts (line_lit ''MyOS booting...'') t;
     Some (s\<lparr>console := t\<rparr>)
   }"

definition kernel_main :: "image \<Rightarrow> u32 \<Rightarrow> mboot_info option \<Rightarrow> system \<Rightarrow> system option" where
  "kernel_main im magic mbi s = do {
     let s = s\<lparr>io := serial_init (io s)\<rparr>;
     s \<leftarrow> greet s;
     let mem_bytes = mem_size magic mbi;
     s \<leftarrow> kprintf (line_lit ''[INIT] GDT...'') [] s;
     g \<leftarrow> gdt_init (i_gdt im) (i_tss im) (segs s);
     s \<leftarrow> kprintf (line_lit ''[INIT] IDT...'') [] (s\<lparr>segs := g\<rparr>);
     t \<leftarrow> idt_init (i_idt im) (i_isr im) (i_irq im) (i_isr128 im) ((gts s)\<lparr>gports := io s\<rparr>);
     let s = s\<lparr>gts := t, io := gports t, int_on := True\<rparr>;
     s \<leftarrow> kprintf (line_lit ''[INIT] PMM (mem: %d MB)...'') [VWord (mem_bytes div 1024 div 1024)] s;
     p \<leftarrow> pmm_init mem_bytes (i_end im);
     s \<leftarrow> kprintf (line_lit ''[INIT] VMM...'') [] s;
     v \<leftarrow> vmm_init ((hvm (kheap s))\<lparr>pm := p\<rparr>);
     s \<leftarrow> kprintf (line_lit ''[INIT] Heap...'') [] s;
     h \<leftarrow> heap_init ((kheap s)\<lparr>hvm := v\<rparr>);
     s \<leftarrow> kprintf (line_lit ''[INIT] VFS + ramfs...'') [] (s\<lparr>kheap := h\<rparr>);
     s \<leftarrow> build_initfs (i_after im) s;
     s \<leftarrow> kprintf (line_lit ''[INIT] PIT (100Hz)...'') [] s;
     let s = s\<lparr>io := pit_init (io s)\<rparr>;
     s \<leftarrow> kprintf (line_lit ''[INIT] Process manager...'') [] s;
     p \<leftarrow> proc_init ((procs s)\<lparr>pvm := hvm (kheap s)\<rparr>);
     s \<leftarrow> kprintf (map of_char ''[BOOT] Kernel initialized! Starting init...'' @ [10, 10, 0]) [] (s\<lparr>procs := p\<rparr>);
     (_, p) \<leftarrow> proc_create_kernel (i_init im) (lit ''init'') (procs s);
     Some (s\<lparr>procs := p, int_on := True\<rparr>)
   }"



section \<open>The whole start\<close>

definition blank_screen :: screen where
  "blank_screen = (replicate 25 blank_line, 0, 0)"

lemma tty_clear_shows:
  fixes s :: tty
  assumes "length (vga s) = 2000"
  shows "\<exists>t. tty_clear s = Some t \<and> displays t blank_screen"
proof -
  have "\<exists>t. for_range 0 (80 * 25) (\<lambda>i. vga_set i blank) s = Some t
    \<and> length (vga t) = 2000 \<and> take (80 * 25) (vga t) = replicate (80 * 25) blank"
  proof (rule for_range_inv [where P = "\<lambda>i (t :: tty). length (vga t) = 2000 \<and> take i (vga t) = replicate i blank"])
    fix i and t :: tty assume "0 \<le> i" "i < 80 * 25" "length (vga t) = 2000 \<and> take i (vga t) = replicate i blank"
    then show "\<exists>u. vga_set i blank t = Some u \<and> length (vga u) = 2000 \<and> take (Suc i) (vga u) = replicate (Suc i) blank"
      by (simp add: vga_set_def take_Suc_conv_app_nth replicate_append_same)
  qed (use assms in auto)
  then obtain t where t: "for_range 0 (80 * 25) (\<lambda>i. vga_set i blank) s = Some t"
    "length (vga t) = 2000 \<and> take (80 * 25) (vga t) = replicate (80 * 25) blank" by blast
  from t(2) have "length (vga t) = 2000" "take 2000 (vga t) = replicate 2000 blank" by simp_all
  then have "vga t = concat (replicate 25 blank_line)" by (simp add: blank_page(2))
  then have "displays (vga_update_cursor (t\<lparr>cur_col := 0, cur_row := 0\<rparr>)) blank_screen"
    by (simp add: displays_def blank_screen_def blank_page(1) vga_update_cursor_def)
  with t(1) show ?thesis by (simp add: tty_clear_def)
qed

lemma serial_puts_total: "\<exists>t. serial_puts (xs @ [0]) s = Some t \<and> vga t = vga s \<and> cur_row t = cur_row s \<and> cur_col t = cur_col s"
proof (induction xs arbitrary: s)
  case (Cons c xs)
  from Cons [of "serial_write c (if c = 10 then serial_write 13 s else s)"] show ?case
    by (auto simp: serial_write_def split: if_splits)
qed simp

lemma line_end: "xs @ [10, 0 :: u8] = (xs @ [10]) @ [0]"
  by simp

definition hello :: bytestr where "hello = chars ''MyOS booting...'' @ [10]"

lemma greet_shows:
  fixes s :: "'a vfs_scheme"
  assumes "length (vga (console s)) = 2000"
  shows "\<exists>c. greet s = Some (s\<lparr>console := c\<rparr>) \<and> displays c (fold type_char hello blank_screen)"
proof -
  obtain t where t: "tty_clear (console s) = Some t" "displays t blank_screen" using tty_clear_shows [OF assms] by blast
  obtain u where u: "serial_puts ((chars ''[BOOT] MyOS kernel starting...'' @ [10]) @ [0]) (serial_write (of_char CHR ''a'') t) = Some u"
    "vga u = vga t" "cur_row u = cur_row t" "cur_col u = cur_col t"
    using serial_puts_total [of "chars ''[BOOT] MyOS kernel starting...'' @ [10]" "serial_write (of_char CHR ''a'') t"]
    by (auto simp: serial_write_def)
  have "displays u blank_screen" using t(2) u(2-4) by (simp add: displays_def)
  moreover have "\<forall>c\<in>set hello. c \<noteq> 0 \<and> c \<noteq> 9" by (simp add: hello_def)
  ultimately obtain c where "tty_puts (hello @ [0]) u = Some c" "displays c (fold type_char hello blank_screen)"
    using puts_displays by blast
  moreover from this(1) have "greet s = Some (s\<lparr>console := c\<rparr>)"
    by (simp only: greet_def line_end t(1) u(1) hello_def [symmetric] Let_def Option.bind.simps)
  ultimately show ?thesis by blast
qed

lemma render_plain: "0 \<notin> set xs \<Longrightarrow> 37 \<notin> set xs \<Longrightarrow> render (xs @ 0 # r) ap = Some xs"
  by (induction xs) (auto simp: render_char render_end)

lemma kprintf_plain:
  fixes s :: "'a vfs_scheme"
  assumes "displays (console s) T" "set xs \<inter> {0, 9, 37} = {}" "length xs < 512"
  shows "\<exists>c. kprintf (xs @ [0]) [] s = Some (s\<lparr>console := c\<rparr>) \<and> displays c (fold type_char xs T)"
proof (rule emitsD [OF emits_kprintf assms(1)])
  show "render (xs @ [0]) [] = Some xs" using assms(2) by (intro render_plain) auto
qed (use assms in \<open>auto simp: printable_def\<close>)

lemma card_frames:
  assumes "free_frames p = {a. page_aligned a \<and> lo * 4096 \<le> unat a \<and> unat a < hi * 4096}" "hi \<le> 65536"
  shows "hi - lo \<le> card (free_frames p)"
proof -
  let ?f = "\<lambda>k. of_nat (4096 * k) :: u32"
  have un: "unat (?f k) = 4096 * k" if "k < hi" for k
    using that assms(2) by (intro unat_of_nat_small) simp
  have "inj_on ?f {lo..<hi}"
  proof (rule inj_onI)
    fix x y assume "x \<in> {lo..<hi}" "y \<in> {lo..<hi}" "?f x = ?f y"
    then show "x = y" using un [of x] un [of y] by simp
  qed
  then have "hi - lo = card (?f ` {lo..<hi})" by (simp add: card_image)
  also have "\<dots> \<le> card (free_frames p)"
  proof (rule card_mono [OF finite_free_frames], rule image_subsetI)
    fix k assume k: "k \<in> {lo..<hi}"
    then have "unat (?f k) = 4096 * k" by (intro un) simp
    with k show "?f k \<in> free_frames p" by (simp only: assms(1) mem_Collect_eq page_aligned_def) simp
  qed
  finally show ?thesis .
qed

text \<open>The messages on the way, the memory size in MB in one of them.\<close>

definition boot_msg :: "string list \<Rightarrow> bytestr" where
  "boot_msg ts = concat (map (\<lambda>t. chars t @ [10]) ts)"

definition cpu_text :: "u32 \<Rightarrow> bytestr" where
  "cpu_text mem = hello @ boot_msg [''[INIT] GDT...'', ''[INIT] IDT...'']
     @ chars ''[INIT] PMM (mem: '' @ decimal (sint (mem div 1024 div 1024)) @ chars '' MB)...'' @ [10]"

definition boot_text :: "u32 \<Rightarrow> bytestr" where
  "boot_text mem = cpu_text mem @ boot_msg [''[INIT] VMM...'', ''[INIT] Heap...'', ''[INIT] VFS + ramfs...'', ''[INIT] PIT (100Hz)...'',
     ''[INIT] Process manager...'', ''[BOOT] Kernel initialized! Starting init...'', '''']"

lemma kprintf_line:
  fixes s :: "'a vfs_scheme"
  assumes "displays (console s) T" "set (chars t) \<inter> {0, 9, 37} = {}" "length t < 500"
  shows "\<exists>c. kprintf (line_lit t) [] s = Some (s\<lparr>console := c\<rparr>) \<and> displays c (fold type_char (boot_msg [t]) T)"
  using kprintf_plain [OF assms(1), of "chars t @ [10]"] assms(2,3) by (simp add: boot_msg_def)

lemma render_mem:
  assumes "v \<noteq> 0x80000000"
  shows "render (line_lit ''[INIT] PMM (mem: %d MB)...'') [VWord v]
    = Some (chars ''[INIT] PMM (mem: '' @ decimal (sint v) @ chars '' MB)...'' @ [10])"
  using assms by (simp add: render_char render_end render_d [simplified])

lemma kprintf_mem:
  fixes s :: "'a vfs_scheme" and v :: u32
  assumes "displays (console s) T" "v \<noteq> 0x80000000"
  shows "\<exists>c. kprintf (line_lit ''[INIT] PMM (mem: %d MB)...'') [VWord v] s = Some (s\<lparr>console := c\<rparr>)
    \<and> displays c (fold type_char (chars ''[INIT] PMM (mem: '' @ decimal (sint v) @ chars '' MB)...'' @ [10]) T)"
  by (rule emitsD [OF emits_kprintf [OF render_mem [OF assms(2)]] assms(1)])
    (use decimal_chars [of v] in \<open>auto simp: printable_def\<close>)

lemma init_table_fds:
  assumes "proc_init s = Some t"
  shows "\<forall>p\<in>set (proc_table t). fds p = replicate 32 0"
  by (rule proc_init_some [of s])
    (use assms in \<open>auto simp: zero_process_def MAX_FDS_def dest!: set_update_subset_insert [THEN subsetD]\<close>)

lemma init_created:
  assumes "proc_init s = Some t"
  shows "\<exists>u. proc_create_kernel start (lit ''init'') t = Some (Some 1, u) \<and> sched_inv u \<and> current_proc u = Some 0
    \<and> st u 0 = PROC_RUNNING \<and> st u 1 = PROC_READY \<and> (\<forall>p\<in>set (proc_table u). fds p = replicate 32 0)"
proof -
  note I = init_table [OF assms]
  have "st t 1 = PROC_UNUSED" "\<And>j. j < 1 \<Longrightarrow> st t j \<noteq> PROC_UNUSED" using I(3,4) by (simp_all add: zero_process_def)
  then obtain u where u: "proc_create_kernel start (lit ''init'') t = Some (Some 1, u)"
    using create_ok [OF init_pre(2) [OF assms], of 1 "chars ''init''"] by auto
  have "sched_inv u" by (rule kstep_inv [OF kstep.create [OF u] init_pre(2) [OF assms]])
  moreover have "current_proc u = Some 0" "st u 0 = PROC_RUNNING" "st u 1 = PROC_READY"
    by (rule create_some [OF u I(1)]; use I(1-3) in \<open>simp add: upd_proc_def\<close>)+
  moreover have "\<forall>p\<in>set (proc_table u). fds p = replicate 32 0"
  proof (rule create_some [OF u I(1)])
    fix parent nm dir
    assume "u = (upd_proc 1 (\<lambda>_. zero_process\<lparr>pid := next_kpid t, ppid := parent, pstate := PROC_READY,
       page_dir := kernel_dir (pvm t), pname := nm, cwd := dir, esp := kstack t 1 + 8192 - 4 - 16,
       kernel_stack_top := kstack t 1 + 8192\<rparr>) t)
       \<lparr>next_kpid := next_kpid t + 1, kmem := kmemset (kstack t 1 + 8192 - 4 - 16) 0 16
          (wr32 (kmemset (kstack t 1) 0 8192 (kmem t)) (kstack t 1 + 8192 - 4) start)\<rparr>"
    then show ?thesis using init_table_fds [OF assms]
      by (auto simp: upd_proc_def zero_process_def MAX_FDS_def dest!: set_update_subset_insert [THEN subsetD])
  qed
  ultimately show ?thesis using u by blast
qed

lemma system_more:
  fixes s t :: system
  assumes "vfs.more t = vfs.more s"
  shows "procs t = procs s" "io t = io s" "int_on t = int_on s" "segs t = segs s" "gts t = gts s" "kheap t = kheap s"
  using assms by (cases s rule: system.cases; cases t rule: system.cases; simp)+

text \<open>The memory: frames, paging, heap.\<close>

lemma memory_starts:
  assumes "mem div PAGE_SIZE \<le> 65536" "0 < k_end" "unat k_end + 4095 < 4294967296"
    "kernel_pages k_end + 4 \<le> unat (mem div PAGE_SIZE)" "heap_brk h = HEAP_START"
  shows "\<exists>p v t. pmm_init mem k_end = Some p \<and> vmm_init ((hvm h)\<lparr>pm := p\<rparr>) = Some v \<and> heap_init (h\<lparr>hvm := v\<rparr>) = Some t
    \<and> heap_ok t \<and> blocks t = [(4076, True)]"
proof -
  obtain p where p: "pmm_init mem k_end = Some p" "pmm_inv p"
    "free_frames p = {a. page_aligned a \<and> kernel_pages k_end * 4096 \<le> unat a \<and> unat a < unat (mem div PAGE_SIZE) * 4096}"
    using pmm_init_ok [of mem k_end] assms(1-4) by auto
  have "unat (mem div PAGE_SIZE) \<le> 65536" using assms(1) by (simp add: word_le_nat_alt)
  from card_frames [OF p(3) this] assms(4) have four: "4 \<le> card (free_frames p)" by simp
  have "vm_ok ((hvm h)\<lparr>pm := p\<rparr>)" "2 \<le> card (free_frames (pm ((hvm h)\<lparr>pm := p\<rparr>)))" using p(2) four by (simp_all add: vm_ok_def)
  then obtain v where v: "vmm_init ((hvm h)\<lparr>pm := p\<rparr>) = Some v" "vm_ok v" "dir_ok v (kernel_dir v)"
    "card (free_frames (pm ((hvm h)\<lparr>pm := p\<rparr>))) \<le> card (free_frames (pm v)) + 2" by (rule vmm_init_ok) blast
  have "kernel_ok (hvm (h\<lparr>hvm := v\<rparr>))" "heap_brk (h\<lparr>hvm := v\<rparr>) = HEAP_START" "2 \<le> frames_left (hvm (h\<lparr>hvm := v\<rparr>))"
    using v(2-4) four assms(5) by (simp_all add: kernel_ok_def frames_left_def)
  then obtain t where "heap_init (h\<lparr>hvm := v\<rparr>) = Some t" "heap_ok t" "blocks t = [(4076, True)]" by (rule heap_init_some) blast
  with p(1) v(1) show ?thesis by blast
qed

text \<open>The machine before the boot: every variable as the loader leaves it, and a keyboard controller that answers.\<close>

definition powered_on :: "image \<Rightarrow> u32 \<Rightarrow> system \<Rightarrow> bool" where
  "powered_on im mem s \<longleftrightarrow> length (vga (console s)) = 2000 \<and> length (gdt (segs s)) = 6 \<and> length (idt (gts s)) = 256
     \<and> (\<exists>full idle rest junk cmd more. input (io s) 0x64 = full @ idle # rest \<and> (\<forall>v\<in>set full. v AND 1 \<noteq> 0) \<and> idle AND 1 = 0
         \<and> input (io s) 0x60 = junk @ cmd # more \<and> length junk = length full)
     \<and> nodes s = Map.empty \<and> fresh s \<noteq> 0 \<and> unat (fresh s) + 17 < 4294967296
     \<and> 9 \<le> length (i_after im motd) \<and> 17 \<le> length (i_after im readme)
     \<and> heap_brk (kheap s) = HEAP_START \<and> mem div PAGE_SIZE \<le> 65536 \<and> 0 < i_end im \<and> unat (i_end im) + 4095 < 4294967296
     \<and> kernel_pages (i_end im) + 4 \<le> unat (mem div PAGE_SIZE)"

lemma boot_devices:
  assumes on: "powered_on im mem s"
  obtains s1 s2 s3 s4 g t where
    "greet (s\<lparr>io := serial_init (io s)\<rparr>) = Some s1" "kprintf (line_lit ''[INIT] GDT...'') [] s1 = Some s2"
    "gdt_init (i_gdt im) (i_tss im) (segs s2) = Some g" "kprintf (line_lit ''[INIT] IDT...'') [] (s2\<lparr>segs := g\<rparr>) = Some s3"
    "idt_init (i_idt im) (i_isr im) (i_irq im) (i_isr128 im) ((gts s3)\<lparr>gports := io s3\<rparr>) = Some t"
    "kprintf (line_lit ''[INIT] PMM (mem: %d MB)...'') [VWord (mem div 1024 div 1024)]
       (s3\<lparr>gts := t, io := gports t, int_on := True\<rparr>) = Some s4"
    "displays (console s4) (fold type_char (cpu_text mem) blank_screen)"
    "gdtr (segs s4) = Some \<lparr>ptr_limit = 47, ptr_base = i_gdt im\<rparr>" "idtr (gts s4) = Some \<lparr>ptr_limit = 2047, ptr_base = i_idt im\<rparr>"
    "int_on s4" "nodes s4 = nodes s" "fresh s4 = fresh s" "kheap s4 = kheap s" "files s4 = files s"
proof -
  note on = on [unfolded powered_on_def]
  have "length (vga (console (s\<lparr>io := serial_init (io s)\<rparr>))) = 2000" using on by simp
  from greet_shows [OF this] obtain c1 where c1: "greet (s\<lparr>io := serial_init (io s)\<rparr>) = Some (s\<lparr>io := serial_init (io s), console := c1\<rparr>)"
    "displays c1 (fold type_char hello blank_screen)" by auto
  define s1 where "s1 = s\<lparr>io := serial_init (io s), console := c1\<rparr>"
  have "displays (console s1) (fold type_char hello blank_screen)" using c1(2) by (simp add: s1_def)
  from kprintf_line [OF this, of "''[INIT] GDT...''"]
  obtain c2 where c2: "kprintf (line_lit ''[INIT] GDT...'') [] s1 = Some (s1\<lparr>console := c2\<rparr>)"
    "displays c2 (fold type_char (boot_msg [''[INIT] GDT...'']) (fold type_char hello blank_screen))" by auto
  define s2 where "s2 = s1\<lparr>console := c2\<rparr>"
  have "length (gdt (segs s2)) = 6" using on by (simp add: s1_def s2_def)
  from gdt_init_some [OF this] obtain g where g: "gdt_init (i_gdt im) (i_tss im) (segs s2) = Some g"
    "gdtr g = Some \<lparr>ptr_limit = 47, ptr_base = i_gdt im\<rparr>" by blast
  have "displays (console (s2\<lparr>segs := g\<rparr>)) (fold type_char (boot_msg [''[INIT] GDT...'']) (fold type_char hello blank_screen))"
    using c2(2) by (simp add: s2_def)
  from kprintf_line [OF this, of "''[INIT] IDT...''"]
  obtain c3 where c3: "kprintf (line_lit ''[INIT] IDT...'') [] (s2\<lparr>segs := g\<rparr>) = Some (s2\<lparr>segs := g, console := c3\<rparr>)"
    "displays c3 (fold type_char (boot_msg [''[INIT] IDT...'']) (fold type_char (boot_msg [''[INIT] GDT...'']) (fold type_char hello blank_screen)))"
    by auto
  define s3 where "s3 = s2\<lparr>segs := g, console := c3\<rparr>"
  have io3: "input (io s3) = input (io s)" "length (idt ((gts s3)\<lparr>gports := io s3\<rparr>)) = 256"
    using on by (simp_all add: s1_def s2_def s3_def serial_init_def outs_sent)
  obtain full idle rest junk cmd more where kb: "input (io s) 0x64 = full @ idle # rest" "\<forall>v\<in>set full. v AND 1 \<noteq> 0" "idle AND 1 = 0"
    "input (io s) 0x60 = junk @ cmd # more" "length junk = length full" using on by blast
  have "input (gports ((gts s3)\<lparr>gports := io s3\<rparr>)) 0x64 = full @ idle # rest"
    "input (gports ((gts s3)\<lparr>gports := io s3\<rparr>)) 0x60 = junk @ cmd # more" using kb(1,4) io3(1) by simp_all
  from idt_init_some [OF io3(2) this(1) kb(2,3) this(2) kb(5)]
  obtain t where t: "idt_init (i_idt im) (i_isr im) (i_irq im) (i_isr128 im) ((gts s3)\<lparr>gports := io s3\<rparr>) = Some t"
    "idtr t = Some \<lparr>ptr_limit = 2047, ptr_base = i_idt im\<rparr>" by blast
  let ?v = "mem div 1024 div 1024"
  have "unat mem div 1024 div 1024 \<le> unat mem div 1024" "unat mem div 1024 < 4194304"
    using unat_u32_lt [of mem] by (simp, intro less_mult_imp_div_less) simp
  then have "unat ?v < 2147483648" by (simp add: unat_div_num)
  then have v: "?v \<noteq> 0x80000000" by auto
  have "displays (console (s3\<lparr>gts := t, io := gports t, int_on := True\<rparr>))
      (fold type_char (boot_msg [''[INIT] IDT...'']) (fold type_char (boot_msg [''[INIT] GDT...'']) (fold type_char hello blank_screen)))"
    using c3(2) by (simp add: s3_def)
  from kprintf_mem [OF this v]
  obtain c4 where c4: "kprintf (line_lit ''[INIT] PMM (mem: %d MB)...'') [VWord ?v] (s3\<lparr>gts := t, io := gports t, int_on := True\<rparr>)
      = Some (s3\<lparr>gts := t, io := gports t, int_on := True, console := c4\<rparr>)"
    "displays c4 (fold type_char (chars ''[INIT] PMM (mem: '' @ decimal (sint ?v) @ chars '' MB)...'' @ [10])
      (fold type_char (boot_msg [''[INIT] IDT...'']) (fold type_char (boot_msg [''[INIT] GDT...'']) (fold type_char hello blank_screen))))"
    by blast
  have "boot_msg [x] @ boot_msg [y] = boot_msg [x, y]" for x y by (simp add: boot_msg_def)
  then have "displays c4 (fold type_char (cpu_text mem) blank_screen)"
    using c4(2) by (simp only: cpu_text_def fold_append comp_apply flip: \<open>\<And>x y. boot_msg [x] @ boot_msg [y] = boot_msg [x, y]\<close>)
  moreover define s4 where "s4 = s3\<lparr>gts := t, io := gports t, int_on := True, console := c4\<rparr>"
  moreover have "console s4 = c4" by (simp add: s4_def)
  ultimately have shown: "displays (console s4) (fold type_char (cpu_text mem) blank_screen)" by simp
  have "gdtr (segs s4) = Some \<lparr>ptr_limit = 47, ptr_base = i_gdt im\<rparr>" "idtr (gts s4) = Some \<lparr>ptr_limit = 2047, ptr_base = i_idt im\<rparr>"
    "int_on s4" "nodes s4 = nodes s" "fresh s4 = fresh s" "kheap s4 = kheap s" "files s4 = files s"
    using g(2) t(2) by (simp_all add: s1_def s2_def s3_def s4_def)
  then show thesis
    using c1(1) c2(1) c3(1) c4(1) g(1) t(1) shown that [of s1 s2 g s3 t s4] by (simp only: s1_def s2_def s3_def s4_def)
qed

definition plain :: "bytestr \<Rightarrow> bool" where
  "plain xs \<longleftrightarrow> set xs \<inter> {0, 9, 37} = {} \<and> length xs < 512"

lemma kprintf_next:
  fixes s :: "'a vfs_scheme"
  assumes "displays (console s) (fold type_char ys T)" "plain xs"
  obtains u c where "kprintf (xs @ [0]) [] s = Some u" "u = s\<lparr>console := c\<rparr>"
    "displays (console u) (fold type_char (ys @ xs) T)"
  using kprintf_plain [OF assms(1), of xs] assms(2) by (auto simp: plain_def)

lemma boot_plain: "plain (boot_msg [''[INIT] VMM...''])" "plain (boot_msg [''[INIT] Heap...''])"
  "plain (boot_msg [''[INIT] VFS + ramfs...''])" "plain (boot_msg [''[INIT] PIT (100Hz)...''])"
  "plain (boot_msg [''[INIT] Process manager...''])"
  "plain (boot_msg [''[BOOT] Kernel initialized! Starting init...'', ''''])"
  by (simp_all add: plain_def boot_msg_def)

lemma boot_line: "map of_char t @ [10, 0] = boot_msg [t] @ [0]"
  and boot_end: "map of_char t @ [10, 10, 0] = boot_msg [t, ''''] @ [0]"
  by (simp_all add: boot_msg_def)

text \<open>From the frames to the file system.\<close>

lemma boot_store:
  fixes s s4 :: system
  assumes on: "powered_on im mem s" and s4: "displays (console s4) (fold type_char xs blank_screen)"
    "nodes s4 = nodes s" "fresh s4 = fresh s" "kheap s4 = kheap s"
  obtains s5 s6 s7 p v h b where "kprintf (boot_msg [''[INIT] VMM...''] @ [0]) [] s4 = Some s5"
    "pmm_init mem (i_end im) = Some p" "vmm_init ((hvm (kheap s5))\<lparr>pm := p\<rparr>) = Some v"
    "kprintf (boot_msg [''[INIT] Heap...''] @ [0]) [] s5 = Some s6" "heap_init ((kheap s6)\<lparr>hvm := v\<rparr>) = Some h"
    "kprintf (boot_msg [''[INIT] VFS + ramfs...''] @ [0]) [] (s6\<lparr>kheap := h\<rparr>) = Some s7"
    "build_initfs (i_after im) s7 = Some b" "heap_ok h" "blocks h = [(4076, True)]"
    "displays (console b) (fold type_char (((xs @ boot_msg [''[INIT] VMM...'']) @ boot_msg [''[INIT] Heap...''])
       @ boot_msg [''[INIT] VFS + ramfs...'']) blank_screen)"
    "fs_is (boot_table (i_after im) (fresh s)) b" "vfs_root b = Some (Ram (fresh s))"
    "kheap b = h" "segs b = segs s4" "gts b = gts s4" "files b = files s4"
proof -
  note on = on [unfolded powered_on_def]
  let ?x5 = "xs @ boot_msg [''[INIT] VMM...'']"
  obtain s5 c5 where s5: "kprintf (boot_msg [''[INIT] VMM...''] @ [0]) [] s4 = Some s5" "s5 = s4\<lparr>console := c5\<rparr>"
    "displays (console s5) (fold type_char ?x5 blank_screen)"
    by (rule kprintf_next [OF s4(1) boot_plain(1)], rule that)
  obtain p v h where M: "pmm_init mem (i_end im) = Some p" "vmm_init ((hvm (kheap s5))\<lparr>pm := p\<rparr>) = Some v"
    "heap_init ((kheap s5)\<lparr>hvm := v\<rparr>) = Some h" "heap_ok h" "blocks h = [(4076, True)]"
    using memory_starts [of mem "i_end im" "kheap s5"] on s4(4) by (auto simp: s5(2))
  let ?x6 = "?x5 @ boot_msg [''[INIT] Heap...'']"
  obtain s6 c6 where s6: "kprintf (boot_msg [''[INIT] Heap...''] @ [0]) [] s5 = Some s6" "s6 = s5\<lparr>console := c6\<rparr>"
    "displays (console s6) (fold type_char ?x6 blank_screen)"
    by (rule kprintf_next [OF s5(3) boot_plain(2)], rule that)
  have kh: "kheap s6 = kheap s5" by (simp add: s6(2))
  have "console (s6\<lparr>kheap := h\<rparr>) = console s6" by simp
  with s6(3) have "displays (console (s6\<lparr>kheap := h\<rparr>)) (fold type_char ?x6 blank_screen)" by (simp only:)
  then obtain s7 c7 where s7: "kprintf (boot_msg [''[INIT] VFS + ramfs...''] @ [0]) [] (s6\<lparr>kheap := h\<rparr>) = Some s7"
    "s7 = s6\<lparr>kheap := h, console := c7\<rparr>"
    "displays (console s7) (fold type_char (?x6 @ boot_msg [''[INIT] VFS + ramfs...'']) blank_screen)"
    by (rule kprintf_next [OF _ boot_plain(3)]) (rule that)
  have "nodes s7 = Map.empty" "fresh s7 = fresh s" using on s4(2,3) by (simp_all add: s5(2) s6(2) s7(2))
  then obtain b where b: "build_initfs (i_after im) s7 = Some b" "fs_is (boot_table (i_after im) (fresh s)) b"
    "vfs_root b = Some (Ram (fresh s))" "console b = console s7" "vfs.more b = vfs.more s7" "files b = files s7"
    using build_initfs_some [of s7 "i_after im"] on by auto
  have "kheap b = h" "segs b = segs s4" "gts b = gts s4" "files b = files s4"
    using system_more [OF b(5)] b(6) by (simp_all add: s5(2) s6(2) s7(2))
  then show thesis
    by (rule that [OF s5(1) M(1,2) s6(1) M(3) [folded kh] s7(1) b(1) M(4,5) s7(3) [folded b(4)] b(2,3)])
qed

text \<open>The timer, the table of processes and the first process.\<close>

lemma boot_text_parts: "boot_text mem = (((((cpu_text mem @ boot_msg [''[INIT] VMM...'']) @ boot_msg [''[INIT] Heap...''])
    @ boot_msg [''[INIT] VFS + ramfs...'']) @ boot_msg [''[INIT] PIT (100Hz)...'']) @ boot_msg [''[INIT] Process manager...''])
    @ boot_msg [''[BOOT] Kernel initialized! Starting init...'', '''']"
  by (simp add: boot_text_def boot_msg_def)

lemma boot_processes:
  fixes b :: system
  assumes "displays (console b) (fold type_char (((cpu_text mem @ boot_msg [''[INIT] VMM...'']) @ boot_msg [''[INIT] Heap...''])
       @ boot_msg [''[INIT] VFS + ramfs...'']) blank_screen)"
  obtains s8 s9 s10 q r where "kprintf (boot_msg [''[INIT] PIT (100Hz)...''] @ [0]) [] b = Some s8"
    "kprintf (boot_msg [''[INIT] Process manager...''] @ [0]) [] (s8\<lparr>io := pit_init (io s8)\<rparr>) = Some s9"
    "proc_init ((procs s9)\<lparr>pvm := hvm (kheap s9)\<rparr>) = Some q"
    "kprintf (boot_msg [''[BOOT] Kernel initialized! Starting init...'', ''''] @ [0]) [] (s9\<lparr>procs := q\<rparr>) = Some s10"
    "proc_create_kernel start (lit ''init'') (procs s10) = Some (Some 1, r)"
    "displays (console s10) (fold type_char (boot_text mem) blank_screen)" "sched_inv r" "current_proc r = Some 0" "st r 1 = PROC_READY"
    "\<forall>p\<in>set (proc_table r). fds p = replicate 32 0" "\<exists>c i. s10 = b\<lparr>console := c, io := i, procs := q\<rparr>"
proof -
  let ?x = "((cpu_text mem @ boot_msg [''[INIT] VMM...'']) @ boot_msg [''[INIT] Heap...'']) @ boot_msg [''[INIT] VFS + ramfs...'']"
  let ?x8 = "?x @ boot_msg [''[INIT] PIT (100Hz)...'']"
  obtain s8 c8 where s8: "kprintf (boot_msg [''[INIT] PIT (100Hz)...''] @ [0]) [] b = Some s8" "s8 = b\<lparr>console := c8\<rparr>"
    "displays (console s8) (fold type_char ?x8 blank_screen)"
    by (rule kprintf_next [OF assms boot_plain(4)], rule that)
  let ?s8 = "s8\<lparr>io := pit_init (io s8)\<rparr>"
  have "console ?s8 = console s8" by simp
  with s8(3) have "displays (console ?s8) (fold type_char ?x8 blank_screen)" by (simp only:)
  then obtain s9 c9 where s9: "kprintf (boot_msg [''[INIT] Process manager...''] @ [0]) [] ?s8 = Some s9" "s9 = ?s8\<lparr>console := c9\<rparr>"
    "displays (console s9) (fold type_char (?x8 @ boot_msg [''[INIT] Process manager...'']) blank_screen)"
    by (rule kprintf_next [OF _ boot_plain(5)]) (rule that)
  obtain q where q: "proc_init ((procs s9)\<lparr>pvm := hvm (kheap s9)\<rparr>) = Some q" by (rule proc_init_some)
  have "console (s9\<lparr>procs := q\<rparr>) = console s9" by simp
  with s9(3) have "displays (console (s9\<lparr>procs := q\<rparr>)) (fold type_char (?x8 @ boot_msg [''[INIT] Process manager...'']) blank_screen)"
    by (simp only:)
  then obtain s10 c10 where s10: "kprintf (boot_msg [''[BOOT] Kernel initialized! Starting init...'', ''''] @ [0]) [] (s9\<lparr>procs := q\<rparr>) = Some s10"
    "s10 = s9\<lparr>procs := q, console := c10\<rparr>" "displays (console s10) (fold type_char ((?x8 @ boot_msg [''[INIT] Process manager...''])
        @ boot_msg [''[BOOT] Kernel initialized! Starting init...'', '''']) blank_screen)"
    by (rule kprintf_next [OF _ boot_plain(6)]) (rule that)
  have pq: "procs s10 = q" by (simp add: s10(2))
  obtain r where r: "proc_create_kernel start (lit ''init'') (procs s10) = Some (Some 1, r)" "sched_inv r" "current_proc r = Some 0"
    "st r 1 = PROC_READY" "\<forall>p\<in>set (proc_table r). fds p = replicate 32 0" using init_created [OF q] unfolding pq by blast
  have "s10 = b\<lparr>console := c10, io := pit_init (io b), procs := q\<rparr>" by (simp add: s8(2) s9(2) s10(2))
  then show thesis by (intro that [OF s8(1) s9(1) q s10(1) r(1) s10(3) [folded boot_text_parts] r(2-5)]) blast
qed

lemma kernel_main_some:
  fixes s :: system
  assumes on: "powered_on im (mem_size magic mbi) s"
  shows "\<exists>t. kernel_main im magic mbi s = Some t \<and> int_on t \<and> displays (console t) (fold type_char (boot_text (mem_size magic mbi)) blank_screen)
    \<and> sched_inv (procs t) \<and> current_proc (procs t) = Some 0 \<and> st (procs t) 1 = PROC_READY
    \<and> heap_ok (kheap t) \<and> blocks (kheap t) = [(4076, True)]
    \<and> fs_is (boot_table (i_after im) (fresh s)) t \<and> vfs_root t = Some (Ram (fresh s))
    \<and> gdtr (segs t) = Some \<lparr>ptr_limit = 47, ptr_base = i_gdt im\<rparr> \<and> idtr (gts t) = Some \<lparr>ptr_limit = 2047, ptr_base = i_idt im\<rparr>
    \<and> files t = files s \<and> (\<forall>p\<in>set (proc_table (procs t)). fds p = replicate 32 0)"
proof -
  let ?m = "mem_size magic mbi"
  obtain s1 s2 s3 s4 g t where D:
    "greet (s\<lparr>io := serial_init (io s)\<rparr>) = Some s1" "kprintf (line_lit ''[INIT] GDT...'') [] s1 = Some s2"
    "gdt_init (i_gdt im) (i_tss im) (segs s2) = Some g" "kprintf (line_lit ''[INIT] IDT...'') [] (s2\<lparr>segs := g\<rparr>) = Some s3"
    "idt_init (i_idt im) (i_isr im) (i_irq im) (i_isr128 im) ((gts s3)\<lparr>gports := io s3\<rparr>) = Some t"
    "kprintf (line_lit ''[INIT] PMM (mem: %d MB)...'') [VWord (?m div 1024 div 1024)]
       (s3\<lparr>gts := t, io := gports t, int_on := True\<rparr>) = Some s4"
    "displays (console s4) (fold type_char (cpu_text ?m) blank_screen)"
    "gdtr (segs s4) = Some \<lparr>ptr_limit = 47, ptr_base = i_gdt im\<rparr>" "idtr (gts s4) = Some \<lparr>ptr_limit = 2047, ptr_base = i_idt im\<rparr>"
    "int_on s4" "nodes s4 = nodes s" "fresh s4 = fresh s" "kheap s4 = kheap s" "files s4 = files s"
    by (rule boot_devices [OF on])
  obtain s5 s6 s7 p v h b where B: "kprintf (boot_msg [''[INIT] VMM...''] @ [0]) [] s4 = Some s5"
    "pmm_init ?m (i_end im) = Some p" "vmm_init ((hvm (kheap s5))\<lparr>pm := p\<rparr>) = Some v"
    "kprintf (boot_msg [''[INIT] Heap...''] @ [0]) [] s5 = Some s6" "heap_init ((kheap s6)\<lparr>hvm := v\<rparr>) = Some h"
    "kprintf (boot_msg [''[INIT] VFS + ramfs...''] @ [0]) [] (s6\<lparr>kheap := h\<rparr>) = Some s7"
    "build_initfs (i_after im) s7 = Some b" "heap_ok h" "blocks h = [(4076, True)]"
    "displays (console b) (fold type_char (((cpu_text ?m @ boot_msg [''[INIT] VMM...'']) @ boot_msg [''[INIT] Heap...''])
       @ boot_msg [''[INIT] VFS + ramfs...'']) blank_screen)"
    "fs_is (boot_table (i_after im) (fresh s)) b" "vfs_root b = Some (Ram (fresh s))"
    "kheap b = h" "segs b = segs s4" "gts b = gts s4" "files b = files s4"
    by (rule boot_store [OF on D(7,11-13)])
  obtain s8 s9 s10 q r where E: "kprintf (boot_msg [''[INIT] PIT (100Hz)...''] @ [0]) [] b = Some s8"
    "kprintf (boot_msg [''[INIT] Process manager...''] @ [0]) [] (s8\<lparr>io := pit_init (io s8)\<rparr>) = Some s9"
    "proc_init ((procs s9)\<lparr>pvm := hvm (kheap s9)\<rparr>) = Some q"
    "kprintf (boot_msg [''[BOOT] Kernel initialized! Starting init...'', ''''] @ [0]) [] (s9\<lparr>procs := q\<rparr>) = Some s10"
    "proc_create_kernel (i_init im) (lit ''init'') (procs s10) = Some (Some 1, r)"
    "displays (console s10) (fold type_char (boot_text ?m) blank_screen)" "sched_inv r" "current_proc r = Some 0" "st r 1 = PROC_READY"
    "\<forall>p\<in>set (proc_table r). fds p = replicate 32 0" "\<exists>c i. s10 = b\<lparr>console := c, io := i, procs := q\<rparr>"
    by (rule boot_processes [OF B(10)])
  have "kernel_main im magic mbi s = Some (s10\<lparr>procs := r, int_on := True\<rparr>)"
    unfolding kernel_main_def boot_line boot_end
    using D(1-6) B(1-7) E(1-5) by (simp only: Let_def Option.bind.simps boot_line case_prod_conv)
  moreover obtain c i where "s10 = b\<lparr>console := c, io := i, procs := q\<rparr>" using E(11) by blast
  then have "fs_is (boot_table (i_after im) (fresh s)) (s10\<lparr>procs := r, int_on := True\<rparr>)" "vfs_root s10 = Some (Ram (fresh s))"
    "kheap s10 = h" "segs s10 = segs s4" "gts s10 = gts s4" "files s10 = files s"
    using B(11-16) D(14) fs_is_nodes [of "s10\<lparr>procs := r, int_on := True\<rparr>" b] by simp_all
  ultimately show ?thesis using E(6-10) B(8,9) D(8,9) by (intro exI [of _ "s10\<lparr>procs := r, int_on := True\<rparr>"]) simp
qed


text \<open>A machine of 32 MB with a byte left in the keyboard controller.\<close>

definition off_image :: image where
  "off_image = \<lparr>i_gdt = 0x104000, i_tss = 0x104040, i_idt = 0x105000, i_isr = (\<lambda>i. 0x100200 + 16 * of_nat i),
     i_irq = (\<lambda>i. 0x100400 + 16 * of_nat i), i_isr128 = 0x100600, i_end = 0x140000, i_init = 0x101000, i_after = (\<lambda>_. replicate 17 0)\<rparr>"

definition off_system :: system where
  "off_system = \<lparr>nodes = Map.empty, next_inode = 1, fresh = 1, stale = (\<lambda>_ _. 0), vfs_root = None, tty_vnode = tty_vnode some_vfs,
     console = fresh_tty [], status = 0x20, files = Map.empty, procs = cold_sys,
     io = \<lparr>writes = [], input = (\<lambda>_. [])(0x64 := [1, 0], 0x60 := [0xFA, 0x64])\<rparr>, int_on = False,
     segs = \<lparr>gdt = replicate 6 \<lparr>limit_low = 0, base_low = 0, base_middle = 0, access = 0, granularity = 0, base_high = 0\<rparr>,
       tss = \<lparr>tss_stack = 0, tss_ss0 = 0, tss_iomap = 0\<rparr>, gdtr = None, cs_reg = 0, data_regs = [], task_reg = 0\<rparr>,
     gts = \<lparr>idt = replicate 256 \<lparr>offset_low = 0, selector = 0, zero_byte = 0, type_attr = 0, offset_high = 0\<rparr>, idtr = None, int_flag = False,
       gports = \<lparr>writes = [], input = (\<lambda>_. [])\<rparr>\<rparr>, kheap = cold_heap\<rparr>"

lemma off_system_on: "powered_on off_image (mem_size MBOOT_MAGIC (Some \<lparr>mem_upper = 31744\<rparr>)) off_system"
proof -
  have "input (io off_system) 0x64 = [1] @ 0 # []" "input (io off_system) 0x60 = [0xFA] @ 0x64 # []" by (simp_all add: off_system_def)
  then have "\<exists>full idle rest junk cmd more. input (io off_system) 0x64 = full @ idle # rest \<and> (\<forall>v\<in>set full. v AND 1 \<noteq> 0) \<and> idle AND 1 = 0
      \<and> input (io off_system) 0x60 = junk @ cmd # more \<and> length junk = length full"
    by (intro exI [of _ "[1]"] exI [of _ 0] exI [of _ "[]"] exI [of _ "[0xFA]"] exI [of _ "0x64"]) simp
  moreover have "mem_size MBOOT_MAGIC (Some \<lparr>mem_upper = 31744\<rparr>) = 0x2000000" by (simp add: mem_size_def)
  ultimately show ?thesis unfolding powered_on_def
    by (simp add: off_system_def off_image_def fresh_tty_def kernel_pages_def PAGE_SIZE_def)
qed


end
