(* ===== verification/Machine.thy ===== *)
theory Machine
  imports Boot
begin

text \<open>
  The machine in operation, from the boot on: what happens is a sequence of keys, hardware interrupts and
  system calls, in any order (the relation \<open>machine_step\<close>). The handlers are those of the other
  theories, \<^verbatim>\<open>irq_common\<close> and \<^verbatim>\<open>isr_handler_ext\<close> of \<open>Interrupts\<close> and the calls of \<open>Syscall\<close>; here
  the invariant of the scheduler and that of the descriptors are shown to hold together, since the steps
  that move the one leave the other alone. The section after it shows why \<^verbatim>\<open>fork\<close> is not among the steps.
\<close>

section \<open>What the parts leave alone\<close>

text \<open>Of the table of processes, the scheduler decides on one part, the descriptors are another.\<close>

definition sched_view :: "psys \<Rightarrow> nat option \<times> proc_state list" where
  "sched_view p = (current_proc p, map pstate (proc_table p))"

definition fd_view :: "psys \<Rightarrow> u32 list list" where
  "fd_view p = map fds (proc_table p)"

lemma map_upd_proc: "(\<And>p. g (f p) = g p) \<Longrightarrow> map g (proc_table (upd_proc i f s)) = map g (proc_table s)"
  by (cases "i < length (proc_table s)") (simp_all add: upd_proc_def map_update list_update_same_conv list_update_beyond)

lemma fd_view_upd [simp]: "(\<And>p. fds (f p) = fds p) \<Longrightarrow> fd_view (upd_proc i f s) = fd_view s"
  unfolding fd_view_def by (rule map_upd_proc)

lemma fd_view_fields [simp]: "fd_view (p\<lparr>pvm := v\<rparr>) = fd_view p" "fd_view (p\<lparr>kmem := m\<rparr>) = fd_view p"
  by (simp_all add: fd_view_def)

lemma sched_view_upd [simp]: "(\<And>p. pstate (f p) = pstate p) \<Longrightarrow> sched_view (upd_proc i f s) = sched_view s"
  by (simp add: sched_view_def map_upd_proc)

lemma sched_view_inv:
  assumes "sched_view q = sched_view p" "sched_inv p"
  shows "sched_inv q"
proof -
  have c: "current_proc q = current_proc p" and m: "map pstate (proc_table q) = map pstate (proc_table p)"
    using assms(1) by (simp_all add: sched_view_def)
  have len: "length (proc_table q) = length (proc_table p)" by (rule map_eq_imp_length_eq [OF m])
  have "st q i = st p i" if "i < length (proc_table p)" for i
    using arg_cong [OF m, of "\<lambda>xs. xs ! i"] that len by simp
  then show ?thesis using assms(2) c len by (auto simp: sched_inv_def sched_pre_def)
qed

lemma moved_fds: "moved p q X \<Longrightarrow> fd_view q = fd_view p"
proof -
  assume m: "moved p q X"
  then have len: "length (proc_table q) = length (proc_table p)" by (simp add: moved_def)
  have "fds (proc_at q i) = fds (proc_at p i)" if i: "i < length (proc_table p)" for i
  proof -
    obtain v where "proc_at q i = (proc_at p i)\<lparr>pstate := X i, esp := v\<rparr>" using m i unfolding moved_def by blast
    then show ?thesis by simp
  qed
  with len show ?thesis unfolding fd_view_def by (intro nth_equalityI) simp_all
qed

lemma tick_fds: "sched_pre p c \<Longrightarrow> scheduler_tick p = Some q \<Longrightarrow> fd_view q = fd_view p"
  by (rule moved_fds [OF tickD(2)])

lemma yield_fds: "sched_pre p c \<Longrightarrow> proc_yield p = Some q \<Longrightarrow> fd_view q = fd_view p"
  using tick_fds [OF yield_pre] yield_eq by (simp split: if_splits)

lemma sleep_fds:
  assumes pre: "sched_pre p c" and "c \<noteq> 0" and q: "proc_sleep ms p = Some q"
  shows "fd_view q = fd_view p"
proof -
  note P = sched_preD [OF pre]
  let ?p = "upd_proc c (\<lambda>p. p\<lparr>pstate := PROC_SLEEPING\<rparr>) (upd_proc c (\<lambda>x. x\<lparr>sleep_until := ticks p + (ms div 10 + 1)\<rparr>) p)"
  have "sched_pre ?p c" using assms P(1,3) by (intro sched_pre_upd) (simp_all add: P(6))
  moreover have "proc_yield ?p = Some q" using q by (simp add: proc_sleep_def P(4) Let_def del: upd_proc_twice)
  ultimately have "fd_view q = fd_view ?p" by (rule yield_fds)
  then show ?thesis by (simp del: upd_proc_twice)
qed

lemma wake_parent_fds [simp]: "fd_view (wake_parent c p) = fd_view p"
  by (simp add: wake_parent_def split: option.split)

lemma exit_fds:
  assumes pre: "sched_pre p c" and "c \<noteq> 0" and q: "proc_exit code p = Some q"
  shows "fd_view q = fd_view p"
proof -
  note P = sched_preD [OF pre]
  let ?p = "wake_parent c (upd_proc c (\<lambda>p. p\<lparr>pstate := PROC_ZOMBIE, exit_code := code\<rparr>) p)"
  have s1: "sched_pre ?p c" using assms(2) P(3) by (intro wake_parent_pre sched_pre_upd [OF pre]) simp_all
  then have s2: "sched_pre ((upd_proc c (\<lambda>p. p\<lparr>page_dir := kernel_dir v\<rparr>) ?p)\<lparr>pvm := v\<rparr>) c" for v
    using P(3) by (intro sched_pre_fields sched_pre_upd) (auto simp: sched_preD)
  obtain v r where "proc_yield r = Some q" "r = ?p \<or> r = (upd_proc c (\<lambda>p. p\<lparr>page_dir := kernel_dir v\<rparr>) ?p)\<lparr>pvm := v\<rparr>"
    using q unfolding exit_eq [OF pre] by (auto simp: bind_eq_Some_conv split: if_splits)
  then show ?thesis using yield_fds [of r c q] s1 s2 by (elim disjE) simp_all
qed

lemma wait_fds:
  assumes pre: "sched_pre p c" and "c \<noteq> 0" and q: "proc_wait_round w p = Some (r, q)"
  shows "fd_view q = fd_view p"
proof -
  note P = sched_preD [OF pre]
  have b: "sched_pre (upd_proc c (\<lambda>p. p\<lparr>pstate := PROC_BLOCKED\<rparr>) p) c" using assms(2) P(3) by (intro sched_pre_upd [OF pre]) simp_all
  show ?thesis
    using q P(4) yield_fds [OF b] by (auto simp: proc_wait_round_def bind_eq_Some_conv split: option.splits if_splits)
qed

lemma kill_fds: "proc_kill x sig p = Some q \<Longrightarrow> fd_view q = fd_view p"
  by (auto simp: proc_kill_def Let_def split: option.splits if_splits)

section \<open>System calls\<close>

lemma set_fd_view: "set_fd i f s = Some t \<Longrightarrow> sched_view (procs t) = sched_view (procs s)"
  by (auto simp: set_fd_def upd_cur_def)

lemma close_procs: "file_close f s = Some (r, t) \<Longrightarrow> f \<noteq> 0 \<Longrightarrow> procs t = procs s" for s t :: "'a kernel_scheme"
  by (rule file_close_frame) (auto intro: procs_eq)

lemma same_refs_procs: "same_refs s t \<Longrightarrow> procs t = procs s" for s t :: "'a kernel_scheme"
  by (rule procs_eq) (simp add: same_refs_def)

lemma fd_alloc_view: "fd_alloc f s = Some (fd, t) \<Longrightarrow> sched_view (procs t) = sched_view (procs s)"
  by (auto simp: fd_alloc_def bind_eq_Some_conv set_fd_view split: option.split_asm)

lemma sys_open_view:
  assumes "sys_open stack path flags s = Some (r, t)"
  shows "sched_view (procs t) = sched_view (procs s)"
proof -
  obtain full f u where u: "file_open (Some full) flags s = Some (f, u)"
    and rest: "(if f = 0 then Some (- ENOENT, u) else do {
       (fd, s) \<leftarrow> fd_alloc f u;
       if sint fd < 0 then do { (_, s) \<leftarrow> file_close f s; Some (fd, s) } else Some (fd, s) }) = Some (r, t)"
    using assms by (auto simp: sys_open_def bind_eq_Some_conv)
  have pu: "procs u = procs s" by (rule procs_eq [OF file_open_frame(2) [OF u]])
  show ?thesis
  proof (cases "f = 0")
    case False
    then obtain fd v where v: "fd_alloc f u = Some (fd, v)" "(if sint fd < 0 then do { (_, s) \<leftarrow> file_close f v; Some (fd, s) } else Some (fd, v)) = Some (r, t)"
      using rest by (auto simp: bind_eq_Some_conv)
    have "procs t = procs v" using v(2) close_procs False by (auto simp: bind_eq_Some_conv split: if_split_asm)
    then show ?thesis using fd_alloc_view [OF v(1)] pu by simp
  qed (use rest pu in simp)
qed

lemma fd_step_view:
  assumes "fd_step s t"
  shows "sched_view (procs t) = sched_view (procs s)"
  using assms
proof cases
  case step_open
  then show ?thesis by (rule sys_open_view)
next
  case (step_close fd r)
  then show ?thesis by (auto simp: sys_close_def bind_eq_Some_conv set_fd_view dest: close_procs split: if_split_asm)
next
  case (step_dup2 oldfd newfd r)
  show ?thesis
  proof (cases "t = s")
    case False
    then obtain f g where fg: "fd_get oldfd s = Some f" "f \<noteq> 0" "\<not> (sint newfd < 0 \<or> int MAX_FDS \<le> sint newfd)" "fd_get newfd s = Some g"
      using step_dup2(2) by (auto simp: sys_dup2_def bind_eq_Some_conv split: if_split_asm)
    obtain u where u: "(if g \<noteq> 0 then map_option snd (file_close g s) else Some s) = Some u"
      using step_dup2(2) fg by (auto simp: sys_dup2_def bind_eq_Some_conv)
    then obtain v where v: "set_fd (unat newfd) f u = Some v"
      using step_dup2(2) fg by (auto simp: sys_dup2_def bind_eq_Some_conv split: if_split_asm)
    then have "procs t = procs v" using step_dup2(2) fg u by (auto simp: sys_dup2_def bind_eq_Some_conv)
    moreover have "procs u = procs s" using u close_procs by (auto split: if_split_asm)
    ultimately show ?thesis using set_fd_view [OF v] by simp
  qed simp
next
  case step_read
  then show ?thesis using sys_rw_refs(1) same_refs_procs by metis
next
  case step_write
  then show ?thesis using sys_rw_refs(2) same_refs_procs by metis
next
  case step_lseek
  then show ?thesis using sys_rw_refs(3) same_refs_procs by metis
next
  case step_mkdir
  then show ?thesis using sys_mkdir_refs same_refs_procs by metis
next
  case step_unlink
  then show ?thesis using sys_unlink_refs same_refs_procs by metis
next
  case (step_chdir dir r)
  then show ?thesis
    by (auto simp: sys_chdir_def upd_cur_def bind_eq_Some_conv split: option.split_asm if_split_asm)
qed

text \<open>The calls that change the table of processes only.\<close>

inductive proc_call :: "psys \<Rightarrow> psys \<Rightarrow> bool" where
  call_exit: "proc_exit code p = Some q \<Longrightarrow> proc_call p q"
| call_wait: "proc_wait_round w p = Some (r, q) \<Longrightarrow> proc_call p q"
| call_kill: "proc_kill x sig p = Some q \<Longrightarrow> proc_call p q"
| call_sleep: "proc_sleep ms p = Some q \<Longrightarrow> proc_call p q"

inductive_cases proc_callE: "proc_call p q"

lemma proc_call_inv:
  assumes "proc_call p q" "sched_inv p" "current_proc p \<noteq> Some 0"
  shows "sched_inv q" "fd_view q = fd_view p"
proof -
  obtain c where pre: "sched_pre p c" and run: "runnable (st p c)" using assms(2) by (auto simp: sched_inv_def)
  then have c: "c \<noteq> 0" using assms(3) sched_preD(2) by auto
  show "sched_inv q" using assms(1) exit_inv [OF pre c] wait_inv [OF pre run c] kill_inv [OF pre run] sleep_inv [OF pre c]
    by (elim proc_callE) blast+
  show "fd_view q = fd_view p" using assms(1) exit_fds [OF pre c] wait_fds [OF pre c] kill_fds sleep_fds [OF pre c]
    by (elim proc_callE) blast+
qed

text \<open>A call that is neither \<^verbatim>\<open>fork\<close> nor \<^verbatim>\<open>execve\<close>, nor a \<^verbatim>\<open>dup2\<close> of a descriptor to itself.\<close>

definition plain_call :: "regs \<Rightarrow> bool" where
  "plain_call r \<longleftrightarrow> r_eax r \<noteq> SYS_FORK \<and> r_eax r \<noteq> SYS_EXECVE \<and> (r_eax r = SYS_DUP2 \<longrightarrow> a_ebx r \<noteq> a_ecx r)"

lemma call_step:
  assumes "syscall_dispatch shell stack mem r s = Some (v, w, t)" "plain_call r"
  shows "t = s \<or> fd_step s t \<or> (\<exists>q. t = s\<lparr>procs := q\<rparr> \<and> proc_call (procs s) q)"
proof -
  obtain x where x: "syscall_value shell stack mem r s = Some (x, w, t)"
    using assms(1) by (auto simp: syscall_dispatch_def)
  show ?thesis
  proof (cases "r_eax r = SYS_WAITPID")
    case True
    then obtain y u where y: "sys_waitpid (a_ebx r) s = Some (y, u)"
      using x by (auto simp: syscall_value_def Let_def sys_numbers bind_eq_Some_conv)
    have "u = t" using x True y by (cases y) (auto simp: syscall_value_def Let_def sys_numbers split: if_split_asm)
    with y show ?thesis by (auto simp: sys_waitpid_def bind_eq_Some_conv intro: proc_call.intros)
  next
    case False
    then show ?thesis
      using x assms(2) unfolding syscall_value_def Let_def plain_call_def
      by (auto simp: returns_def bind_eq_Some_conv sys_exit_def sys_kill_def sys_sleep_def
          intro: fd_step.intros proc_call.intros split: if_split_asm)
  qed
qed

section \<open>The steps of the machine\<close>

lemma refs_ok_only:
  assumes "refs_ok s" "files t = files s" "fresh t = fresh s" "fd_view (procs t) = fd_view (procs s)" "cur t \<noteq> None"
  shows "refs_ok t"
proof -
  have m: "map fds (proc_table (procs t)) = map fds (proc_table (procs s))" using assms(4) by (simp add: fd_view_def)
  have h: "handles t = handles s" using m by (simp add: handles_def fd_list_def fun_eq_iff)
  have "length (proc_table (procs t)) = length (proc_table (procs s))" by (rule map_eq_imp_length_eq [OF m])
  moreover have "fds ` set (proc_table (procs t)) = fds ` set (proc_table (procs s))" using arg_cong [OF m, of set] by simp
  then have "(\<forall>p\<in>set (proc_table (procs t)). length (fds p) = 32) = (\<forall>p\<in>set (proc_table (procs s)). length (fds p) = 32)"
    by (metis (mono_tags, lifting) imageE imageI)
  ultimately show ?thesis using assms(1-3,5) h by (simp add: refs_ok_def table_ok_def files_ok_def refs_def)
qed

text \<open>The invariant of the machine: that of the scheduler, and that of the descriptors.\<close>

definition machine_ok :: "'a kernel_scheme \<Rightarrow> bool" where
  "machine_ok s \<longleftrightarrow> sched_inv (procs s) \<and> refs_ok s"

lemma sched_cur: "sched_inv (procs s) \<Longrightarrow> cur s \<noteq> None"
  using sched_preD(4) by (auto simp: sched_inv_def cur_def)

lemma machine_ok_procs:
  assumes "machine_ok s" "fd_view q = fd_view (procs s)" "sched_inv q"
  shows "machine_ok (s\<lparr>procs := q\<rparr>)"
  using assms refs_ok_only [of s "s\<lparr>procs := q\<rparr>"] sched_cur [of "s\<lparr>procs := q\<rparr>"] by (simp add: machine_ok_def)

lemma machine_ok_only:
  assumes "machine_ok s" "procs t = procs s" "files t = files s" "fresh t = fresh s"
  shows "machine_ok t"
  using assms refs_ok_only [of s t] sched_cur [of t] by (simp add: machine_ok_def)

lemma irq_ok:
  assumes ok: "machine_ok s" and irq: "irq_common r s = Some (w, t)"
  shows "machine_ok t"
proof -
  let ?s = "s\<lparr>int_on := False\<rparr>"
  obtain u where u: "irq_handler r ?s = Some (w, u)" and t: "t = (if w = Returned then u\<lparr>int_on := True\<rparr> else u)"
    using irq by (auto simp: irq_common_def bind_eq_Some_conv)
  have "machine_ok ?s" by (rule machine_ok_only [OF ok]) simp_all
  have "machine_ok u"
  proof (cases "sint (int_no r - 32) = 0")
    case True
    obtain p where p: "scheduler_tick (procs s) = Some p" "procs u = p" "files u = files s" "fresh u = fresh s"
      using u True by (auto simp: irq_handler_def Let_def bind_eq_Some_conv eoi_def split: if_split_asm)
    obtain c where "sched_pre (procs s) c" using ok by (auto simp: machine_ok_def sched_inv_def)
    with p(1) have "fd_view p = fd_view (procs s)" "sched_inv p" using tick_fds tickD(1) by blast+
    then have "machine_ok (s\<lparr>procs := p\<rparr>)" by (rule machine_ok_procs [OF ok])
    then show ?thesis by (rule machine_ok_only) (simp_all add: p)
  next
    case False
    then have "procs u = procs s" "files u = files s" "fresh u = fresh s"
      using u by (auto simp: irq_handler_def Let_def bind_eq_Some_conv eoi_def key_irq_def split: if_split_asm list.split_asm)
    then show ?thesis by (intro machine_ok_only [OF ok])
  qed
  then show ?thesis unfolding t by (rule machine_ok_only) simp_all
qed

lemma call_ok:
  assumes ok: "machine_ok s" and call: "syscall_dispatch shell stack mem r s = Some (v, w, t)" "plain_call r"
    and busy: "current_proc (procs s) \<noteq> Some 0"
  shows "machine_ok t"
proof -
  consider "t = s" | "fd_step s t" | q where "t = s\<lparr>procs := q\<rparr>" "proc_call (procs s) q" using call_step [OF call] by blast
  then show ?thesis
  proof cases
    case 2
    then show ?thesis using ok fd_step_ok fd_step_view sched_view_inv unfolding machine_ok_def by blast
  next
    case 3
    then show ?thesis using proc_call_inv [OF 3(2) _ busy] ok machine_ok_procs unfolding machine_ok_def by blast
  qed (use ok in simp)
qed

text \<open>The descriptors that the first process gives itself.\<close>

lemma tty_fd_ok:
  assumes ok: "machine_ok s" and t: "tty_fd i s = Some t" and i: "i < 32" and free: "fd_get (of_nat i) s = Some 0"
  shows "machine_ok t"
proof -
  have refs: "refs_ok s" and inv: "sched_inv (procs s)" using ok by (simp_all add: machine_ok_def)
  note R = refs_okD [OF refs]
  let ?f = "fresh s" and ?h = "\<lparr>foffset = 0, fvnode = Tty, fflags = (if i = 0 then 0 else 1), fref = 1\<rparr>"
  have f: "?f \<noteq> 0" using t by (auto simp: tty_fd_def new_addr_def split: if_split_asm)
  define u where "u = upd_vnode Tty (\<lambda>n. n\<lparr>ref_count := ref_count n + 1\<rparr>) (s\<lparr>fresh := ?f + 1, files := (files s)(?f \<mapsto> ?h)\<rparr>)"
  have u: "procs u = procs s" "files u = (files s)(?f \<mapsto> ?h)" "fresh u = ?f + 1" "cur u = cur s" "handles u = handles s" "table_ok u = table_ok s"
    by (simp_all add: u_def upd_vnode_def cur_def handles_def fd_list_def table_ok_def fun_eq_iff)
  have set: "set_fd i ?f u = Some t" using t f by (simp add: tty_fd_def new_addr_def u_def Let_def)
  obtain c v where v: "set_fd i ?f u = Some v" "cur u = Some c" "table_ok v" "files v = files u" "fresh v = fresh u"
    "\<And>g. handles v g + (if fds (proc_at (procs u) c) ! i = g then 1 else 0) = handles u g + (if ?f = g then 1 else 0)"
    by (rule set_fd_some [of u i ?f]) (use R(1) i u(6) in auto)
  have "fds (proc_at (procs s) c) ! i = 0"
    using free fd_get_eq [OF R(1), of "of_nat i"] i v(2) u(4) by (simp add: cur_proc_def unat_of_nat)
  then have h: "handles t g = handles s g + (if ?f = g then 1 else 0)" if "g \<noteq> 0" for g
    using v(6) [of g] u(1,5) v(1) set that by simp
  have new: "files s ?f = None" using R(2) f by (auto simp: files_ok_def)
  have ft: "files t = (files s)(?f \<mapsto> ?h)" "fresh t = ?f + 1" "table_ok t" using v(1,3-5) set u(2,3) by simp_all
  have "files_ok t" unfolding files_ok_def ft
    using R(2) f fresh_less [of ?f] by (auto simp: files_ok_def intro: less_trans)
  moreover have "refs t g = handles t g \<and> (files t g = None \<longleftrightarrow> handles t g = 0)" if g: "g \<noteq> 0" for g
  proof (cases "g = ?f")
    case True
    then show ?thesis using h [OF g] R(4) [OF g] new by (simp add: refs_def ft)
  next
    case False
    then have "refs t g = refs s g" "files t g = files s g" by (simp_all add: refs_def ft)
    then show ?thesis using False h [OF g] R(3,4) [OF g] by auto
  qed
  ultimately have "refs_ok t" using ft(3) by (simp add: refs_ok_def)
  moreover have "sched_inv (procs t)" using sched_view_inv [OF set_fd_view [OF set]] inv u(1) by simp
  ultimately show ?thesis by (simp add: machine_ok_def)
qed

text \<open>
  A key that is pressed, a hardware interrupt, a terminal as a free descriptor of the first process, and a
  system call of a process other than the idle one.
\<close>

inductive machine_step :: "'a machine_scheme \<Rightarrow> 'a machine_scheme \<Rightarrow> bool" where
  key: "machine_step s (s\<lparr>console := (console s)\<lparr>scancodes := scancodes (console s) @ [code]\<rparr>\<rparr>)"
| irq: "irq_common r s = Some (w, t) \<Longrightarrow> machine_step s t"
| tty: "i < 3 \<Longrightarrow> fd_get (of_nat i) s = Some 0 \<Longrightarrow> tty_fd i s = Some t \<Longrightarrow> machine_step s t"
| call: "current_proc (procs s) \<noteq> Some 0 \<Longrightarrow> int_no r = 128 \<Longrightarrow> plain_call (regs.truncate r)
    \<Longrightarrow> isr_handler_ext shell stack mem cr2 r s = Some (out, q, w, t) \<Longrightarrow> machine_step s t"

inductive_cases machine_stepE: "machine_step s t"

lemma machine_step_ok: "machine_step s t \<Longrightarrow> machine_ok s \<Longrightarrow> machine_ok t"
proof (elim machine_stepE)
  fix i assume "machine_ok s" "i < 3" "fd_get (of_nat i) s = Some 0" "tty_fd i s = Some t"
  then show ?thesis using tty_fd_ok [of s i t] by simp
next
  fix r out q w shell stack mem cr2
  assume ok: "machine_ok s" "current_proc (procs s) \<noteq> Some 0" "int_no r = 128" "plain_call (regs.truncate r)"
    "isr_handler_ext shell stack mem cr2 r s = Some (out, q, w, t)"
  then obtain v where "syscall_dispatch shell stack mem (regs.truncate r) s = Some (v, w, t)"
    by (auto simp: isr_handler_ext_def bind_eq_Some_conv split: option.split_asm)
  then show ?thesis using call_ok ok by blast
qed (auto intro: irq_ok machine_ok_only)

lemma machine_steps_ok: "machine_step\<^sup>*\<^sup>* s t \<Longrightarrow> machine_ok s \<Longrightarrow> machine_ok t"
  by (induction rule: rtranclp_induct) (auto intro: machine_step_ok)

section \<open>From the boot on\<close>

lemma fresh_machine_ok:
  assumes "sched_inv (procs t)" "files t = Map.empty" "\<forall>p\<in>set (proc_table (procs t)). fds p = replicate 32 0"
  shows "machine_ok t"
proof -
  have "set (fd_list t) \<subseteq> {0}" using assms(3) by (auto simp: fd_list_def)
  then have "handles t f = 0" if "f \<noteq> 0" for f using that by (auto simp: handles_def count_list_0_iff)
  moreover have "length (proc_table (procs t)) = 64" using assms(1) by (auto simp: sched_inv_def sched_pre_def)
  ultimately show ?thesis
    using assms sched_cur [of t] by (simp add: machine_ok_def refs_ok_def table_ok_def files_ok_def refs_def)
qed

lemma kernel_main_machine_ok:
  assumes on: "powered_on im (mem_size magic mbi) s" and "files s = Map.empty" and b: "kernel_main im magic mbi s = Some b"
  shows "machine_ok b"
  using kernel_main_some [OF on] assms(2) b by (auto intro: fresh_machine_ok)

lemma descriptor_live:
  assumes "refs_ok s" "i < 64" "f \<in> set (fds (proc_at (procs s) i))" "f \<noteq> 0"
  shows "\<exists>h. files s f = Some h \<and> unat (fref h) = handles s f"
proof -
  have "length (proc_table (procs s)) = 64" using refs_okD(1) [OF assms(1)] by (simp add: table_ok_def)
  with assms(2,3) have "f \<in> set (fd_list s)" by (auto simp: fd_list_def intro!: bexI [of _ "proc_at (procs s) i"])
  then have "handles s f \<noteq> 0" by (simp add: handles_def count_list_0_iff)
  then have "1 \<le> handles s f" by simp
  then show ?thesis by (rule live_file [OF assms(1,4)]) blast
qed



section \<open>Why fork is left out\<close>

lemma sys_fork_parts:
  assumes ok: "machine_ok s" and c: "current_proc (procs s) = Some c"
    and fork: "proc_fork (procs s) = Some (Some i, p)" and t: "sys_fork s = Some (x, t)"
  shows "files t = files s" "nodes t = nodes s" "st (procs t) i = PROC_READY" "fds (proc_at (procs t) i) = fds (proc_at (procs s) c)"
    "proc_at (procs t) c = proc_at (procs s) c" "i < 64" "current_proc (procs t) = Some c" "i \<noteq> c" "length (proc_table (procs t)) = 64"
proof -
  have pre: "sched_pre (procs s) c" and run: "runnable (st (procs s) c)" using ok c by (auto simp: machine_ok_def sched_inv_def sched_pre_def)
  note P = sched_preD [OF pre]
  obtain m where "t = s\<lparr>procs := p\<lparr>kmem := m\<rparr>\<rparr>" using t fork by (auto simp: sys_fork_def)
  moreover have "pstate (proc_at p i) = PROC_READY \<and> fds (proc_at p i) = fds (proc_at (procs s) c) \<and> proc_at p c = proc_at (procs s) c
      \<and> i < 64 \<and> current_proc p = Some c \<and> i \<noteq> c \<and> length (proc_table p) = 64"
    by (rule fork_some [OF pre run fork]) (use P(1-3) in \<open>simp\<close>)
  ultimately show "files t = files s" "nodes t = nodes s" "st (procs t) i = PROC_READY" "fds (proc_at (procs t) i) = fds (proc_at (procs s) c)"
    "proc_at (procs t) c = proc_at (procs s) c" "i < 64" "current_proc (procs t) = Some c" "i \<noteq> c" "length (proc_table (procs t)) = 64"
    by simp_all
qed

text \<open>
  C40. \<^verbatim>\<open>proc_fork\<close> copies the parent's descriptors with \<^verbatim>\<open>kmemcpy\<close> and counts no reference for the copies. So when
  the parent closes a descriptor that was the only one of its file, the file is freed although the child,
  which is ready to run, still has it: the child's descriptor refers to a file that is gone.
\<close>

theorem fork_then_close_dangles:
  assumes ok: "machine_ok s" and f: "fd_get fd s = Some f" "f \<noteq> 0" "handles s f = 1"
    and fork: "proc_fork (procs s) = Some (Some i, p)" and t: "sys_fork s = Some (x, t)" and u: "sys_close fd t = Some (r, u)"
  shows "st (procs u) i = PROC_READY \<and> fds (proc_at (procs u) i) ! unat fd = f \<and> files u f = None"
proof -
  have refs: "refs_ok s" using ok by (simp add: machine_ok_def)
  obtain c where c: "current_proc (procs s) = Some c" "c < 64" using ok by (auto simp: machine_ok_def sched_inv_def sched_pre_def)
  note F = sys_fork_parts [OF ok c(1) fork t]
  have cs: "cur s = Some c" "cur t = Some c" using c F(7) by (simp_all add: cur_def current_def MAX_PROCS_def)
  have fd: "fds (proc_at (procs s) c) ! unat fd = f" using f(1,2) cs(1) by (auto simp: fd_get_def cur_proc_def split: if_split_asm)
  have "fd_get fd t = Some f" using f(1) cs F(5,7) c(1) by (auto simp: fd_get_def cur_proc_def split: if_split_asm)
  then obtain v where v: "set_fd (unat fd) 0 t = Some v" "file_close f v = Some (r, u)"
    using u f(2) by (auto simp: sys_close_def bind_eq_Some_conv)
  then have v': "v = t\<lparr>procs := upd_proc c (\<lambda>p. p\<lparr>fds := (fds p)[unat fd := 0]\<rparr>) (procs t)\<rparr>" using cs(2) by (simp add: set_fd_def upd_cur_def)
  obtain h where h: "files s f = Some h" "unat (fref h) = 1" by (rule live_file [OF refs f(2)]) (use f(3) that in auto)
  then have h1: "fref h = 1" by (metis unat_1 word_unat_eq_iff)
  have "files u f = None" by (rule file_close_frame [OF v(2) f(2)]) (use h(1) h1 in \<open>simp add: v' F(1)\<close>)
  moreover have "procs u = procs v" by (rule close_procs [OF v(2) f(2)])
  ultimately show ?thesis using F(3,4,6,8,9) fd by (simp add: v')
qed

text \<open>A process of its own with the open file 4 as its descriptor 3.\<close>

definition forking :: kernel where
  "forking = some_kernel\<lparr>procs := upd_proc 1 (\<lambda>p. p\<lparr>fds := (replicate 32 0)[3 := 4]\<rparr>) (some_sys PROC_READY PROC_RUNNING PROC_UNUSED 1)\<rparr>"

lemma forking_sel [simp]:
  "fresh forking = 5" "nodes forking = nodes some_vfs" "files forking = files some_kernel" "current_proc (procs forking) = Some 1" "length (proc_table (procs forking)) = 64"
  "pvm (procs forking) = boot_vm"
  by (simp_all add: forking_def)

lemma forking_at:
  "proc_at (procs forking) 1 = (some_proc 1 0 PROC_RUNNING (kstack cold_sys 1))\<lparr>fds := (replicate 32 0)[3 := 4]\<rparr>"
  "i \<noteq> 1 \<Longrightarrow> proc_at (procs forking) i = proc_at (some_sys PROC_READY PROC_RUNNING PROC_UNUSED 1) i"
  by (simp_all add: forking_def some_sys_at upd_proc_def)

lemma forking_fds: "map fds (proc_table (procs forking)) = (replicate 64 (replicate 32 0))[1 := (replicate 32 0)[3 := 4]]"
proof (rule nth_equalityI)
  fix i assume "i < length (map fds (proc_table (procs forking)))"
  then have "i < 64" by simp
  then show "map fds (proc_table (procs forking)) ! i = (replicate 64 (replicate 32 0))[1 := (replicate 32 0)[3 := 4]] ! i"
    by (cases rule: upto64_cases)
      (simp_all add: forking_at forking_at(1) [simplified] some_sys_at some_proc_def zero_process_def MAX_FDS_def nth_list_update)
qed simp

lemma replicate_64: "replicate 64 a = a # a # replicate 62 a"
  using replicate_add [of 2 62 a] by (simp add: numeral_2_eq_2)

lemma forking_handles: "f \<noteq> 0 \<Longrightarrow> handles forking f = (if f = 4 then 1 else 0)"
  using count_list_update [of 3 "replicate 32 0" 4 f] zero_fds [of f 62] zero_fds [of f 1]
  by (simp add: handles_def fd_list_def forking_fds replicate_64 split: if_splits)

lemma forking_ok: "machine_ok forking"
proof -
  have "sched_inv (some_sys PROC_READY PROC_RUNNING PROC_UNUSED 1)" by (rule some_sys_inv) (simp_all add: some_sys_at)
  then have inv: "sched_inv (procs forking)" by (rule sched_view_inv [rotated]) (simp add: forking_def)
  have "fds ` set (proc_table (procs forking)) = set (map fds (proc_table (procs forking)))" by simp
  also have "\<dots> \<subseteq> insert ((replicate 32 0)[3 := 4]) (set (replicate 64 (replicate 32 0)))"
    unfolding forking_fds by (rule set_update_subset_insert)
  finally have "\<forall>p\<in>set (proc_table (procs forking)). length (fds p) = 32" by auto
  then have "table_ok forking" using sched_cur [OF inv] by (simp add: table_ok_def)
  moreover have "files_ok forking" by (simp add: files_ok_def)
  moreover have "refs forking f = handles forking f \<and> (files forking f = None \<longleftrightarrow> handles forking f = 0)" if "f \<noteq> 0" for f
    using forking_handles [OF that] by (simp add: refs_def)
  ultimately show ?thesis using inv by (simp add: refs_ok_def machine_ok_def)
qed

lemma forking_forks: "\<exists>p. proc_fork (procs forking) = Some (Some 2, p)"
proof -
  have "2 < MAX_PROCS \<and> st (procs forking) 2 = PROC_UNUSED \<and> (\<forall>j<2. st (procs forking) j \<noteq> PROC_UNUSED)"
    using forking_at(1) by (auto simp: forking_at(2) some_sys_at less_2_cases_iff)
  then have "List.find (\<lambda>i. st (procs forking) i = PROC_UNUSED) [0..<MAX_PROCS] = Some 2" unfolding find_upt_Some_iff .
  then have al: "alloc_proc (procs forking) = (Some 2, (upd_proc 2 (\<lambda>_. zero_process) (procs forking))
      \<lparr>kmem := kmemset (kstack (procs forking) 2) 0 8192 (kmem (procs forking))\<rparr>)"
    by (simp only: alloc_proc_def option.case)
  obtain pd v where "vmm_clone (kernel_dir boot_vm) boot_vm = Some (pd, v)"
    using vmm_clone_some [OF boot_vm(2,3,3) _ boot_vm(6)] by blast
  then show ?thesis unfolding proc_fork_def al using forking_at(1) by (simp add: Let_def current_def)
qed

theorem fork_then_close_dangles_witness:
  "\<exists>x t r u. sys_fork forking = Some (x, t) \<and> sys_close 3 t = Some (r, u) \<and> fds (proc_at (procs u) 2) ! 3 = 4 \<and> files u 4 = None"
proof -
  obtain p where p: "proc_fork (procs forking) = Some (Some 2, p)" using forking_forks by blast
  then obtain x t where t: "sys_fork forking = Some (x, t)" by (simp add: sys_fork_def)
  have cur: "cur forking = Some 1" "fd_get 3 forking = Some 4"
    using forking_at(1) by (simp_all add: cur_def current_def MAX_PROCS_def MAX_FDS_def fd_get_def cur_proc_def)
  note F = sys_fork_parts [OF forking_ok _ p t, of 1, simplified]
  have "\<exists>r u. sys_close 3 t = Some (r, u)"
    using F(1,2,5,7,9) forking_at(1) by (simp add: sys_close_def fd_get_def cur_proc_def cur_def current_def MAX_PROCS_def MAX_FDS_def
      set_fd_def upd_cur_def file_close_def Let_def upd_vnode_def vnode_at_def some_vfs_def)
  then obtain r u where u: "sys_close 3 t = Some (r, u)" by blast
  from fork_then_close_dangles [OF forking_ok cur(2) _ _ p t u] forking_handles [of 4] t u show ?thesis by auto
qed

end
