(* ===== verification/Spec2Isabelle.thy ===== *)
theory Spec2Isabelle
  imports Heap Stubs Machine
begin

text \<open>
  A verification of MyOS, a small kernel for the 32-bit PC: memory management, processes, a file system in
  memory, a terminal, system calls, and a shell that runs in the kernel.

  The parts and how they work together. \<^verbatim>\<open>_start\<close> calls \<^verbatim>\<open>kernel_main\<close> (\<^verbatim>\<open>kernel/main.c\<close>), which sets the parts up
  in this order: descriptor tables, frame allocator, paging, heap, file system, timer, processes; and
  makes the process \<^verbatim>\<open>init\<close>. From then on the timer interrupt calls the scheduler and the keyboard
  interrupt fills the buffer of the terminal; \<^verbatim>\<open>init\<close> opens the terminal as its descriptors and runs
  the shell. Programs enter the kernel by the interrupt 128, which leads to \<^verbatim>\<open>syscall_dispatch\<close>. Paging and
  the heap take frames from the allocator, fork and exit use paging, the calls use the file system
  and the table of processes.

  \<^bold>\<open>The theories\<close>, in the order of their imports:
  \<^item> \<open>Prelude\<close>: the machine integers, the error codes, counted loops (\<open>for_range\<close>), and the
    collections of lemmas the others use.
  \<^item> \<open>Pmm\<close>: \<^verbatim>\<open>mm/pmm.c\<close>. The record \<open>pmm\<close> has the bitmap and the two counters; \<open>free_frames\<close> is its
    meaning. The interface \<open>frame_alloc\<close> is what paging needs of it.
  \<^item> \<open>Vmm\<close>: \<^verbatim>\<open>mm/vmm.c\<close>. The record \<open>vm\<close> adds the words of physical memory and the registers of
    paging; \<open>aspace\<close> is the address space of a directory. The interface \<open>kernel_space\<close> is for the heap.
  \<^item> \<open>Bytes\<close>, \<open>Heap\<close>: \<^verbatim>\<open>mm/heap.c\<close> on bytes; \<open>blocks\<close> is the list of sizes and free flags.
    The interfaces \<open>allocator\<close> and \<open>heap_memory\<close> state what a client relies on.
  \<^item> \<open>Proc\<close>, \<open>Scheduling\<close>: \<^verbatim>\<open>proc/proc.c\<close> and \<^verbatim>\<open>proc/switch.S\<close>. The record \<open>psys\<close> has the 64 processes,
    their stacks as bytes, and the registers; \<open>kstep\<close> is the step relation of the process part.
  \<^item> \<open>Libc\<close>, \<open>Stdio\<close>: \<^verbatim>\<open>libc/libc.c\<close>, its pure functions and those on the system.
  \<^item> \<open>Tty\<close>: \<^verbatim>\<open>drivers/tty.c\<close>: screen, keyboard (\<open>bounded_queue\<close> is its interface), line editor.
  \<^item> \<open>Ramfs\<close>, \<open>Vfs\<close>: \<^verbatim>\<open>fs/ramfs.c\<close> and \<^verbatim>\<open>fs/vfs.c\<close>: nodes, directories (interface \<open>directory\<close>), paths, mount
    points, open files.
  \<^item> \<open>Syscall\<close>: \<^verbatim>\<open>syscall/syscall.c\<close> and \<^verbatim>\<open>userland/exec.c\<close>, on the record \<open>kernel\<close> that joins files and processes.
  \<^item> \<open>Shell\<close>: \<^verbatim>\<open>userland/sh.c\<close>.
  \<^item> \<open>Ports\<close>, \<open>Gdt\<close>: \<^verbatim>\<open>kernel/io.h\<close>, \<^verbatim>\<open>drivers/serial.c\<close>, \<^verbatim>\<open>kernel/gdt.c\<close>, \<^verbatim>\<open>kernel/idt.c\<close>.
  \<^item> \<open>Interrupts\<close>: \<^verbatim>\<open>drivers/irq.c\<close> and the dispatch of exceptions and calls, on the record \<open>machine\<close>.
  \<^item> \<open>Stubs\<close>: \<^verbatim>\<open>kernel/isr_stubs.S\<close> and \<^verbatim>\<open>boot/boot.S\<close>, as functions on the registers and the stack.
  \<^item> \<open>Initfs\<close>, \<open>Boot\<close>: \<^verbatim>\<open>kernel/main.c\<close>, the initial tree of files and \<^verbatim>\<open>kernel_main\<close>, on the record \<open>system\<close>
    of the whole machine.
  \<^item> \<open>Machine\<close>: the system after the boot, as a step relation over keys, interrupts and calls.
\<close>

text \<open>
  \<^bold>\<open>How the code is rendered.\<close> A C function is a HOL function to an \<^theory_text>\<open>option\<close>: \<open>None\<close> means that the code
  leaves its defined behaviour (an access outside an array, NULL, freed memory) or does not return;
  error codes are values. A result \<open>Some\<close> is therefore memory safety and termination as well. Integers are
  words of their width, arrays are lists of fixed length, static variables are the fields of the
  records. Local arrays that the code does not initialise are arguments where their contents
  can matter, and memory that \<^verbatim>\<open>kmalloc\<close> hands to the file system holds arbitrary bytes (\<open>stale\<close>).

  \<^bold>\<open>What the lemmas show.\<close>
  \<^item> Of each component, that an invariant is kept by every operation and that the operations do on the
    abstraction what they should: the set of free frames, the address space, the list of blocks,
    the terminal of 25 lines, the queue of keys, the map of a directory, the walk of a path.
  \<^item> Of the scheduler: one process runs, round robin, no ready process waits more than 63 ticks, a process
    that was switched away from goes on with its registers, fork, exit and wait.
  \<^item> Of the files: what is written is read; reference counts are the numbers of descriptors.
  \<^item> Of the whole: \<^verbatim>\<open>kernel_main\<close> gets to its idle loop with every part set up, and the invariants of scheduler
    and descriptors hold in every state reached after it.
  \<^item> Where the code does not do what it means to, that is a theorem or lemma too: for instance destroying a
    clone frees frames still mapped, a child of fork keeps descriptors of files that are gone,
    unlinking an open file frees its node.

  \<^bold>\<open>Bounds.\<close> The theorems on the boot are for at most 256 MB of memory, which is what the bitmap has room
  for; for more, a lemma of \<open>Pmm\<close> shows that the code writes behind it. The heap has no bound of its
  own: \<^verbatim>\<open>HEAP_MAX\<close> is defined in the code and never tested. No definition has fuel: loops are
  structural, have a measure, or are \<^theory_text>\<open>partial_function (option)\<close> with a theorem that gives a
  result (the shell's reading loops wait for keys; without further ones their value is \<open>None\<close>).
\<close>

text \<open>
  \<^bold>\<open>Not modelled\<close>, and why.
  \<^item> The TLB: \<^verbatim>\<open>invlpg\<close> has no state, and the MMU is \<open>aspace\<close>.
  \<^item> User programs themselves: their memory is the arrays that the pointers of a call point into. A change of
    ring at an interrupt is not part of \<open>Stubs\<close>, since the kernel never enters ring 3.
  \<^item> Interleaving within a function of the kernel: interrupts come between steps. The timer interrupt that
    switches ends for the machine with the switch; the rest of the handler, the acknowledgement,
    is what the interrupted process does when it runs again (\<open>Switched\<close> in \<open>Interrupts\<close>).
  \<^item> The steps of \<open>Machine\<close> leave out fork, execve, and dup2 of a descriptor to itself; each call is modelled
    in \<open>Syscall\<close>, and lemmas there and in \<open>Machine\<close> show what fork and that dup2 break.
  \<^item> The file system takes nodes and buffers from the heap by its contract and not through the bytes of \<open>Heap\<close>;
    running out of memory is modelled in \<open>Heap\<close> only. In the same way the processes have a memory of their own
    for the page directories (\<open>pvm\<close>), handed over from the heap's at the boot.
  \<^item> The linker script and the Makefile: the addresses that they decide are the record \<open>image\<close>.
  \<^item> The header files hold declarations; their types and constants are modelled where they are used.
\<close>

end
